(* ===== verification/Prelude.thy ===== *)
theory Prelude
  imports Main "HOL-Library.Word" "HOL-Library.Monad_Syntax"
begin

text \<open>
  Shared vocabulary of the development: the machine types of the C++ code, the treatment of
  undefined behaviour, and the generic facts on lists, options and words that the component
  theories use.

  Undefined behaviour and exceptions that no caller catches are the value \<^term>\<open>None\<close> of an
  \<open>option\<close>; the operations are composed with the option monad, so a model function that
  returns \<^term>\<open>Some\<close> has run to its end without either.
\<close>

subsection \<open>Machine types\<close>

type_synonym byte = "8 word"
type_synonym u16 = "16 word"
type_synonym u32 = "32 word"
type_synonym u64 = "64 word"

text \<open>The bounds of the 32-bit \<open>int\<close>: a signed result outside them is undefined behaviour.\<close>

abbreviation INT_MIN :: int where "INT_MIN \<equiv> -2147483648"
abbreviation INT_MAX :: int where "INT_MAX \<equiv> 2147483647"

definition in_i32 :: "int \<Rightarrow> bool" where
  "in_i32 i \<longleftrightarrow> INT_MIN \<le> i \<and> i \<le> INT_MAX"

definition i32 :: "int \<Rightarrow> int option" where
  "i32 i = (if in_i32 i then Some i else None)"

text \<open>\<open>memcpy (dst + off) src n\<close> on byte vectors: undefined if it leaves either buffer.\<close>

definition memcpy :: "byte list \<Rightarrow> nat \<Rightarrow> byte list \<Rightarrow> nat \<Rightarrow> byte list option" where
  "memcpy dst off src n =
     (if off + n \<le> length dst \<and> n \<le> length src
      then Some (take off dst @ take n src @ drop (off + n) dst) else None)"

text \<open>A session is named by its address.\<close>

type_synonym sref = nat

text \<open>A loop over a list with a body that may be undefined.\<close>

fun for_each :: "('a \<Rightarrow> 'w \<Rightarrow> 'w option) \<Rightarrow> 'a list \<Rightarrow> 'w \<Rightarrow> 'w option" where
  "for_each f [] w = Some w"
| "for_each f (x # xs) w = do { w \<leftarrow> f x w; for_each f xs w }"

subsection \<open>Collections of facts\<close>

named_theorems word_sizes \<open>lengths and unsigned values of the fixed-width encodings\<close>
named_theorems frame_simps \<open>the fields an operation leaves alone\<close>
named_theorems const_vals \<open>constants of the code, evaluated\<close>
named_theorems inv_intros \<open>operations that keep their component's invariant\<close>

subsection \<open>The option monad\<close>

lemma bind_SomeE [elim!]:
  assumes "Option.bind m f = Some y"
  obtains x where "m = Some x" and "f x = Some y"
  using assms by (cases m) auto

lemma i32_Some_iff [simp]: "i32 i = Some j \<longleftrightarrow> in_i32 i \<and> j = i"
  by (auto simp: i32_def)

lemma i32_None_iff [simp]: "i32 i = None \<longleftrightarrow> \<not> in_i32 i"
  by (simp add: i32_def)

lemma i32_in: "in_i32 i \<Longrightarrow> i32 i = Some i"
  by simp

lemma memcpy_Some_length: "memcpy dst off src n = Some r \<Longrightarrow> length r = length dst"
  by (auto simp: memcpy_def split: if_splits)

lemma le_div_int_iff:
  fixes a b c :: int
  assumes "0 < c"
  shows "a \<le> b div c \<longleftrightarrow> a * c \<le> b"
proof
  assume "a \<le> b div c"
  then have "a * c \<le> b div c * c"
    using assms by simp
  also have "\<dots> \<le> b"
    using assms by (simp add: minus_mod_eq_div_mult [symmetric])
  finally show "a * c \<le> b" .
next
  assume "a * c \<le> b"
  then have "a * c div c \<le> b div c"
    using assms by (intro zdiv_mono1)
  with assms show "a \<le> b div c"
    by simp
qed

lemma div_less_int_iff:
  fixes a b c :: int
  assumes "0 < c"
  shows "b div c < a \<longleftrightarrow> b < a * c"
  using le_div_int_iff [OF assms, of a b] by linarith

lemma word_of_unat: "unat w = n \<Longrightarrow> w = of_nat n"
  by auto

lemma unat_u16_less: "unat (w :: u16) < 65536"
proof -
  have "unat w < 2 ^ LENGTH(16)"
    by (rule unsigned_less)
  then show ?thesis by simp
qed

subsection \<open>Little-endian halves of a 16-bit word\<close>

definition lo8 :: "u16 \<Rightarrow> byte" where "lo8 w = ucast w"
definition hi8 :: "u16 \<Rightarrow> byte" where "hi8 w = ucast (drop_bit 8 w)"
definition le16 :: "byte \<Rightarrow> byte \<Rightarrow> u16" where
  "le16 lo hi = or (ucast lo) (push_bit 8 (ucast hi))"

lemma le16_split [simp]: "le16 (lo8 w) (hi8 w) = w"
  unfolding le16_def lo8_def hi8_def
  by (rule bit_word_eqI) (auto simp: bit_simps)

lemma lo8_le16 [simp]: "lo8 (le16 a b) = a"
  unfolding le16_def lo8_def
  by (rule bit_word_eqI) (auto simp: bit_simps)

lemma hi8_le16 [simp]: "hi8 (le16 a b) = b"
  unfolding le16_def hi8_def
  by (rule bit_word_eqI) (auto simp: bit_simps dest: bit_imp_le_length)

subsection \<open>Loops\<close>

text \<open>A loop keeps what each of its rounds keeps.\<close>

lemma for_each_inv:
  assumes "P w" and "\<And>x w. x \<in> set xs \<Longrightarrow> P w \<Longrightarrow> \<exists>w'. f x w = Some w' \<and> P w'"
  shows "\<exists>w'. for_each f xs w = Some w' \<and> P w'"
  using assms
proof (induction xs arbitrary: w)
  case (Cons x xs)
  obtain w1 where "f x w = Some w1" "P w1"
    using Cons.prems(2) [of x w] Cons.prems(1) by auto
  then show ?case
    using Cons.IH [of w1] Cons.prems(2) by auto
qed simp

lemma for_each_append: "for_each f (xs @ ys) w = Option.bind (for_each f xs w) (for_each f ys)"
  by (induction xs arbitrary: w) (simp_all add: bind_eq_Some_conv split: Option.bind_split)

end
