(* ===== verification/Packet.thy ===== *)
theory Packet
  imports Prelude
begin

text \<open>
  The wire format: \<open>ServerCore/Opcodes.h\<close>, \<open>SendBuffer.h\<close>, \<open>Packet.h\<close> and \<open>Packet.cpp\<close>.
  A packet is a 4-byte packed header (size, opcode; little-endian, as on the only
  target, x86 Windows) followed by the payload; \<open>size\<close> counts the header.
\<close>

subsection \<open>Opcodes\<close>

definition OP_C_ENTER_GAME :: u16 where "OP_C_ENTER_GAME = 1000"
definition OP_C_INPUT_CMD :: u16 where "OP_C_INPUT_CMD = 1001"
definition OP_C_ATTACK :: u16 where "OP_C_ATTACK = 1002"
definition OP_C_CHAT :: u16 where "OP_C_CHAT = 1003"
definition OP_C_USE_ITEM :: u16 where "OP_C_USE_ITEM = 1004"
definition OP_C_ENTER_ZONE :: u16 where "OP_C_ENTER_ZONE = 1005"
definition OP_C_RESURRECT :: u16 where "OP_C_RESURRECT = 1006"
definition OP_C_PING :: u16 where "OP_C_PING = 1007"
definition OP_C_LADDER_STATE :: u16 where "OP_C_LADDER_STATE = 1008"
definition OP_S_ENTER_GAME :: u16 where "OP_S_ENTER_GAME = 2000"
definition OP_S_SPAWN :: u16 where "OP_S_SPAWN = 2001"
definition OP_S_DESPAWN :: u16 where "OP_S_DESPAWN = 2002"
definition OP_S_PLAYER_LIST :: u16 where "OP_S_PLAYER_LIST = 2003"
definition OP_S_PLAYER_STATE :: u16 where "OP_S_PLAYER_STATE = 2004"
definition OP_S_BROADCAST_MOVE :: u16 where "OP_S_BROADCAST_MOVE = 2005"
definition OP_S_ATTACK_RESULT :: u16 where "OP_S_ATTACK_RESULT = 2006"
definition OP_S_TAKE_DAMAGE :: u16 where "OP_S_TAKE_DAMAGE = 2007"
definition OP_S_DIE :: u16 where "OP_S_DIE = 2008"
definition OP_S_RESURRECT :: u16 where "OP_S_RESURRECT = 2009"
definition OP_S_CHAT :: u16 where "OP_S_CHAT = 2010"
definition OP_S_INVENTORY_UPDATE :: u16 where "OP_S_INVENTORY_UPDATE = 2011"
definition OP_S_ENTER_ZONE :: u16 where "OP_S_ENTER_ZONE = 2012"
definition OP_S_PONG :: u16 where "OP_S_PONG = 2013"

lemmas opcode_defs =
  OP_C_ENTER_GAME_def OP_C_INPUT_CMD_def OP_C_ATTACK_def OP_C_CHAT_def OP_C_USE_ITEM_def
  OP_C_ENTER_ZONE_def OP_C_RESURRECT_def OP_C_PING_def OP_C_LADDER_STATE_def
  OP_S_ENTER_GAME_def OP_S_SPAWN_def OP_S_DESPAWN_def OP_S_PLAYER_LIST_def
  OP_S_PLAYER_STATE_def OP_S_BROADCAST_MOVE_def OP_S_ATTACK_RESULT_def OP_S_TAKE_DAMAGE_def
  OP_S_DIE_def OP_S_RESURRECT_def OP_S_CHAT_def OP_S_INVENTORY_UPDATE_def
  OP_S_ENTER_ZONE_def OP_S_PONG_def

text \<open>\<open>IsValidOpcode\<close>: the \<open>switch\<close>, in the source's order.\<close>

definition IsValidOpcode :: "u16 \<Rightarrow> bool" where
  "IsValidOpcode opcode \<longleftrightarrow> opcode \<in>
     {OP_C_ENTER_GAME, OP_C_INPUT_CMD, OP_C_ATTACK, OP_C_CHAT, OP_C_USE_ITEM, OP_C_ENTER_ZONE,
      OP_C_RESURRECT, OP_C_PING, OP_C_LADDER_STATE, OP_S_ENTER_GAME, OP_S_SPAWN, OP_S_DESPAWN,
      OP_S_PLAYER_LIST, OP_S_PLAYER_STATE, OP_S_BROADCAST_MOVE, OP_S_ATTACK_RESULT,
      OP_S_TAKE_DAMAGE, OP_S_DIE, OP_S_RESURRECT, OP_S_CHAT, OP_S_INVENTORY_UPDATE,
      OP_S_ENTER_ZONE, OP_S_PONG}"

subsection \<open>Send buffers\<close>

text \<open>
  \<open>class SendBuffer\<close>: a vector of fixed capacity and a write size. The constructor and
  \<open>CopyFrom\<close> take an \<open>int32_t\<close>; a negative size throws in the vector's constructor, and a
  length over the capacity throws \<open>runtime_error\<close>. A \<open>SendBufferRef\<close> is a shared pointer:
  \<^term>\<open>None\<close> is null. The pointed-to buffer is never written after it is made, so
  sharing it is copying it.
\<close>

record SendBuffer =
  buffer :: "byte list"
  writeSize :: int

type_synonym SendBufferRef = "SendBuffer option"

definition SendBuffer_new :: "int \<Rightarrow> SendBuffer option" where
  "SendBuffer_new sz = (if sz < 0 then None else Some \<lparr>buffer = replicate (nat sz) 0, writeSize = 0\<rparr>)"

definition Capacity :: "SendBuffer \<Rightarrow> int" where
  "Capacity sb = sint (of_nat (length (buffer sb)) :: 32 word)"

definition CopyFrom :: "SendBuffer \<Rightarrow> byte list \<Rightarrow> int \<Rightarrow> SendBuffer option" where
  "CopyFrom sb src len =
     (if len > Capacity sb then None
      else do {
        buf \<leftarrow> (if len > 0 then memcpy (buffer sb) 0 src (nat len) else Some (buffer sb));
        Some (sb\<lparr>buffer := buf, writeSize := len\<rparr>)
      })"

text \<open>\<open>static_cast<int32_t>\<close> of a \<open>size_t\<close>.\<close>

definition to_int32 :: "nat \<Rightarrow> int" where
  "to_int32 n = sint (of_nat n :: 32 word)"

definition MakeSendBuffer :: "byte list \<Rightarrow> SendBufferRef option" where
  "MakeSendBuffer packet =
     (if packet = [] then Some None
      else do {
        sb \<leftarrow> SendBuffer_new (to_int32 (length packet));
        sb' \<leftarrow> CopyFrom sb packet (to_int32 (length packet));
        Some (Some sb')
      })"

text \<open>The bytes \<open>BindSendBuffer\<close> hands to \<open>WSASend\<close>: the first \<open>Size()\<close> bytes of the buffer.\<close>

definition sb_bytes :: "SendBuffer \<Rightarrow> byte list" where
  "sb_bytes sb = take (nat (writeSize sb)) (buffer sb)"

subsection \<open>Headers and packets\<close>

record PacketHeader =
  hsize :: u16
  hopcode :: u16

record Packet =
  pheader :: PacketHeader
  payload :: "byte list"

text \<open>\<open>Packet pkt{}\<close>\<close>

definition Packet_new :: Packet where
  "Packet_new = \<lparr>pheader = \<lparr>hsize = 0, hopcode = 0\<rparr>, payload = []\<rparr>"

datatype PacketReadResult = Success | Incomplete | InvalidHeader | InvalidOpcode | PacketTooLarge

definition MAX_PACKET_SIZE :: u16 where "MAX_PACKET_SIZE = 65531"

abbreviation HEADER_SIZE :: nat where "HEADER_SIZE \<equiv> 4"

text \<open>The object representation of the packed header, and the header read back from bytes.\<close>

definition header_bytes :: "PacketHeader \<Rightarrow> byte list" where
  "header_bytes h = [lo8 (hsize h), hi8 (hsize h), lo8 (hopcode h), hi8 (hopcode h)]"

definition header_of_bytes :: "byte list \<Rightarrow> PacketHeader" where
  "header_of_bytes bs = \<lparr>hsize = le16 (bs ! 0) (bs ! 1), hopcode = le16 (bs ! 2) (bs ! 3)\<rparr>"

text \<open>
  \<open>MakePacket\<close>. The 16-bit size wraps around; the copies that follow are then out of bounds.
  \<open>payload\<close> is a pointer: \<^term>\<open>None\<close> is null.
\<close>

definition MakePacket :: "u16 \<Rightarrow> byte list option \<Rightarrow> u16 \<Rightarrow> byte list option" where
  "MakePacket opcode pl payloadLen = do {
     let h = \<lparr>hsize = of_nat HEADER_SIZE + payloadLen, hopcode = opcode\<rparr>;
     let pkt = replicate (unat (hsize h)) 0;
     pkt \<leftarrow> memcpy pkt 0 (header_bytes h) HEADER_SIZE;
     (case pl of
        Some p \<Rightarrow> if payloadLen > 0 then memcpy pkt HEADER_SIZE p (unat payloadLen) else Some pkt
      | None \<Rightarrow> Some pkt)
   }"

text \<open>
  \<open>TryGetPacket (stream, out)\<close>: the result, the stream afterwards, and \<open>out\<close> afterwards.
  Every early return leaves both alone.
\<close>

definition TryGetPacket ::
  "byte list \<Rightarrow> Packet \<Rightarrow> PacketReadResult \<times> byte list \<times> Packet" where
  "TryGetPacket stream out =
     (if length stream < HEADER_SIZE then (Incomplete, stream, out)
      else
        let h = header_of_bytes (take HEADER_SIZE stream) in
        if unat (hsize h) < HEADER_SIZE then (InvalidHeader, stream, out)
        else if hsize h > MAX_PACKET_SIZE then (PacketTooLarge, stream, out)
        else if \<not> IsValidOpcode (hopcode h) then (InvalidOpcode, stream, out)
        else if length stream < unat (hsize h) then (Incomplete, stream, out)
        else
          let payloadLen = (hsize h - of_nat HEADER_SIZE :: u16);
              pkt = \<lparr>pheader = h,
                     payload = (if payloadLen > 0
                                then take (unat (hsize h) - HEADER_SIZE) (drop HEADER_SIZE stream)
                                else [])\<rparr>
          in (Success, drop (unat (hsize h)) stream, pkt))"

subsection \<open>Making packets and buffers\<close>

lemma length_header_bytes [simp, word_sizes]: "length (header_bytes h) = HEADER_SIZE"
  by (simp add: header_bytes_def)

lemma header_of_header_bytes [simp]: "header_of_bytes (header_bytes h) = h"
  by (simp add: header_of_bytes_def header_bytes_def numeral_2_eq_2 numeral_3_eq_3)

lemma header_bytes_of_header:
  assumes "length bs = HEADER_SIZE"
  shows "header_bytes (header_of_bytes bs) = bs"
proof -
  obtain a b c d where "bs = [a, b, c, d]"
    using assms by (auto simp: length_Suc_conv numeral_eq_Suc)
  then show ?thesis
    by (simp add: header_of_bytes_def header_bytes_def numeral_2_eq_2 numeral_3_eq_3)
qed

lemma unat_packet_size [word_sizes]:
  "unat (4 + n :: u16) = (HEADER_SIZE + unat n) mod 65536"
  by (simp add: unat_word_ariths)

text \<open>The packet's bytes, and what a packet on the wire must satisfy.\<close>

definition packet_bytes :: "Packet \<Rightarrow> byte list" where
  "packet_bytes p = header_bytes (pheader p) @ payload p"

definition wf_packet :: "Packet \<Rightarrow> bool" where
  "wf_packet p \<longleftrightarrow> unat (hsize (pheader p)) = HEADER_SIZE + length (payload p)
     \<and> hsize (pheader p) \<le> MAX_PACKET_SIZE \<and> IsValidOpcode (hopcode (pheader p))"

definition packet_of :: "u16 \<Rightarrow> byte list \<Rightarrow> Packet" where
  "packet_of opcode p =
     \<lparr>pheader = \<lparr>hsize = of_nat (HEADER_SIZE + length p), hopcode = opcode\<rparr>, payload = p\<rparr>"

lemma MakePacket_null:
  "unat n \<le> 65531 \<Longrightarrow> MakePacket opcode None n
     = Some (header_bytes \<lparr>hsize = of_nat HEADER_SIZE + n, hopcode = opcode\<rparr> @ replicate (unat n) 0)"
  by (simp add: MakePacket_def memcpy_def unat_packet_size Let_def)

lemma MakePacket_Some:
  assumes "length p = unat n" and "unat n \<le> 65531"
  shows "MakePacket opcode (Some p) n = Some (packet_bytes (packet_of opcode p))"
proof (cases "n = 0")
  case True
  with assms show ?thesis
    by (simp add: MakePacket_def memcpy_def packet_of_def packet_bytes_def Let_def)
next
  case False
  have n: "of_nat HEADER_SIZE + n = (of_nat (HEADER_SIZE + length p) :: u16)"
    using assms(1) by (simp add: word_of_nat_eq_iff [symmetric])
  from False assms show ?thesis
    by (simp add: MakePacket_def memcpy_def packet_bytes_def packet_of_def unat_packet_size Let_def
          word_gt_0 n [symmetric])
qed

lemma MakePacket_wraps: "65531 < unat n \<Longrightarrow> MakePacket opcode p n = None"
proof -
  assume "65531 < unat n"
  moreover have "unat n < 65536"
    by (rule unat_u16_less)
  ultimately have "(HEADER_SIZE + unat n) mod 65536 < HEADER_SIZE"
    by (auto simp: mod_if)
  then show ?thesis
    by (simp add: MakePacket_def memcpy_def unat_packet_size Let_def)
qed

lemma to_int32_small: "n < 2147483648 \<Longrightarrow> to_int32 n = int n"
  by (simp add: to_int32_def signed_of_nat signed_take_bit_int_eq_self)

lemma MakeSendBuffer_small:
  assumes "packet \<noteq> []" and "length packet < 2147483648"
  shows "MakeSendBuffer packet = Some (Some \<lparr>buffer = packet, writeSize = int (length packet)\<rparr>)"
proof -
  from assms(2) have "sint (of_nat (length packet) :: 32 word) = int (length packet)"
    using to_int32_small by (simp add: to_int32_def)
  with assms show ?thesis
    by (simp add: MakeSendBuffer_def SendBuffer_new_def CopyFrom_def Capacity_def memcpy_def
          to_int32_small)
qed

subsection \<open>Reading packets\<close>

lemma TryGetPacket_result:
  "TryGetPacket stream out = (r, stream', out') \<Longrightarrow> r \<noteq> Success \<Longrightarrow> stream' = stream \<and> out' = out"
  by (auto simp: TryGetPacket_def Let_def split: if_splits)

lemma TryGetPacket_encode:
  assumes "wf_packet p"
  shows "TryGetPacket (packet_bytes p @ rest) out = (Success, rest, p)"
proof -
  let ?h = "pheader p"
  have h: "header_of_bytes (take HEADER_SIZE (packet_bytes p @ rest)) = ?h"
    by (simp add: packet_bytes_def)
  have "drop HEADER_SIZE (packet_bytes p @ rest) = payload p @ rest"
    by (simp add: packet_bytes_def)
  moreover have "hsize ?h - of_nat HEADER_SIZE > 0 \<longleftrightarrow> payload p \<noteq> []"
  proof -
    have "hsize ?h - of_nat HEADER_SIZE > 0 \<longleftrightarrow> hsize ?h \<noteq> 4"
      by (simp add: word_gt_0)
    also have "\<dots> \<longleftrightarrow> unat (hsize ?h) \<noteq> 4"
      by (simp add: word_unat_eq_iff)
    finally show ?thesis
      using assms by (simp add: wf_packet_def)
  qed
  ultimately show ?thesis
    using assms unfolding TryGetPacket_def h
    by (auto simp: wf_packet_def Let_def packet_bytes_def not_less)
qed

lemma TryGetPacket_SuccessD:
  assumes "TryGetPacket stream out = (Success, rest, p)"
  shows "wf_packet p" and "stream = packet_bytes p @ rest"
proof -
  let ?h = "header_of_bytes (take HEADER_SIZE stream)"
  from assms have len: "HEADER_SIZE \<le> length stream" and sz: "HEADER_SIZE \<le> unat (hsize ?h)"
    and mx: "hsize ?h \<le> MAX_PACKET_SIZE" and op: "IsValidOpcode (hopcode ?h)"
    and fit: "unat (hsize ?h) \<le> length stream" and rest: "rest = drop (unat (hsize ?h)) stream"
    by (auto simp: TryGetPacket_def Let_def split: if_splits)
  have pl: "p = \<lparr>pheader = ?h, payload = take (unat (hsize ?h) - HEADER_SIZE) (drop HEADER_SIZE stream)\<rparr>"
  proof -
    have "hsize ?h = 4" if "\<not> hsize ?h - of_nat HEADER_SIZE > 0"
      using that by (simp add: word_gt_0)
    then show ?thesis
      using assms len sz mx [THEN leD] op fit unfolding TryGetPacket_def Let_def
      by (auto split: if_splits)
  qed
  show "wf_packet p"
    using sz mx op fit by (simp add: pl wf_packet_def)
  have "header_bytes ?h = take HEADER_SIZE stream"
    using len by (intro header_bytes_of_header) simp
  moreover have "stream = take HEADER_SIZE stream
      @ take (unat (hsize ?h) - HEADER_SIZE) (drop HEADER_SIZE stream) @ drop (unat (hsize ?h)) stream"
    using sz by (metis append_take_drop_id drop_drop le_add_diff_inverse2)
  ultimately show "stream = packet_bytes p @ rest"
    by (simp add: pl rest packet_bytes_def)
qed

lemma TryGetPacket_Success_iff:
  "TryGetPacket stream out = (Success, rest, p) \<longleftrightarrow> wf_packet p \<and> stream = packet_bytes p @ rest"
  using TryGetPacket_SuccessD TryGetPacket_encode by blast

lemma packet_bytes_length: "wf_packet p \<Longrightarrow> HEADER_SIZE \<le> length (packet_bytes p)"
  by (simp add: packet_bytes_def)

lemma TryGetPacket_progress:
  assumes "TryGetPacket stream out = (Success, rest, p)"
  shows "length rest + HEADER_SIZE \<le> length stream"
  using TryGetPacket_SuccessD [OF assms] by (simp add: packet_bytes_def)

text \<open>A header that is refused is refused whatever follows it.\<close>

lemma TryGetPacket_Bad_append:
  assumes "TryGetPacket stream out = (r, stream', out')" and "r \<notin> {Success, Incomplete}"
  shows "TryGetPacket (stream @ later) out = (r, stream @ later, out)"
  using assms by (auto simp: TryGetPacket_def Let_def split: if_splits)

text \<open>A stream that is kept waiting is shorter than the largest packet.\<close>

lemma TryGetPacket_Incomplete_short:
  assumes "TryGetPacket stream out = (Incomplete, stream', out')"
  shows "length stream < 65531"
proof -
  have "unat h \<le> 65531" if "h \<le> MAX_PACKET_SIZE" for h
    using that by (simp add: MAX_PACKET_SIZE_def word_le_nat_alt)
  then show ?thesis
    using assms by (fastforce simp: TryGetPacket_def Let_def not_less split: if_splits)
qed

lemma unat_MAX_PACKET_SIZE [simp, word_sizes]: "unat MAX_PACKET_SIZE = 65531"
  by (simp add: MAX_PACKET_SIZE_def)

lemma wf_packet_of:
  assumes "IsValidOpcode opcode" and "length p + HEADER_SIZE \<le> unat MAX_PACKET_SIZE"
  shows "wf_packet (packet_of opcode p)"
proof -
  have "unat (of_nat (HEADER_SIZE + length p) :: u16) = (HEADER_SIZE + length p) mod 65536"
    by (simp only: unat_of_nat) simp
  then show ?thesis
    using assms by (simp add: wf_packet_def packet_of_def word_le_nat_alt del: of_nat_add)
qed

lemma MakePacket_of_nat:
  "length p \<le> 65531 \<Longrightarrow> MakePacket opcode (Some p) (of_nat (length p)) = Some (packet_bytes (packet_of opcode p))"
  by (rule MakePacket_Some) (simp_all add: unat_of_nat)

subsection \<open>Properties\<close>

text \<open>C10: What \<open>MakePacket\<close> writes, \<open>TryGetPacket\<close> reads back: for a known opcode and a payload that keeps the packet within \<open>MAX_PACKET_SIZE\<close>, the packet comes out with its opcode and payload, and exactly the bytes that follow it stay in the stream.\<close>

lemma packet_roundtrip:
  assumes "IsValidOpcode opcode" and "length p + HEADER_SIZE \<le> unat MAX_PACKET_SIZE"
  shows "\<exists>bytes. MakePacket opcode (Some p) (of_nat (length p)) = Some bytes
    \<and> TryGetPacket (bytes @ rest) out = (Success, rest, packet_of opcode p)"
  using TryGetPacket_encode [OF wf_packet_of [OF assms]] MakePacket_of_nat assms(2)
  by (simp add: MAX_PACKET_SIZE_def)

lemma packet_roundtrip_witness:
  "\<exists>bytes. MakePacket OP_C_CHAT (Some [104, 105]) (of_nat (length [104, 105 :: byte])) = Some bytes
    \<and> TryGetPacket (bytes @ [7]) Packet_new = (Success, [7], packet_of OP_C_CHAT [104, 105])"
  by (rule packet_roundtrip) (simp_all add: IsValidOpcode_def opcode_defs MAX_PACKET_SIZE_def)

text \<open>C9: The parser accepts exactly the packets: it succeeds, with packet \<open>p\<close> and remaining stream \<open>rest\<close>, if and only if the stream is the bytes of a well-formed packet (its size field the number of its bytes, at most \<open>MAX_PACKET_SIZE\<close>, a known opcode) followed by \<open>rest\<close>; any other result leaves the stream and the out parameter alone.\<close>

lemma parser_accepts_exactly_packets:
  "(TryGetPacket stream out = (Success, rest, p) \<longleftrightarrow> wf_packet p \<and> stream = packet_bytes p @ rest)
   \<and> (fst (TryGetPacket stream out) = Success \<or> snd (TryGetPacket stream out) = (stream, out))"
  using TryGetPacket_Success_iff TryGetPacket_result by (metis prod.collapse)

text \<open>C11: The 16-bit size of \<open>MakePacket\<close> can wrap around: it writes beyond the buffer it allocates (undefined behaviour) exactly for payload lengths above 65531, four less than the type allows.\<close>

lemma make_packet_overflow:
  "MakePacket opcode pl n = None \<longleftrightarrow> 65531 < unat n \<or> (\<exists>p. pl = Some p \<and> length p < unat n)"
proof (cases "unat n \<le> 65531")
  case True
  have "MakePacket opcode (Some p) n = None \<longleftrightarrow> length p < unat n" for p
  proof (cases "n = 0")
    case False
    then show ?thesis
      using True by (simp add: MakePacket_def memcpy_def unat_packet_size Let_def word_gt_0 not_less)
  qed (simp add: MakePacket_def memcpy_def Let_def)
  then show ?thesis
    using True MakePacket_null [OF True] by (cases pl) auto
qed (use MakePacket_wraps in auto)

end
