(* ===== verification/Framing.thy ===== *)
theory Framing
  imports Packet
begin

text \<open>
  The receive path of a session as a decoder of a byte stream: TCP delivers the stream in pieces
  of any size, \<open>Session::OnRecvComplete\<close> appends each piece to its buffer and takes packets off
  it until none is left. The contract of such a decoder is a locale; \<open>TryGetPacket\<close> provides it.
\<close>

subsection \<open>Decoders of a stream\<close>

text \<open>What a decoder makes of the front of a stream.\<close>

datatype ('b, 'p) decoded = Frame 'p "'b list" | Wait | Bad

locale stream_decoder =
  fixes decode :: "'b list \<Rightarrow> ('b, 'p) decoded"
    and drain :: "'b list \<Rightarrow> 'p list \<times> 'b list option"
  assumes frame_shorter: "decode s = Frame p r \<Longrightarrow> length r < length s"
    and frame_append: "decode s = Frame p r \<Longrightarrow> decode (s @ t) = Frame p (r @ t)"
    and bad_append: "decode s = Bad \<Longrightarrow> decode (s @ t) = Bad"
    and drain_unfold: "drain s = (case decode s of
          Frame p r \<Rightarrow> (p # fst (drain r), snd (drain r))
        | Wait \<Rightarrow> ([], Some s) | Bad \<Rightarrow> ([], None))"
begin

lemma drain_cases:
  "decode s = Frame p r \<Longrightarrow> drain s = (p # fst (drain r), snd (drain r))"
  "decode s = Wait \<Longrightarrow> drain s = ([], Some s)"
  "decode s = Bad \<Longrightarrow> drain s = ([], None)"
  by (simp_all add: drain_unfold [of s])

text \<open>What is left over waits for more.\<close>

lemma drain_rest_waits: "snd (drain s) = Some r \<Longrightarrow> decode r = Wait \<and> length r \<le> length s"
proof (induction "length s" arbitrary: s rule: less_induct)
  case less
  show ?case
  proof (cases "decode s")
    case (Frame p t)
    then show ?thesis
      using less frame_shorter [OF Frame] by (fastforce simp: drain_cases)
  qed (use less.prems in \<open>auto simp: drain_cases\<close>)
qed

lemma drain_append:
  "drain (s @ t) = (case snd (drain s) of
     Some r \<Rightarrow> (fst (drain s) @ fst (drain (r @ t)), snd (drain (r @ t)))
   | None \<Rightarrow> (fst (drain s), None))"
proof (induction "length s" arbitrary: s rule: less_induct)
  case less
  show ?case
  proof (cases "decode s")
    case (Frame p r)
    then show ?thesis
      using less [of r] frame_shorter [OF Frame] drain_cases(1) [OF frame_append [OF Frame, of t]]
      by (simp add: drain_cases split: option.split)
  next
    case Wait
    then show ?thesis by (simp add: drain_cases)
  next
    case Bad
    then show ?thesis
      using bad_append [OF Bad, of t] by (simp add: drain_cases)
  qed
qed

text \<open>One more piece of the stream: the frames so far, and the buffer unless the stream was refused.\<close>

definition feed :: "'b list \<Rightarrow> 'p list \<times> 'b list option \<Rightarrow> 'p list \<times> 'b list option" where
  "feed piece st = (case snd st of None \<Rightarrow> st
     | Some buf \<Rightarrow> (fst st @ fst (drain (buf @ piece)), snd (drain (buf @ piece))))"

lemma feed_pieces: "fold feed pieces (drain s) = drain (s @ concat pieces)"
proof (induction pieces arbitrary: s)
  case (Cons piece pieces)
  have "feed piece (drain s) = drain (s @ piece)"
    by (simp add: feed_def drain_append [of s piece] split: option.split) (metis prod.collapse)
  then show ?case
    using Cons.IH [of "s @ piece"] by simp
qed simp

end

subsection \<open>The packets of a stream\<close>

definition decode_packet :: "byte list \<Rightarrow> (byte, Packet) decoded" where
  "decode_packet stream =
     (case TryGetPacket stream Packet_new of
        (Success, rest, p) \<Rightarrow> Frame p rest
      | (Incomplete, _, _) \<Rightarrow> Wait
      | _ \<Rightarrow> Bad)"

text \<open>
  The loop of \<open>Session::OnRecvComplete\<close> for a handler that accepts every packet: the packets
  taken off, in order, and the bytes left (\<^term>\<open>None\<close> once a header is refused).
\<close>

function read_packets :: "byte list \<Rightarrow> Packet list \<times> byte list option" where
  "read_packets stream =
     (case TryGetPacket stream Packet_new of (result, rest, p) \<Rightarrow>
        if result = Success then (case read_packets rest of (ps, r) \<Rightarrow> (p # ps, r))
        else if result = Incomplete then ([], Some stream)
        else ([], None))"
  by pat_completeness auto
termination
  by (relation "measure length") (simp_all, metis TryGetPacket_progress add_leD1 add_leE le_neq_implies_less
      less_add_same_cancel1 not_add_less1 order_less_le_trans zero_less_numeral)

declare read_packets.simps [simp del]

lemma decode_packet_simps:
  "decode_packet s = Frame p r \<longleftrightarrow> TryGetPacket s Packet_new = (Success, r, p)"
  "decode_packet s = Wait \<longleftrightarrow> fst (TryGetPacket s Packet_new) = Incomplete"
  "decode_packet s = Bad \<longleftrightarrow> fst (TryGetPacket s Packet_new) \<notin> {Success, Incomplete}"
  by (auto simp: decode_packet_def split: prod.split PacketReadResult.split)

interpretation packets: stream_decoder decode_packet read_packets
proof unfold_locales
  show "length r < length s" if "decode_packet s = Frame p r" for s p r
    using that TryGetPacket_progress by (fastforce simp: decode_packet_simps)
  show "decode_packet (s @ t) = Frame p (r @ t)" if "decode_packet s = Frame p r" for s p r t
    using that TryGetPacket_SuccessD [of s Packet_new r p] TryGetPacket_encode [of p "r @ t" Packet_new]
    by (simp add: decode_packet_simps)
  show "decode_packet (s @ t) = Bad" if "decode_packet s = Bad" for s t
    using that TryGetPacket_Bad_append [of s Packet_new "fst (TryGetPacket s Packet_new)"]
    by (cases "TryGetPacket s Packet_new") (auto simp: decode_packet_simps)
  show "read_packets s = (case decode_packet s of Frame p r \<Rightarrow> (p # fst (read_packets r), snd (read_packets r))
      | Wait \<Rightarrow> ([], Some s) | Bad \<Rightarrow> ([], None))" for s
    by (auto simp: read_packets.simps [of s] decode_packet_def split: prod.split PacketReadResult.split)
qed

subsection \<open>Packets on the wire\<close>

lemma read_packets_encoded:
  assumes "list_all wf_packet ps"
  shows "read_packets (concat (map packet_bytes ps) @ rest)
    = (ps @ fst (read_packets rest), snd (read_packets rest))"
  using assms
proof (induction ps)
  case (Cons p ps)
  then have "decode_packet (concat (map packet_bytes (p # ps)) @ rest) = Frame p (concat (map packet_bytes ps) @ rest)"
    by (simp add: decode_packet_simps TryGetPacket_encode)
  then show ?case
    using Cons by (simp add: packets.drain_cases)
qed simp

text \<open>One call of \<open>OnRecvComplete\<close>: the piece is appended to the buffer, then packets are taken off.\<close>

definition receive_piece ::
  "byte list \<Rightarrow> Packet list \<times> byte list option \<Rightarrow> Packet list \<times> byte list option" where
  "receive_piece piece st = (case st of
     (ps, None) \<Rightarrow> (ps, None)
   | (ps, Some buf) \<Rightarrow> (case read_packets (buf @ piece) of (qs, r) \<Rightarrow> (ps @ qs, r)))"

lemma receive_piece_feed: "receive_piece = packets.feed"
  by (intro ext) (auto simp: receive_piece_def packets.feed_def split: prod.split option.split)

lemma receive_pieces: "fold receive_piece pieces (read_packets s) = read_packets (s @ concat pieces)"
  by (simp add: receive_piece_feed packets.feed_pieces)

lemma read_packets_Nil: "read_packets [] = ([], Some [])"
  by (simp add: packets.drain_cases decode_packet_simps TryGetPacket_def)

subsection \<open>Properties\<close>

text \<open>How TCP cuts the stream does not matter: whatever the pieces in which a byte stream arrives, the session delivers the same packets in the same order, and is left with the same buffer (or has refused the stream), as if it had arrived in one piece.\<close>

lemma delivery_independent_of_pieces:
  "fold receive_piece pieces ([], Some []) = read_packets (concat pieces)"
  using receive_pieces [of pieces "[]"] by (simp add: read_packets_Nil)

text \<open>C33: No packet is lost, duplicated or reordered: if what arrives, in pieces of any size, is the concatenation of the bytes of a list of well-formed packets followed by an unfinished one, then exactly those packets are delivered in that order and the unfinished part stays in the buffer.\<close>

lemma packets_delivered_exactly:
  assumes "list_all wf_packet ps" and "concat pieces = concat (map packet_bytes ps) @ unfinished"
    and "fst (TryGetPacket unfinished Packet_new) = Incomplete"
  shows "fold receive_piece pieces ([], Some []) = (ps, Some unfinished)"
proof -
  have "read_packets unfinished = ([], Some unfinished)"
    using assms(3) by (simp add: packets.drain_cases decode_packet_simps)
  then show ?thesis
    using receive_pieces [of pieces "[]"] read_packets_encoded [OF assms(1), of unfinished] assms(2)
    by (simp add: read_packets_Nil)
qed

lemma packets_delivered_exactly_witness:
  "fold receive_piece [[5], [0, 239, 3, 9, 4, 0], [234, 3, 6]] ([], Some [])
     = ([packet_of OP_C_PING [9], packet_of OP_C_ATTACK []], Some [6])"
proof (rule packets_delivered_exactly)
  show "list_all wf_packet [packet_of OP_C_PING [9], packet_of OP_C_ATTACK []]"
    by (simp add: wf_packet_of IsValidOpcode_def opcode_defs)
  show "concat [[5], [0, 239, 3, 9, 4, 0], [234, 3, 6]]
      = concat (map packet_bytes [packet_of OP_C_PING [9], packet_of OP_C_ATTACK []]) @ [6]"
    by (simp add: packet_bytes_def packet_of_def header_bytes_def lo8_def hi8_def opcode_defs)
qed (simp add: TryGetPacket_def)

text \<open>The receive buffer is bounded: whatever arrives in whatever pieces, what a session keeps between completions is shorter than \<open>MAX_PACKET_SIZE\<close> and is the beginning of a packet still incomplete.\<close>

lemma kept_buffer_bounded:
  assumes "fold receive_piece pieces ([], Some []) = (ps, Some buf)"
  shows "length buf < unat MAX_PACKET_SIZE \<and> fst (TryGetPacket buf Packet_new) = Incomplete
    \<and> length buf \<le> length (concat pieces)"
proof -
  have "snd (read_packets (concat pieces)) = Some buf"
    using assms receive_pieces [of pieces "[]"] by (metis append_Nil read_packets_Nil snd_conv)
  from packets.drain_rest_waits [OF this] show ?thesis
    using TryGetPacket_Incomplete_short [of buf Packet_new]
    by (cases "TryGetPacket buf Packet_new") (auto simp: decode_packet_simps)
qed

lemma kept_buffer_bounded_witness:
  "length [6 :: byte] < unat MAX_PACKET_SIZE \<and> fst (TryGetPacket [6] Packet_new) = Incomplete
    \<and> length [6 :: byte] \<le> length (concat [[6 :: byte]])"
proof (rule kept_buffer_bounded)
  show "fold receive_piece [[6]] ([], Some []) = ([], Some [6])"
    by (simp add: receive_piece_def packets.drain_cases decode_packet_simps TryGetPacket_def)
qed

end
