(* ===== verification/Sessions.thy ===== *)
theory Sessions
  imports Framing
begin

text \<open>
  \<open>ServerCore/Session.h\<close> and \<open>Session.cpp\<close>: one connection on an I/O completion port, with its
  reference count, its receive stream and its send queue.

  Sessions live in a heap; a freed session is absent from it, and every access to an absent
  session is the value \<^term>\<open>None\<close> (use after free). A session with an overlapped operation
  outstanding is named in \<open>pending\<close>, once for each \<open>IoContext\<close> the kernel holds. Whether
  \<open>WSASend\<close> and \<open>WSARecv\<close> accept an operation is the operating system's choice: the parameter
  \<open>os\<close>, indexed by the number of calls made so far. Each function runs as one step: the
  interleavings modelled are those of whole completions, connects and ticks.
\<close>

subsection \<open>State\<close>

record Session =
  sock_open :: bool
  refCount :: int
  closing :: bool
  recvStream :: "byte list"
  sendQ :: "SendBuffer list"
  sending :: bool

datatype IOType = RECV | SEND

record IoContext =
  ioType :: IOType
  ioBuffer :: SendBufferRef

text \<open>What happened, in order: the callbacks, the sends handed to the kernel, the deletions.\<close>

datatype event = Connected sref | Disconnected sref | Sent sref SendBuffer | Deleted sref

datatype Mode = Mode_None | Mode_Server | Mode_Client

text \<open>The sessions' heap and the kernel's side of it, the fields of \<open>NetService\<close>, and
  the state of the application that uses it (\<open>app\<close>).\<close>

record ('x, 'm) net =
  heap :: "sref \<Rightarrow> 'x Session_scheme option"
  sessions :: "sref list"
  pending :: "(sref \<times> IoContext) list"
  calls :: nat
  events :: "event list"
  mode :: Mode
  running :: bool
  listening :: bool
  iocp_open :: bool
  workers :: nat
  app :: 'm

text \<open>
  What the operating system decides: whether a call succeeds, for the calls made once per start
  and for the calls indexed by the number made before; and the time of day.
\<close>

record os_api =
  send_ok :: "nat \<Rightarrow> bool"
  recv_ok :: "nat \<Rightarrow> bool"
  assoc_ok :: "nat \<Rightarrow> bool"
  socket_ok :: bool
  bind_ok :: bool
  listen_ok :: bool
  connect_ok :: bool
  iocp_ok :: bool
  thread_ok :: "nat \<Rightarrow> bool"
  clock :: "nat \<Rightarrow> u64"

definition MAX_SEND_QUEUE_SIZE :: nat where "MAX_SEND_QUEUE_SIZE = 64"

text \<open>\<open>Session (s, handler, owner)\<close>; the extra fields are those of a derived class.\<close>

definition Session_new :: "'x \<Rightarrow> 'x Session_scheme" where
  "Session_new x = \<lparr>sock_open = True, refCount = 1, closing = False, recvStream = [], sendQ = [],
     sending = False, \<dots> = x\<rparr>"

text \<open>Writing to a live session.\<close>

definition on_session :: "sref \<Rightarrow> ('x Session_scheme \<Rightarrow> 'x Session_scheme)
    \<Rightarrow> ('x, 'm) net \<Rightarrow> ('x, 'm) net option" where
  "on_session s f w = (case heap w s of None \<Rightarrow> None
     | Some x \<Rightarrow> Some (w\<lparr>heap := (heap w)(s \<mapsto> f x)\<rparr>))"

definition emit :: "event \<Rightarrow> ('x, 'm) net \<Rightarrow> ('x, 'm) net" where
  "emit e w = w\<lparr>events := events w @ [e]\<rparr>"

subsection \<open>Reference counting and closing\<close>

definition IsClosing :: "sref \<Rightarrow> ('x, 'm) net \<Rightarrow> bool option" where
  "IsClosing s w = map_option closing (heap w s)"

definition AddRef :: "sref \<Rightarrow> ('x, 'm) net \<Rightarrow> ('x, 'm) net option" where
  "AddRef s w = on_session s (\<lambda>x. x\<lparr>refCount := refCount x + 1\<rparr>) w"

definition Release :: "sref \<Rightarrow> ('x, 'm) net \<Rightarrow> ('x, 'm) net option" where
  "Release s w = do {
     x \<leftarrow> heap w s;
     if refCount x = 1 then Some (emit (Deleted s) (w\<lparr>heap := (heap w)(s := None)\<rparr>))
     else on_session s (\<lambda>x. x\<lparr>refCount := refCount x - 1\<rparr>) w
   }"

text \<open>\<open>NetService::RemoveSession\<close> and \<open>NetService::NotifyDisconnected\<close>, with the callback \<open>od\<close>.\<close>

definition RemoveSession :: "sref \<Rightarrow> ('x, 'm) net \<Rightarrow> ('x, 'm) net" where
  "RemoveSession s w = w\<lparr>sessions := removeAll s (sessions w)\<rparr>"

definition NotifyDisconnected ::
  "(sref \<Rightarrow> ('x, 'm) net \<Rightarrow> ('x, 'm) net option)
    \<Rightarrow> sref \<Rightarrow> ('x, 'm) net \<Rightarrow> ('x, 'm) net option" where
  "NotifyDisconnected od s w = od s (emit (Disconnected s) (RemoveSession s w))"

text \<open>The state of a session whose \<open>Close\<close> has run up to the callback.\<close>

definition closed_session :: "'x Session_scheme \<Rightarrow> 'x Session_scheme" where
  "closed_session x = x\<lparr>closing := True, sock_open := False, sendQ := [], sending := False, recvStream := []\<rparr>"

definition Close ::
  "(sref \<Rightarrow> ('x, 'm) net \<Rightarrow> ('x, 'm) net option)
    \<Rightarrow> sref \<Rightarrow> ('x, 'm) net \<Rightarrow> ('x, 'm) net option" where
  "Close od s w = do {
     x \<leftarrow> heap w s;
     if closing x then Some w
     else do {
       w \<leftarrow> on_session s closed_session w;
       w \<leftarrow> NotifyDisconnected od s w;
       Release s w
     }
   }"

subsection \<open>Posting operations\<close>

definition PostRecv ::
  "os_api \<Rightarrow> (sref \<Rightarrow> ('x, 'm) net \<Rightarrow> ('x, 'm) net option)
    \<Rightarrow> sref \<Rightarrow> ('x, 'm) net \<Rightarrow> ('x, 'm) net option" where
  "PostRecv os od s w = do {
     x \<leftarrow> heap w s;
     if closing x then Some w
     else do {
       w \<leftarrow> AddRef s w;
       let ok = recv_ok os (calls w);
       let w = w\<lparr>calls := calls w + 1\<rparr>;
       if ok then Some (w\<lparr>pending := pending w @ [(s, \<lparr>ioType = RECV, ioBuffer = None\<rparr>)]\<rparr>)
       else do { w \<leftarrow> Release s w; Close od s w }
     }
   }"

text \<open>\<open>PostSendFront_NoLock\<close>: the result, and the world afterwards.\<close>

definition PostSendFront_NoLock ::
  "os_api \<Rightarrow> sref \<Rightarrow> ('x, 'm) net \<Rightarrow> (bool \<times> ('x, 'm) net) option" where
  "PostSendFront_NoLock os s w = do {
     x \<leftarrow> heap w s;
     (case sendQ x of
        [] \<Rightarrow> do { w \<leftarrow> on_session s (\<lambda>x. x\<lparr>sending := False\<rparr>) w; Some (True, w) }
      | front # _ \<Rightarrow>
          if closing x then do { w \<leftarrow> on_session s (\<lambda>x. x\<lparr>sending := False\<rparr>) w; Some (True, w) }
          else do {
            w \<leftarrow> AddRef s w;
            let ok = send_ok os (calls w);
            let w = w\<lparr>calls := calls w + 1\<rparr>;
            if ok then Some (True, emit (Sent s front)
                     (w\<lparr>pending := pending w @ [(s, \<lparr>ioType = SEND, ioBuffer = Some front\<rparr>)]\<rparr>))
            else do {
              w \<leftarrow> Release s w;
              w \<leftarrow> on_session s (\<lambda>x. x\<lparr>sending := False\<rparr>) w;
              Some (False, w)
            }
          })
   }"

subsection \<open>Sending\<close>

definition EnqueueSend ::
  "os_api \<Rightarrow> (sref \<Rightarrow> ('x, 'm) net \<Rightarrow> ('x, 'm) net option)
    \<Rightarrow> sref \<Rightarrow> SendBufferRef \<Rightarrow> ('x, 'm) net \<Rightarrow> ('x, 'm) net option" where
  "EnqueueSend os od s sendBuffer w =
     (case sendBuffer of None \<Rightarrow> Some w
      | Some sb \<Rightarrow>
          if writeSize sb \<le> 0 then Some w
          else do {
            x \<leftarrow> heap w s;
            if closing x then Some w
            else do {
              (needClose, w) \<leftarrow>
                (if length (sendQ x) \<ge> MAX_SEND_QUEUE_SIZE then Some (True, w)
                 else do {
                   w \<leftarrow> on_session s (\<lambda>x. x\<lparr>sendQ := sendQ x @ [sb]\<rparr>) w;
                   if \<not> sending x then do {
                     w \<leftarrow> on_session s (\<lambda>x. x\<lparr>sending := True\<rparr>) w;
                     (ok, w) \<leftarrow> PostSendFront_NoLock os s w;
                     Some (\<not> ok, w)
                   }
                   else Some (False, w)
                 });
              if needClose then Close od s w else Some w
            }
          })"

text \<open>The overload for a packet.\<close>

definition EnqueueSend_packet ::
  "os_api \<Rightarrow> (sref \<Rightarrow> ('x, 'm) net \<Rightarrow> ('x, 'm) net option)
    \<Rightarrow> sref \<Rightarrow> byte list \<Rightarrow> ('x, 'm) net \<Rightarrow> ('x, 'm) net option" where
  "EnqueueSend_packet os od s packet w = do {
     sendBuffer \<leftarrow> MakeSendBuffer packet;
     EnqueueSend os od s sendBuffer w
   }"

definition OnSendComplete ::
  "os_api \<Rightarrow> (sref \<Rightarrow> ('x, 'm) net \<Rightarrow> ('x, 'm) net option)
    \<Rightarrow> sref \<Rightarrow> ('x, 'm) net \<Rightarrow> ('x, 'm) net option" where
  "OnSendComplete os od s w = do {
     w \<leftarrow> on_session s (\<lambda>x. x\<lparr>sendQ := (if sendQ x \<noteq> [] then tl (sendQ x) else [])\<rparr>) w;
     x \<leftarrow> heap w s;
     if sendQ x = [] \<or> closing x then on_session s (\<lambda>x. x\<lparr>sending := False\<rparr>) w
     else do {
       (ok, w) \<leftarrow> PostSendFront_NoLock os s w;
       if \<not> ok then Close od s w else Some w
     }
   }"

subsection \<open>Receiving\<close>

text \<open>
  The loop of \<open>OnRecvComplete\<close> with the packet handler \<open>hp\<close>. A handler could in principle keep
  it going for ever, so it is a partial function: that it finishes is proved below.
\<close>

partial_function (option) recv_loop ::
  "os_api \<Rightarrow> (sref \<Rightarrow> ('x, 'm) net \<Rightarrow> ('x, 'm) net option)
    \<Rightarrow> (sref \<Rightarrow> Packet \<Rightarrow> ('x, 'm) net \<Rightarrow> (bool \<times> ('x, 'm) net) option)
    \<Rightarrow> sref \<Rightarrow> ('x, 'm) net \<Rightarrow> ('x, 'm) net option" where
  "recv_loop os od hp s w = do {
     x \<leftarrow> heap w s;
     let (result, stream, pkt) = TryGetPacket (recvStream x) Packet_new;
     w \<leftarrow> on_session s (\<lambda>x. x\<lparr>recvStream := stream\<rparr>) w;
     if result = Incomplete then PostRecv os od s w
     else if result \<noteq> Success then Close od s w
     else do {
       (handled, w) \<leftarrow> hp s pkt w;
       if \<not> handled then Close od s w
       else do {
         x \<leftarrow> heap w s;
         if closing x then Some w else recv_loop os od hp s w
       }
     }
   }"

definition OnRecvComplete ::
  "os_api \<Rightarrow> (sref \<Rightarrow> ('x, 'm) net \<Rightarrow> ('x, 'm) net option)
    \<Rightarrow> (sref \<Rightarrow> Packet \<Rightarrow> ('x, 'm) net \<Rightarrow> (bool \<times> ('x, 'm) net) option)
    \<Rightarrow> sref \<Rightarrow> byte list \<Rightarrow> ('x, 'm) net \<Rightarrow> ('x, 'm) net option" where
  "OnRecvComplete os od hp s data w = do {
     x \<leftarrow> heap w s;
     if closing x then Some w
     else do {
       w \<leftarrow> on_session s (\<lambda>x. x\<lparr>recvStream := recvStream x @ data\<rparr>) w;
       recv_loop os od hp s w
     }
   }"

subsection \<open>Starting\<close>

text \<open>\<open>NetService::NotifyConnected\<close>, with the callback \<open>oc\<close>; the event records the call.\<close>

definition NotifyConnected ::
  "(sref \<Rightarrow> ('x, 'm) net \<Rightarrow> ('x, 'm) net option)
    \<Rightarrow> sref \<Rightarrow> ('x, 'm) net \<Rightarrow> ('x, 'm) net option" where
  [simp]: "NotifyConnected oc s w = oc s (emit (Connected s) w)"

definition Start ::
  "os_api \<Rightarrow> (sref \<Rightarrow> ('x, 'm) net \<Rightarrow> ('x, 'm) net option)
    \<Rightarrow> (sref \<Rightarrow> ('x, 'm) net \<Rightarrow> ('x, 'm) net option)
    \<Rightarrow> sref \<Rightarrow> ('x, 'm) net \<Rightarrow> ('x, 'm) net option" where
  "Start os oc od s w = do {
     w \<leftarrow> NotifyConnected oc s w;
     PostRecv os od s w
   }"

end
