(* ===== verification/SessionInv.thy ===== *)
theory SessionInv
  imports Sessions
begin

text \<open>
  What every operation of a session keeps: the reference count is exactly the open session, its
  outstanding operations and the references of the running code; an open session has one receive
  outstanding, and a send exactly while its queue is not empty, of the queue's front. The
  callbacks are known by contract (the locales \<open>disconnect_callback\<close> and \<open>packet_handler\<close>).
\<close>


subsection \<open>One session's share of the state\<close>

record 'x view =
  vheap :: "'x Session_scheme option"
  vpend :: "IoContext list"
  vreg :: bool
  vconn :: nat
  vdisc :: nat

definition view :: "sref \<Rightarrow> ('x, 'm) net \<Rightarrow> 'x view" where
  "view s w = \<lparr>vheap = heap w s, vpend = map snd (filter (\<lambda>p. fst p = s) (pending w)),
     vreg = (s \<in> set (sessions w)), vconn = count_list (events w) (Connected s),
     vdisc = count_list (events w) (Disconnected s)\<rparr>"

definition sends :: "IoContext list \<Rightarrow> SendBufferRef list" where
  "sends cs = map ioBuffer (filter (\<lambda>c. ioType c = SEND) cs)"

definition recvs :: "IoContext list \<Rightarrow> nat" where
  "recvs cs = length (filter (\<lambda>c. ioType c = RECV) cs)"

lemma sends_simps [simp]: "sends [] = []" "sends (c # cs) = (if ioType c = SEND then ioBuffer c # sends cs else sends cs)"
    "sends (cs @ ds) = sends cs @ sends ds"
  and recvs_simps [simp]: "recvs [] = 0" "recvs (c # cs) = (if ioType c = RECV then Suc (recvs cs) else recvs cs)"
    "recvs (cs @ ds) = recvs cs + recvs ds"
  by (simp_all add: sends_def recvs_def)

text \<open>
  What holds of a session. \<open>h\<close> references are held by the code now running, besides those of the
  open session and of its outstanding operations; \<open>f\<close> says that the send of the queue's front is
  just being completed; \<open>r\<close> that no receive is outstanding.
\<close>

definition ok :: "nat \<Rightarrow> bool \<Rightarrow> bool \<Rightarrow> 'x view \<Rightarrow> bool" where
  "ok h f r v \<longleftrightarrow> (case vheap v of
     None \<Rightarrow> vpend v = [] \<and> h = 0 \<and> \<not> vreg v \<and> vconn v = vdisc v
   | Some x \<Rightarrow>
       refCount x = (if closing x then 0 else 1) + int (length (vpend v)) + int h \<and> 0 < refCount x
       \<and> (sock_open x \<longleftrightarrow> \<not> closing x) \<and> (vreg v \<longleftrightarrow> \<not> closing x)
       \<and> length (sendQ x) \<le> MAX_SEND_QUEUE_SIZE
       \<and> vconn v = vdisc v + (if closing x then 0 else 1)
       \<and> (closing x \<longrightarrow> sendQ x = [] \<and> \<not> sending x \<and> recvStream x = [])
       \<and> (\<not> closing x \<longrightarrow> (sending x \<longleftrightarrow> sendQ x \<noteq> []) \<and> (f \<longrightarrow> sendQ x \<noteq> [])
            \<and> sends (vpend v) = (if f \<or> sendQ x = [] then [] else [Some (hd (sendQ x))])
            \<and> recvs (vpend v) = (if r then 0 else 1)))"

text \<open>The part of it that closing relies on.\<close>

definition closable :: "nat \<Rightarrow> 'x view \<Rightarrow> bool" where
  "closable h v \<longleftrightarrow> (case vheap v of
     None \<Rightarrow> vpend v = [] \<and> h = 0 \<and> \<not> vreg v \<and> vconn v = vdisc v
   | Some x \<Rightarrow>
       refCount x = (if closing x then 0 else 1) + int (length (vpend v)) + int h \<and> 0 < refCount x
       \<and> (sock_open x \<longleftrightarrow> \<not> closing x) \<and> (vreg v \<longleftrightarrow> \<not> closing x)
       \<and> vconn v = vdisc v + (if closing x then 0 else 1)
       \<and> (closing x \<longrightarrow> sendQ x = [] \<and> \<not> sending x \<and> recvStream x = []))"

lemma ok_closable: "ok h f r v \<Longrightarrow> closable h v"
  by (auto simp: ok_def closable_def split: option.splits)

lemma ok_None: "vheap v = None \<Longrightarrow> ok h f r v \<longleftrightarrow> closable h v"
  and ok_closing: "vheap v = Some x \<Longrightarrow> closing x \<Longrightarrow> ok h f r v \<longleftrightarrow> closable h v"
  by (auto simp: ok_def closable_def)

text \<open>The other sessions are left alone.\<close>

definition only :: "sref \<Rightarrow> ('x, 'm) net \<Rightarrow> ('x, 'm) net \<Rightarrow> bool" where
  "only s w w' \<longleftrightarrow> (\<forall>t. t \<noteq> s \<longrightarrow> view t w' = view t w) \<and> (distinct (sessions w) \<longrightarrow> distinct (sessions w'))"

lemma only_refl [simp]: "only s w w"
  by (simp add: only_def)

lemma only_trans [trans]: "only s w w' \<Longrightarrow> only s w' w'' \<Longrightarrow> only s w w''"
  by (simp add: only_def)

text \<open>The open sessions, with the fields of the derived class.\<close>

definition live :: "('x, 'm) net \<Rightarrow> sref \<Rightarrow> 'x option" where
  "live w s = (case heap w s of None \<Rightarrow> None | Some x \<Rightarrow> if closing x then None else Some (Session.more x))"

text \<open>The state in which the disconnect callback runs.\<close>

definition disconnecting :: "sref \<Rightarrow> ('x, 'm) net \<Rightarrow> ('x, 'm) net" where
  "disconnecting s w = emit (Disconnected s) (RemoveSession s
     (w\<lparr>heap := (heap w)(s := map_option closed_session (heap w s))\<rparr>))"

lemma view_more [simp]: "view t (app_update f w) = view t w" "live (app_update f w) = live w"
  by (simp_all add: view_def live_def fun_eq_iff)

lemma heap_same: "heap w s = Some x \<Longrightarrow> w\<lparr>calls := c, heap := (heap w)(s \<mapsto> x)\<rparr> = w\<lparr>calls := c\<rparr>"
  by (simp add: fun_upd_idem)

lemma live_Some_iff: "live w s = Some m \<longleftrightarrow> (\<exists>x. heap w s = Some x \<and> \<not> closing x \<and> Session.more x = m)"
  by (auto simp: live_def split: option.splits if_splits)

lemma live_disconnecting: "live (disconnecting s w) = (live w)(s := None)"
  by (auto simp: live_def disconnecting_def emit_def RemoveSession_def closed_session_def fun_eq_iff split: option.split)

lemma PostSendFront_ok:
  assumes "ok h True r (view s w)" and "heap w s = Some x" and "\<not> closing x"
  shows "\<exists>b w'. PostSendFront_NoLock os s w = Some (b, w') \<and> only s w w' \<and> live w' = live w
    \<and> app w' = app w \<and> closable h (view s w') \<and> heap w' s \<noteq> None
    \<and> (b \<longrightarrow> ok h False r (view s w'))"
proof -
  have q: "sendQ x \<noteq> []" "sending x" "0 < refCount x"
    using assms by (simp_all add: ok_def view_def)
  then obtain front rest where front: "sendQ x = front # rest"
    by (cases "sendQ x") auto
  show ?thesis
  proof (cases "send_ok os (calls w)")
    case True
    let ?w' = "emit (Sent s front) (w\<lparr>heap := (heap w)(s \<mapsto> x\<lparr>refCount := refCount x + 1\<rparr>), calls := calls w + 1,
        pending := pending w @ [(s, \<lparr>ioType = SEND, ioBuffer = Some front\<rparr>)]\<rparr>)"
    have "PostSendFront_NoLock os s w = Some (True, ?w')"
      using assms True front by (simp add: PostSendFront_NoLock_def AddRef_def on_session_def Let_def)
    moreover have "only s w ?w'"
      by (simp add: only_def view_def emit_def)
    moreover have "live ?w' = live w"
      using assms by (simp add: live_def fun_eq_iff emit_def)
    moreover have "ok h False r (view s ?w')"
      using assms front by (simp add: ok_def view_def emit_def)
    ultimately show ?thesis
      by (intro exI [of _ True] exI [of _ ?w']) (simp add: ok_closable emit_def)
  next
    case False
    let ?w' = "w\<lparr>heap := (heap w)(s \<mapsto> x\<lparr>sending := False\<rparr>), calls := calls w + 1\<rparr>"
    have "PostSendFront_NoLock os s w = Some (False, ?w')"
      using assms False front q(3)
      by (simp add: PostSendFront_NoLock_def AddRef_def Release_def on_session_def Let_def)
    moreover have "only s w ?w'"
      by (simp add: only_def view_def)
    moreover have "live ?w' = live w"
      using assms by (simp add: live_def fun_eq_iff)
    moreover have "closable h (view s ?w')"
      using ok_closable [OF assms(1)] assms(2,3) by (simp add: closable_def view_def)
    ultimately show ?thesis
      by (intro exI [of _ False] exI [of _ ?w']) simp
  qed
qed

text \<open>The contract of a disconnect callback.\<close>

locale disconnect_callback =
  fixes od :: "sref \<Rightarrow> ('x, 'm) net \<Rightarrow> ('x, 'm) net option"
    and I :: "(sref \<Rightarrow> 'x option) \<Rightarrow> 'm \<Rightarrow> bool"
  assumes od_ok: "I (live w) (app w) \<Longrightarrow> heap w s = Some x \<Longrightarrow> \<not> closing x \<Longrightarrow>
    \<exists>m. od s (disconnecting s w) = Some (app_update (\<lambda>_. m) (disconnecting s w))
      \<and> I ((live w)(s := None)) m"
begin

lemma Close_ok:
  assumes "closable h (view s w)" and "I (live w) (app w)" and "heap w s \<noteq> None"
  shows "\<exists>w'. Close od s w = Some w' \<and> only s w w' \<and> ok h f' r' (view s w')
    \<and> I (live w') (app w') \<and> live w' = (live w)(s := None)
    \<and> (0 < h \<longrightarrow> heap w' s \<noteq> None)"
proof -
  obtain x where x: "heap w s = Some x"
    using assms(3) by auto
  show ?thesis
  proof (cases "closing x")
    case True
    then show ?thesis
      using assms x by (auto simp: Close_def ok_def closable_def view_def live_def fun_eq_iff)
  next
    case False
    obtain m where od: "od s (disconnecting s w) = Some (app_update (\<lambda>_. m) (disconnecting s w))"
      and I: "I ((live w)(s := None)) m"
      using od_ok [OF assms(2) x False] by blast
    define w1 where "w1 = app_update (\<lambda>_. m) (disconnecting s w)"
    have close: "Close od s w = Release s w1"
      using x False od
      by (simp add: w1_def Close_def on_session_def NotifyDisconnected_def disconnecting_def)
    have h1: "heap w1 s = Some (closed_session x)" and v1: "view t w1 = view t w" if "t \<noteq> s" for t
      using x that by (auto simp: w1_def disconnecting_def emit_def RemoveSession_def view_def)
    show ?thesis
    proof (cases "refCount x = 1")
      case True
      let ?w' = "emit (Deleted s) (w1\<lparr>heap := (heap w1)(s := None)\<rparr>)"
      have "Close od s w = Some ?w'"
        using True h1 [of "Suc s"] by (simp add: close Release_def closed_session_def)
      moreover have "only s w ?w'"
        by (auto simp: only_def w1_def disconnecting_def emit_def RemoveSession_def view_def distinct_removeAll)
      moreover have "ok h f' r' (view s ?w') \<and> h = 0"
      proof -
        have "int (length (filter (\<lambda>p. fst p = s) (pending w))) + int h = 0"
          using assms(1) x False True by (simp add: closable_def view_def)
        then have "length (filter (\<lambda>p. fst p = s) (pending w)) = 0" and "h = 0"
          by linarith+
      then show ?thesis
        using assms(1) x False
        by (auto simp: ok_def closable_def w1_def disconnecting_def emit_def RemoveSession_def view_def)
      qed
      moreover have "live ?w' = (live w)(s := None)" and "app ?w' = m"
        by (auto simp: live_def w1_def disconnecting_def emit_def RemoveSession_def)
      ultimately show ?thesis
        using I by auto
    next
      case ref: False
      let ?x' = "(closed_session x)\<lparr>refCount := refCount x - 1\<rparr>"
      let ?w' = "w1\<lparr>heap := (heap w1)(s \<mapsto> ?x')\<rparr>"
      have "Close od s w = Some ?w'"
        using ref h1 [of "Suc s"] by (simp add: close Release_def closed_session_def on_session_def)
      moreover have "only s w ?w'"
        by (auto simp: only_def w1_def disconnecting_def emit_def RemoveSession_def view_def distinct_removeAll)
      moreover have "ok h f' r' (view s ?w')"
        using assms(1) x False ref
        by (auto simp: ok_def closable_def w1_def disconnecting_def emit_def RemoveSession_def view_def closed_session_def)
      moreover have "live ?w' = (live w)(s := None)" and "app ?w' = m"
        by (auto simp: live_def w1_def disconnecting_def emit_def RemoveSession_def closed_session_def)
      ultimately show ?thesis
        using I by auto
    qed
  qed
qed

lemma PostRecv_ok:
  assumes "ok h f True (view s w)" and "I (live w) (app w)" and "heap w s \<noteq> None"
  shows "\<exists>w'. PostRecv os od s w = Some w' \<and> only s w w' \<and> ok h f False (view s w')
    \<and> I (live w') (app w') \<and> (\<forall>t. t \<noteq> s \<longrightarrow> live w' t = live w t)
    \<and> (0 < h \<longrightarrow> heap w' s \<noteq> None)"
proof -
  obtain x where x: "heap w s = Some x"
    using assms(3) by auto
  show ?thesis
  proof (cases "closing x")
    case True
    then show ?thesis
      using assms x by (auto simp: PostRecv_def ok_def view_def)
  next
    case False
    then have ref: "0 < refCount x"
      using assms(1) x by (simp add: ok_def view_def)
    show ?thesis
    proof (cases "recv_ok os (calls w)")
      case True
      let ?w' = "w\<lparr>heap := (heap w)(s \<mapsto> x\<lparr>refCount := refCount x + 1\<rparr>), calls := calls w + 1,
          pending := pending w @ [(s, \<lparr>ioType = RECV, ioBuffer = None\<rparr>)]\<rparr>"
      have "PostRecv os od s w = Some ?w'"
        using x False True by (simp add: PostRecv_def AddRef_def on_session_def Let_def)
      moreover have "only s w ?w'"
        by (simp add: only_def view_def)
      moreover have "live ?w' = live w"
        using x by (simp add: live_def fun_eq_iff)
      moreover have "ok h f False (view s ?w')"
        using assms(1) x False by (simp add: ok_def view_def)
      ultimately show ?thesis
        using assms(2) by (intro exI [of _ ?w']) simp
    next
      case no: False
      let ?w1 = "w\<lparr>calls := calls w + 1\<rparr>"
      have "PostRecv os od s w = Close od s ?w1"
        using x False no ref heap_same [OF x]
        by (simp add: PostRecv_def AddRef_def Release_def on_session_def Let_def)
      moreover have "view t ?w1 = view t w" "live ?w1 = live w" for t
        by (simp_all add: view_def live_def fun_eq_iff)
      ultimately show ?thesis
        using Close_ok [of h s ?w1 f False] ok_closable [OF assms(1)] assms x
        by (auto simp: only_def)
    qed
  qed
qed

text \<open>The failing branch after a post: close, as the caller does when the post was refused.\<close>

lemma close_if_refused:
  assumes "PostSendFront_NoLock os s w1 = Some (b, w2)" and "only s w w1" and "live w1 = live w"
    and "app w1 = app w" and "ok h True r (view s w1)" and "live w s \<noteq> None"
    and "I (live w) (app w)"
  shows "\<exists>w'. (if b then Some w2 else Close od s w2) = Some w' \<and> only s w w' \<and> ok h False r (view s w')
    \<and> I (live w') (app w') \<and> (\<forall>t. t \<noteq> s \<longrightarrow> live w' t = live w t)
    \<and> (0 < h \<longrightarrow> heap w' s \<noteq> None)"
proof -
  obtain x where x: "heap w1 s = Some x" "\<not> closing x"
    using assms(3,6) by (auto simp: live_def split: option.splits if_splits dest: fun_cong [of _ _ s])
  have post: "only s w1 w2" "live w2 = live w1" "app w2 = app w1" "closable h (view s w2)"
      "heap w2 s \<noteq> None" "b \<Longrightarrow> ok h False r (view s w2)"
    using PostSendFront_ok [OF assms(5) x, of os] assms(1) by auto
  show ?thesis
  proof (cases b)
    case True
    then show ?thesis
      using post assms(2-4,7) only_trans by auto
  next
    case False
    have "I (live w2) (app w2)"
      using post(2,3) assms(3,4,7) by simp
    from Close_ok [OF post(4) this post(5), of False r] show ?thesis
      using False only_trans [OF assms(2) only_trans [OF post(1)]] post(2,3) assms(3,4) by auto
  qed
qed

lemma EnqueueSend_ok:
  assumes "ok h f r (view s w)" and "I (live w) (app w)" and "heap w s \<noteq> None"
  shows "\<exists>w'. EnqueueSend os od s buf w = Some w' \<and> only s w w' \<and> ok h f r (view s w')
    \<and> I (live w') (app w') \<and> (\<forall>t. t \<noteq> s \<longrightarrow> live w' t = live w t)
    \<and> (0 < h \<longrightarrow> heap w' s \<noteq> None)"
proof -
  obtain x where x: "heap w s = Some x"
    using assms(3) by auto
  show ?thesis
  proof (cases "buf = None \<or> writeSize (the buf) \<le> 0 \<or> closing x")
    case True
    then show ?thesis
      using assms x by (auto simp: EnqueueSend_def split: option.split)
  next
    case False
    then obtain sb where sb: "buf = Some sb" "\<not> writeSize sb \<le> 0" "\<not> closing x"
      by auto
    have lv: "live w s \<noteq> None"
      using x sb(3) by (simp add: live_def)
    show ?thesis
    proof (cases "MAX_SEND_QUEUE_SIZE \<le> length (sendQ x)")
      case True
      then have "EnqueueSend os od s buf w = Close od s w"
        using x sb by (simp add: EnqueueSend_def)
      then show ?thesis
        using Close_ok [OF ok_closable [OF assms(1)] assms(2,3), of f r] by auto
    next
      case room: False
      show ?thesis
      proof (cases "sending x")
        case True
        let ?w' = "w\<lparr>heap := (heap w)(s \<mapsto> x\<lparr>sendQ := sendQ x @ [sb]\<rparr>)\<rparr>"
        have "EnqueueSend os od s buf w = Some ?w'"
          using x sb room True by (simp add: EnqueueSend_def on_session_def)
        moreover have "ok h f r (view s ?w')"
          using assms(1) x room True sb(3) by (auto simp: ok_def view_def)
        moreover have "only s w ?w'" "live ?w' = live w"
          using x by (simp_all add: only_def view_def live_def fun_eq_iff)
        ultimately show ?thesis
          using assms(2) by auto
      next
        case False
        let ?w1 = "w\<lparr>heap := (heap w)(s \<mapsto> x\<lparr>sendQ := sendQ x @ [sb], sending := True\<rparr>)\<rparr>"
        have empty: "sendQ x = []" and f: "\<not> f"
          using assms(1) x False sb(3) by (auto simp: ok_def view_def)
        have o1: "only s w ?w1" and l1: "live ?w1 = live w" and ok1: "ok h True r (view s ?w1)"
          using assms(1) x sb(3) empty f by (simp_all add: only_def view_def live_def fun_eq_iff ok_def MAX_SEND_QUEUE_SIZE_def)
        have h1: "heap ?w1 s = Some (x\<lparr>sendQ := sendQ x @ [sb], sending := True\<rparr>)"
            "\<not> closing (x\<lparr>sendQ := sendQ x @ [sb], sending := True\<rparr>)"
          using sb(3) by simp_all
        obtain b w2 where b: "PostSendFront_NoLock os s ?w1 = Some (b, w2)"
          using PostSendFront_ok [OF ok1 h1] by blast
        have "EnqueueSend os od s buf w = (if b then Some w2 else Close od s w2)"
          using x sb room False b by (simp add: EnqueueSend_def on_session_def)
        with close_if_refused [OF b o1 l1 _ ok1 lv assms(2)] f show ?thesis
          by simp
      qed
    qed
  qed
qed

lemma OnSendComplete_ok:
  assumes "ok h True r (view s w)" and "I (live w) (app w)" and "heap w s \<noteq> None"
  shows "\<exists>w'. OnSendComplete os od s w = Some w' \<and> only s w w' \<and> ok h False r (view s w')
    \<and> I (live w') (app w') \<and> (\<forall>t. t \<noteq> s \<longrightarrow> live w' t = live w t)
    \<and> (0 < h \<longrightarrow> heap w' s \<noteq> None)"
proof -
  obtain x where x: "heap w s = Some x"
    using assms(3) by auto
  let ?q = "if sendQ x \<noteq> [] then tl (sendQ x) else []"
  show ?thesis
  proof (cases "closing x \<or> ?q = []")
    case True
    let ?w' = "w\<lparr>heap := (heap w)(s \<mapsto> x\<lparr>sendQ := ?q, sending := False\<rparr>)\<rparr>"
    have "OnSendComplete os od s w = Some ?w'"
      using x True by (auto simp: OnSendComplete_def on_session_def)
    moreover have "ok h False r (view s ?w')"
      using assms(1) x True by (auto simp: ok_def view_def)
    moreover have "only s w ?w'" "live ?w' = live w"
      using x by (simp_all add: only_def view_def live_def fun_eq_iff)
    ultimately show ?thesis
      using assms(2) by auto
  next
    case False
    let ?w1 = "w\<lparr>heap := (heap w)(s \<mapsto> x\<lparr>sendQ := ?q\<rparr>)\<rparr>"
    have lv: "live w s \<noteq> None"
      using x False by (simp add: live_def)
    have o1: "only s w ?w1" and l1: "live ?w1 = live w"
      using x by (simp_all add: only_def view_def live_def fun_eq_iff)
    have ok1: "ok h True r (view s ?w1)"
      using assms(1) x False by (auto simp: ok_def view_def)
    have h1: "heap ?w1 s = Some (x\<lparr>sendQ := ?q\<rparr>)" "\<not> closing (x\<lparr>sendQ := ?q\<rparr>)"
      using False by simp_all
    obtain b w2 where b: "PostSendFront_NoLock os s ?w1 = Some (b, w2)"
      using PostSendFront_ok [OF ok1 h1] by blast
    have "OnSendComplete os od s w = (if b then Some w2 else Close od s w2)"
      using x False b by (simp add: OnSendComplete_def on_session_def split: if_splits)
    with close_if_refused [OF b o1 l1 _ ok1 lv assms(2)] show ?thesis
      by simp
  qed
qed

end

text \<open>
  The contract of a packet handler: it touches no session but its own, does not close over the
  receive stream, and leaves a session that is well-formed.
\<close>

locale packet_handler = disconnect_callback od I
  for od :: "sref \<Rightarrow> ('x, 'm) net \<Rightarrow> ('x, 'm) net option"
    and I :: "(sref \<Rightarrow> 'x option) \<Rightarrow> 'm \<Rightarrow> bool" +
  fixes hp :: "sref \<Rightarrow> Packet \<Rightarrow> ('x, 'm) net \<Rightarrow> (bool \<times> ('x, 'm) net) option"
  assumes hp_ok: "ok h f True (view s w) \<Longrightarrow> 0 < h \<Longrightarrow> I (live w) (app w) \<Longrightarrow> heap w s = Some x \<Longrightarrow>
    \<not> closing x \<Longrightarrow> \<exists>b w'. hp s p w = Some (b, w') \<and> only s w w' \<and> ok h f True (view s w')
      \<and> I (live w') (app w') \<and> (\<forall>t. t \<noteq> s \<longrightarrow> live w' t = live w t)
      \<and> (\<forall>x'. heap w' s = Some x' \<and> \<not> closing x' \<longrightarrow> recvStream x' = recvStream x)"
begin

lemma recv_loop_ok:
  assumes "ok h f True (view s w)" and "0 < h" and "I (live w) (app w)"
    and "heap w s = Some x" and "\<not> closing x"
  shows "\<exists>w'. recv_loop os od hp s w = Some w' \<and> only s w w' \<and> ok h f False (view s w')
    \<and> I (live w') (app w') \<and> (\<forall>t. t \<noteq> s \<longrightarrow> live w' t = live w t)"
  using assms
proof (induction "length (recvStream x)" arbitrary: w x rule: less_induct)
  case less
  obtain result stream pkt where get: "TryGetPacket (recvStream x) Packet_new = (result, stream, pkt)"
    by (cases "TryGetPacket (recvStream x) Packet_new") auto
  define w1 where "w1 = w\<lparr>heap := (heap w)(s \<mapsto> x\<lparr>recvStream := stream\<rparr>)\<rparr>"
  have w1: "only s w w1" "live w1 = live w" "app w1 = app w" "ok h f True (view s w1)"
      "heap w1 s = Some (x\<lparr>recvStream := stream\<rparr>)"
    using less.prems by (simp_all add: w1_def only_def view_def live_def fun_eq_iff ok_def)
  have loop: "recv_loop os od hp s w = (if result = Incomplete then PostRecv os od s w1
      else if result \<noteq> Success then Close od s w1
      else do { (handled, w) \<leftarrow> hp s pkt w1; if \<not> handled then Close od s w
             else do { x \<leftarrow> heap w s; if closing x then Some w else recv_loop os od hp s w } })"
    using less.prems get by (subst recv_loop.simps) (simp add: on_session_def w1_def)
  have live1: "heap w1 s \<noteq> None" and I1: "I (live w1) (app w1)"
    using w1 less.prems by simp_all
  show ?case
  proof (cases "result = Success")
    case False
    show ?thesis
      using PostRecv_ok [OF w1(4) I1 live1, of os] Close_ok [OF ok_closable [OF w1(4)] I1 live1, of f False]
        only_trans [OF w1(1)] w1(2) False
      by (cases "result = Incomplete") (fastforce simp: loop)+
  next
    case True
    obtain b w2 where hp: "hp s pkt w1 = Some (b, w2)" and o2: "only s w1 w2" and ok2: "ok h f True (view s w2)"
        and I2: "I (live w2) (app w2)" and l2: "\<forall>t. t \<noteq> s \<longrightarrow> live w2 t = live w1 t"
        and stream: "\<forall>x'. heap w2 s = Some x' \<and> \<not> closing x' \<longrightarrow> recvStream x' = stream"
      using hp_ok [OF w1(4) less.prems(2) I1 w1(5), of pkt] less.prems(5) by auto
    obtain x2 where x2: "heap w2 s = Some x2"
      using ok2 less.prems(2) by (cases "heap w2 s") (auto simp: ok_def view_def)
    have live2: "heap w2 s \<noteq> None"
      using x2 by simp
    show ?thesis
    proof (cases "b \<and> \<not> closing x2")
      case False
      then consider "\<not> b" | "b" "closing x2" by auto
      then show ?thesis
      proof cases
        case 1
        then show ?thesis
          using Close_ok [OF ok_closable [OF ok2] I2 live2, of f False] hp True l2 w1(2)
            only_trans [OF only_trans [OF w1(1) o2]] by (auto simp: loop)
      next
        case 2
        have "ok h f False (view s w2)"
          using ok2 x2 2(2) by (simp add: ok_def view_def)
        then show ?thesis
          using hp True 2 x2 I2 l2 w1(2) only_trans [OF w1(1) o2] by (auto simp: loop)
      qed
    next
      case go: True
      then have "recvStream x2 = stream"
        using stream x2 by simp
      then have "length (recvStream x2) < length (recvStream x)"
        using TryGetPacket_progress [of "recvStream x" Packet_new stream pkt] get True by simp
      from less.hyps [OF this ok2 less.prems(2) I2 x2] go
      obtain w' where "recv_loop os od hp s w2 = Some w'" "only s w2 w'" "ok h f False (view s w')"
        "I (live w') (app w')" "\<forall>t. t \<noteq> s \<longrightarrow> live w' t = live w2 t"
        by auto
      then show ?thesis
        using hp True go x2 l2 w1(2) only_trans [OF only_trans [OF w1(1) o2]] by (auto simp: loop)
    qed
  qed
qed

lemma OnRecvComplete_ok:
  assumes "ok h f True (view s w)" and "0 < h" and "I (live w) (app w)" and "heap w s \<noteq> None"
  shows "\<exists>w'. OnRecvComplete os od hp s data w = Some w' \<and> only s w w' \<and> ok h f False (view s w')
    \<and> I (live w') (app w') \<and> (\<forall>t. t \<noteq> s \<longrightarrow> live w' t = live w t)"
proof -
  obtain x where x: "heap w s = Some x"
    using assms(4) by auto
  show ?thesis
  proof (cases "closing x")
    case True
    then show ?thesis
      using assms x by (auto simp: OnRecvComplete_def ok_def view_def)
  next
    case False
    let ?x1 = "x\<lparr>recvStream := recvStream x @ data\<rparr>"
    let ?w1 = "w\<lparr>heap := (heap w)(s \<mapsto> ?x1)\<rparr>"
    have o1: "only s w ?w1" and l1: "live ?w1 = live w" and ok1: "ok h f True (view s ?w1)"
      using x assms(1) False by (simp_all add: only_def view_def live_def fun_eq_iff ok_def)
    have "OnRecvComplete os od hp s data w = recv_loop os od hp s ?w1"
      using x False by (simp add: OnRecvComplete_def on_session_def)
    then show ?thesis
      using recv_loop_ok [OF ok1 assms(2), of ?x1 os] assms(3) l1 False only_trans [OF o1] by auto
  qed
qed

end

text \<open>
  A session can close between the arrival of a packet and the call of its handler, which then runs
  on a session that is closing; \<open>A\<close> is what it relies on.
\<close>

locale late_handler = packet_handler od I hp
  for od :: "sref \<Rightarrow> ('x, 'm) net \<Rightarrow> ('x, 'm) net option"
    and I :: "(sref \<Rightarrow> 'x option) \<Rightarrow> 'm \<Rightarrow> bool"
    and hp :: "sref \<Rightarrow> Packet \<Rightarrow> ('x, 'm) net \<Rightarrow> (bool \<times> ('x, 'm) net) option" +
  fixes A :: "('x, 'm) net \<Rightarrow> bool"
  assumes hp_late: "ok h f r (view s w) \<Longrightarrow> 0 < h \<Longrightarrow> I (live w) (app w) \<Longrightarrow> A w \<Longrightarrow> heap w s = Some x \<Longrightarrow>
    closing x \<Longrightarrow> \<exists>b w'. hp s p w = Some (b, w') \<and> only s w w' \<and> ok h f r (view s w') \<and> I (live w') (app w')"

subsection \<open>The send queue refines a list of accepted buffers\<close>

text \<open>The buffers handed to the kernel for a session, in order.\<close>

fun sent_to :: "sref \<Rightarrow> event list \<Rightarrow> SendBuffer list" where
  "sent_to s [] = []"
| "sent_to s (Sent t b # es) = (if t = s then b # sent_to s es else sent_to s es)"
| "sent_to s (e # es) = sent_to s es"

lemma sent_to_append [simp]: "sent_to s (es @ es') = sent_to s es @ sent_to s es'"
  by (induction s es rule: sent_to.induct) simp_all

text \<open>The abstract queue: what was handed over, then what waits behind the send under way.\<close>

definition accepted :: "sref \<Rightarrow> ('x, 'm) net \<Rightarrow> SendBuffer list" where
  "accepted s w = sent_to s (events w) @ (case heap w s of None \<Rightarrow> []
     | Some x \<Rightarrow> if sending x then tl (sendQ x) else sendQ x)"

lemma Close_closes:
  assumes "Close od s w = Some w'" and "heap w s = Some x" and "\<And>s w w'. od s w = Some w' \<Longrightarrow> map_option closing (heap w' s) = map_option closing (heap w s)"
  shows "case heap w' s of None \<Rightarrow> True | Some x' \<Rightarrow> closing x'"
proof (cases "closing x")
  case False
  obtain w2 where od: "od s (emit (Disconnected s) (RemoveSession s (w\<lparr>heap := (heap w)(s \<mapsto> closed_session x)\<rparr>))) = Some w2"
    and r: "Release s w2 = Some w'"
    using assms(1,2) False by (auto simp: Close_def on_session_def NotifyDisconnected_def)
  have "map_option closing (heap w2 s) = Some True"
    using assms(3) [OF od] by (simp add: emit_def RemoveSession_def closed_session_def)
  then show ?thesis
    using r by (auto simp: Release_def on_session_def emit_def split: if_splits)
qed (use assms in \<open>simp add: Close_def\<close>)

lemma PostSendFront_accepted:
  assumes "PostSendFront_NoLock os s w = Some (True, w')" and "heap w s = Some x" and "sendQ x \<noteq> []"
    and "\<not> closing x" and "sending x" and "0 < refCount x"
  shows "sent_to s (events w') = sent_to s (events w) @ [hd (sendQ x)]"
    and "\<exists>x'. heap w' s = Some x' \<and> sendQ x' = sendQ x \<and> sending x'"
  using assms
  by (auto simp: PostSendFront_NoLock_def AddRef_def on_session_def Let_def emit_def neq_Nil_conv Release_def
      split: if_splits)

lemma EnqueueSend_accepted:
  assumes "EnqueueSend os od s (Some sb) w = Some w'" and "ok h f r (view s w)"
    and "live w s \<noteq> None" and "0 < writeSize sb" and "live w' s \<noteq> None"
    and "\<And>s w w'. od s w = Some w' \<Longrightarrow> map_option closing (heap w' s) = map_option closing (heap w s)"
  shows "accepted s w' = accepted s w @ [sb]"
proof -
  obtain x where x: "heap w s = Some x" "\<not> closing x"
    using assms(3) by (auto simp: live_def split: option.splits if_splits)
  have ok: "sending x \<longleftrightarrow> sendQ x \<noteq> []" "0 < refCount x"
    using assms(2) x by (simp_all add: ok_def view_def)
  have not_close: "Close od s w1 \<noteq> Some w'" if "heap w1 s = Some x1" for w1 x1
  proof
    assume "Close od s w1 = Some w'"
    from Close_closes [OF this that assms(6)] assms(5) show False
      by (auto simp: live_def split: option.splits)
  qed
  show ?thesis
  proof (cases "sending x")
    case True
    then have "w' = w\<lparr>heap := (heap w)(s \<mapsto> x\<lparr>sendQ := sendQ x @ [sb]\<rparr>)\<rparr>"
      using assms(1,4) x not_close [OF x(1)]
      by (auto simp: EnqueueSend_def on_session_def split: if_splits)
    then show ?thesis
      using x True ok by (simp add: accepted_def)
  next
    case False
    let ?x1 = "x\<lparr>sendQ := [sb], sending := True\<rparr>"
    let ?w1 = "w\<lparr>heap := (heap w)(s \<mapsto> ?x1)\<rparr>"
    have "0 < MAX_SEND_QUEUE_SIZE"
      by (simp add: MAX_SEND_QUEUE_SIZE_def)
    then obtain b w2 where b: "PostSendFront_NoLock os s ?w1 = Some (b, w2)"
      "(if b then Some w2 else Close od s w2) = Some w'"
      using assms(1,4) x False ok by (auto simp: EnqueueSend_def on_session_def split: if_splits)
    have "\<not> f"
      using assms(2) x False ok by (auto simp: ok_def view_def)
    then have ok1: "ok h True r (view s ?w1)"
      using assms(2) x False ok by (auto simp: ok_def view_def MAX_SEND_QUEUE_SIZE_def)
    have h1: "heap ?w1 s = Some ?x1" "\<not> closing ?x1"
      using x by simp_all
    have "heap w2 s \<noteq> None"
      using PostSendFront_ok [OF ok1 h1, of os] b(1) by auto
    then have b': "b" "w2 = w'"
      using b(2) not_close by (auto split: if_splits)
    then show ?thesis
      using PostSendFront_accepted [of os s ?w1 w' ?x1] b(1) x ok False by (auto simp: accepted_def)
  qed
qed

lemma OnSendComplete_accepted:
  assumes "OnSendComplete os od s w = Some w'" and "ok h True r (view s w)"
    and "live w s \<noteq> None" and "live w' s \<noteq> None"
    and "\<And>s w w'. od s w = Some w' \<Longrightarrow> map_option closing (heap w' s) = map_option closing (heap w s)"
  shows "accepted s w' = accepted s w"
proof -
  obtain x where x: "heap w s = Some x" "\<not> closing x"
    using assms(3) by (auto simp: live_def split: option.splits if_splits)
  have ok: "sending x" "sendQ x \<noteq> []" "0 < refCount x"
    using assms(2) x by (simp_all add: ok_def view_def)
  have not_close: "Close od s w1 \<noteq> Some w'" if "heap w1 s = Some x1" for w1 x1
  proof
    assume "Close od s w1 = Some w'"
    from Close_closes [OF this that assms(5)] assms(4) show False
      by (auto simp: live_def split: option.splits)
  qed
  show ?thesis
  proof (cases "tl (sendQ x) = []")
    case True
    then have "w' = w\<lparr>heap := (heap w)(s \<mapsto> x\<lparr>sendQ := [], sending := False\<rparr>)\<rparr>"
      using assms(1) x ok by (auto simp: OnSendComplete_def on_session_def split: if_splits)
    then show ?thesis
      using x ok True by (simp add: accepted_def)
  next
    case False
    let ?x1 = "x\<lparr>sendQ := tl (sendQ x)\<rparr>"
    let ?w1 = "w\<lparr>heap := (heap w)(s \<mapsto> ?x1)\<rparr>"
    obtain b w2 where b: "PostSendFront_NoLock os s ?w1 = Some (b, w2)"
      "(if b then Some w2 else Close od s w2) = Some w'"
      using assms(1) x False ok by (auto simp: OnSendComplete_def on_session_def split: if_splits)
    have ok1: "ok h True r (view s ?w1)"
      using assms(2) x False by (auto simp: ok_def view_def)
    have h1: "heap ?w1 s = Some ?x1" "\<not> closing ?x1"
      using x by simp_all
    have "heap w2 s \<noteq> None"
      using PostSendFront_ok [OF ok1 h1, of os] b(1) by auto
    then have b': "b" "w2 = w'"
      using b(2) not_close by (auto split: if_splits)
    then show ?thesis
      using PostSendFront_accepted [of os s ?w1 w' ?x1] b(1) x ok False
      by (auto simp: accepted_def)
  qed
qed

end
