(* ===== verification/NetService.thy ===== *)
theory NetService
  imports SessionInv
begin

text \<open>
  \<open>ServerCore/NetService.h\<close> and \<open>NetService.cpp\<close>: starting and stopping, accepting and
  connecting, the set of open sessions, and the worker loop on the completion port. The set is a
  list without duplicates in the order of insertion, one of the orders an \<open>unordered_set\<close> may
  have. \<open>a\<close> is the address the allocator returns for a new session.
\<close>

subsection \<open>Starting\<close>

text \<open>The threads started so far stay when one fails.\<close>

fun start_workers :: "os_api \<Rightarrow> nat \<Rightarrow> nat \<Rightarrow> bool \<times> nat" where
  "start_workers os i 0 = (True, i)"
| "start_workers os i (Suc n) = (if \<not> thread_ok os i then (False, i) else start_workers os (Suc i) n)"

definition InitIocpAndWorkers :: "os_api \<Rightarrow> nat \<Rightarrow> ('x, 'm) net \<Rightarrow> bool \<times> ('x, 'm) net" where
  "InitIocpAndWorkers os workerCount w =
     (if \<not> iocp_ok os then (False, w\<lparr>iocp_open := False\<rparr>)
      else case start_workers os 0 workerCount of
        (started, n) \<Rightarrow> (started, w\<lparr>iocp_open := True, workers := workers w + n\<rparr>))"

definition StartServer :: "os_api \<Rightarrow> nat \<Rightarrow> ('x, 'm) net \<Rightarrow> bool \<times> ('x, 'm) net" where
  "StartServer os workerCount w =
     (if running w then (False, w)
      else
        let w = w\<lparr>running := True, mode := Mode_Server\<rparr> in
        if \<not> socket_ok os then (False, w\<lparr>listening := False\<rparr>)
        else
          let w = w\<lparr>listening := True\<rparr> in
          if \<not> bind_ok os then (False, w)
          else if \<not> listen_ok os then (False, w)
          else InitIocpAndWorkers os workerCount w)"

definition StartClient :: "os_api \<Rightarrow> nat \<Rightarrow> ('x, 'm) net \<Rightarrow> bool \<times> ('x, 'm) net" where
  "StartClient os workerCount w =
     (if running w then (False, w)
      else InitIocpAndWorkers os workerCount (w\<lparr>running := True, mode := Mode_Client\<rparr>))"

subsection \<open>Sessions\<close>

definition AddSession :: "sref \<Rightarrow> ('x, 'm) net \<Rightarrow> ('x, 'm) net" where
  "AddSession s w = w\<lparr>sessions := (if s \<in> set (sessions w) then sessions w else sessions w @ [s])\<rparr>"

text \<open>\<open>x\<close> is what the session factory puts into the derived class's fields.\<close>

definition CreateAndRegisterSession ::
  "os_api \<Rightarrow> (sref \<Rightarrow> ('x, 'm) net \<Rightarrow> ('x, 'm) net option)
    \<Rightarrow> (sref \<Rightarrow> ('x, 'm) net \<Rightarrow> ('x, 'm) net option)
    \<Rightarrow> 'x \<Rightarrow> sref \<Rightarrow> ('x, 'm) net \<Rightarrow> (bool \<times> ('x, 'm) net) option" where
  "CreateAndRegisterSession os oc od x a w = do {
     let w = w\<lparr>heap := (heap w)(a \<mapsto> Session_new x)\<rparr>;
     let associated = assoc_ok os (calls w);
     let w = w\<lparr>calls := calls w + 1\<rparr>;
     if \<not> associated then Some (False, w\<lparr>heap := (heap w)(a := None)\<rparr>)
     else do {
       w \<leftarrow> Start os oc od a (AddSession a w);
       Some (True, w)
     }
   }"

definition Connect ::
  "os_api \<Rightarrow> (sref \<Rightarrow> ('x, 'm) net \<Rightarrow> ('x, 'm) net option)
    \<Rightarrow> (sref \<Rightarrow> ('x, 'm) net \<Rightarrow> ('x, 'm) net option)
    \<Rightarrow> 'x \<Rightarrow> sref \<Rightarrow> ('x, 'm) net \<Rightarrow> (bool \<times> ('x, 'm) net) option" where
  "Connect os oc od x a w =
     (if mode w \<noteq> Mode_Client \<or> \<not> running w then Some (False, w)
      else if \<not> socket_ok os then Some (False, w)
      else if \<not> connect_ok os then Some (False, w)
      else CreateAndRegisterSession os oc od x a w)"

text \<open>One round of \<open>RunAcceptLoop\<close>: \<open>client\<close> is the address for the accepted client, if any.\<close>

definition accept_round ::
  "os_api \<Rightarrow> (sref \<Rightarrow> ('x, 'm) net \<Rightarrow> ('x, 'm) net option)
    \<Rightarrow> (sref \<Rightarrow> ('x, 'm) net \<Rightarrow> ('x, 'm) net option)
    \<Rightarrow> 'x \<Rightarrow> sref option \<Rightarrow> ('x, 'm) net \<Rightarrow> ('x, 'm) net option" where
  "accept_round os oc od x client w =
     (if mode w \<noteq> Mode_Server \<or> \<not> running w then Some w
      else case client of None \<Rightarrow> Some w
        | Some a \<Rightarrow> map_option snd (CreateAndRegisterSession os oc od x a w))"

text \<open>The body of the loops over a snapshot of the sessions: those not closing.\<close>

definition ForEachSession ::
  "(sref \<Rightarrow> ('x, 'm) net \<Rightarrow> ('x, 'm) net option)
    \<Rightarrow> ('x, 'm) net \<Rightarrow> ('x, 'm) net option" where
  "ForEachSession fn w =
     for_each (\<lambda>s w. do { c \<leftarrow> IsClosing s w; if \<not> c then fn s w else Some w }) (sessions w) w"

definition Broadcast ::
  "os_api \<Rightarrow> (sref \<Rightarrow> ('x, 'm) net \<Rightarrow> ('x, 'm) net option)
    \<Rightarrow> SendBufferRef \<Rightarrow> ('x, 'm) net \<Rightarrow> ('x, 'm) net option" where
  "Broadcast os od sendBuffer w =
     (case sendBuffer of None \<Rightarrow> Some w
      | Some _ \<Rightarrow> for_each (\<lambda>s w. do {
           c \<leftarrow> IsClosing s w;
           if \<not> c then EnqueueSend os od s sendBuffer w else Some w }) (sessions w) w)"

definition Broadcast_packet ::
  "os_api \<Rightarrow> (sref \<Rightarrow> ('x, 'm) net \<Rightarrow> ('x, 'm) net option)
    \<Rightarrow> byte list \<Rightarrow> ('x, 'm) net \<Rightarrow> ('x, 'm) net option" where
  "Broadcast_packet os od packet w = do {
     sendBuffer \<leftarrow> MakeSendBuffer packet;
     Broadcast os od sendBuffer w
   }"

definition Stop ::
  "(sref \<Rightarrow> ('x, 'm) net \<Rightarrow> ('x, 'm) net option)
    \<Rightarrow> ('x, 'm) net \<Rightarrow> ('x, 'm) net option" where
  "Stop od w =
     (if \<not> running w then Some w
      else do {
        let w = w\<lparr>running := False, listening := False\<rparr>;
        w \<leftarrow> for_each (Close od) (sessions w) w;
        Some (if iocp_open w then w\<lparr>workers := 0, iocp_open := False\<rparr> else w)
      })"

subsection \<open>The worker loop\<close>

text \<open>
  One round of \<open>WorkerLoop\<close> for the \<open>i\<close>-th outstanding operation: whether it succeeded, and the
  bytes transferred (the received bytes, for a receive).
\<close>

definition worker_round ::
  "os_api \<Rightarrow> (sref \<Rightarrow> ('x, 'm) net \<Rightarrow> ('x, 'm) net option)
    \<Rightarrow> (sref \<Rightarrow> Packet \<Rightarrow> ('x, 'm) net \<Rightarrow> (bool \<times> ('x, 'm) net) option)
    \<Rightarrow> nat \<Rightarrow> bool \<Rightarrow> byte list \<Rightarrow> ('x, 'm) net \<Rightarrow> ('x, 'm) net option" where
  "worker_round os od hp i success bytes w =
     (case pending w ! i of (s, c) \<Rightarrow> do {
        let w = w\<lparr>pending := take i (pending w) @ drop (Suc i) (pending w)\<rparr>;
        if \<not> success \<or> bytes = [] then do {
          w \<leftarrow> Close od s w;
          Release s w
        }
        else do {
          w \<leftarrow> (if ioType c = RECV then OnRecvComplete os od hp s bytes w else OnSendComplete os od s w);
          Release s w
        }
      })"

subsection \<open>The invariant of the service\<close>

text \<open>Between steps no reference is in flight and every open session has its receive outstanding.\<close>

definition net_ok :: "('x, 'm) net \<Rightarrow> bool" where
  "net_ok w \<longleftrightarrow> (\<forall>s. ok 0 False False (view s w)) \<and> distinct (sessions w)"

text \<open>
  The same while threads are at work: \<open>H s\<close> says how many references they hold to \<open>s\<close>, whether one
  of them is completing a send of \<open>s\<close>, and whether one has yet to post the next receive.
\<close>

type_synonym holding = "nat \<times> bool \<times> bool"

fun ok_holding :: "holding \<Rightarrow> 'x view \<Rightarrow> bool" where
  "ok_holding (h, f, r) v = ok h f r v"

definition idle :: holding where "idle = (0, False, False)"

definition held_ok :: "(sref \<Rightarrow> holding) \<Rightarrow> ('x, 'm) net \<Rightarrow> bool" where
  "held_ok H w \<longleftrightarrow> (\<forall>s. ok_holding (H s) (view s w)) \<and> distinct (sessions w)"

lemma net_ok_held: "net_ok w \<longleftrightarrow> held_ok (\<lambda>_. idle) w"
  by (simp add: net_ok_def held_ok_def idle_def)

lemma held_ok_view: "held_ok H w \<Longrightarrow> ok_holding (H s) (view s w)"
  by (simp add: held_ok_def)

lemma held_ok_only:
  assumes "held_ok H w" and "only s w w'" and "ok_holding (H' s) (view s w')" and "\<And>t. t \<noteq> s \<Longrightarrow> H' t = H t"
  shows "held_ok H' w'"
  using assms unfolding held_ok_def only_def by metis

lemma net_ok_only: "net_ok w \<Longrightarrow> only s w w' \<Longrightarrow> ok 0 False False (view s w') \<Longrightarrow> net_ok w'"
  unfolding net_ok_held by (erule held_ok_only) (simp_all add: idle_def)

lemma net_ok_view: "net_ok w \<Longrightarrow> ok 0 False False (view s w)"
  by (simp add: net_ok_def)

lemma net_ok_session: "net_ok w \<Longrightarrow> s \<in> set (sessions w) \<longleftrightarrow> live w s \<noteq> None"
  using net_ok_view [of w s] by (auto simp: ok_def view_def live_def split: option.splits)

lemma Release_ok:
  assumes "ok (Suc h) f r (view s w)"
  shows "\<exists>w'. Release s w = Some w' \<and> only s w w' \<and> ok h f r (view s w') \<and> live w' = live w
    \<and> app w' = app w"
proof -
  obtain x where x: "heap w s = Some x"
    using assms by (cases "heap w s") (auto simp: ok_def view_def)
  show ?thesis
  proof (cases "refCount x = 1")
    case True
    have ref: "(if closing x then 0 else 1) + int (length (filter (\<lambda>p. fst p = s) (pending w))) + int h = 0"
      using assms x True by (simp add: ok_def view_def split: if_splits)
    have cl: "closing x" "length (filter (\<lambda>p. fst p = s) (pending w)) = 0" "h = 0"
    proof -
      show "closing x"
      proof (rule ccontr)
        assume "\<not> closing x"
        with ref show False by simp
      qed
      with ref have "int (length (filter (\<lambda>p. fst p = s) (pending w))) + int h = 0"
        by simp
      then show "length (filter (\<lambda>p. fst p = s) (pending w)) = 0" and "h = 0"
        by linarith+
    qed
    let ?w' = "emit (Deleted s) (w\<lparr>heap := (heap w)(s := None)\<rparr>)"
    have "Release s w = Some ?w'"
      using x True by (simp add: Release_def)
    moreover have "only s w ?w'"
      by (simp add: only_def view_def emit_def)
    moreover have "ok h f r (view s ?w')"
      using assms x cl by (simp add: ok_def view_def emit_def)
    moreover have "live ?w' = live w"
      using x cl by (simp add: live_def emit_def fun_eq_iff)
    ultimately show ?thesis
      by (intro exI [of _ ?w']) (simp add: emit_def)
  next
    case False
    let ?w' = "w\<lparr>heap := (heap w)(s \<mapsto> x\<lparr>refCount := refCount x - 1\<rparr>)\<rparr>"
    have "Release s w = Some ?w'"
      using x False by (simp add: Release_def on_session_def)
    moreover have "only s w ?w'"
      by (simp add: only_def view_def)
    moreover have "ok h f r (view s ?w')"
      using assms x False by (auto simp: ok_def view_def)
    moreover have "live ?w' = live w"
      using x by (simp add: live_def fun_eq_iff)
    ultimately show ?thesis
      by (intro exI [of _ ?w']) simp
  qed
qed

text \<open>Taking a completed operation off the port turns its reference into one held by the worker.\<close>

lemma take_operation:
  assumes "ok h f r (view s w)" and "i < length (pending w)" and "pending w ! i = (s, c)"
  defines "w1 \<equiv> w\<lparr>pending := take i (pending w) @ drop (Suc i) (pending w)\<rparr>"
  shows "only s w w1" and "ok (Suc h) (f \<or> ioType c = SEND) (r \<or> ioType c = RECV) (view s w1)"
    and "heap w1 s \<noteq> None" and "live w1 = live w" and "app w1 = app w"
proof -
  have split: "pending w = take i (pending w) @ (s, c) # drop (Suc i) (pending w)"
    using assms(2,3) by (metis id_take_nth_drop)
  define xs where "xs = take i (pending w)"
  define ys where "ys = drop (Suc i) (pending w)"
  have p: "pending w = xs @ (s, c) # ys" and w1: "w1 = w\<lparr>pending := xs @ ys\<rparr>"
    using split by (simp_all add: xs_def ys_def w1_def)
  show "only s w w1"
    by (simp add: only_def w1 view_def p)
  note ok0 = assms(1)
  show "heap w1 s \<noteq> None"
  proof
    assume "heap w1 s = None"
    with ok0 show False
      by (simp add: w1 ok_def view_def p)
  qed
  then obtain x where x: "heap w s = Some x"
    by (auto simp: w1)
  have both: "sends (as @ bs) = [] \<longleftrightarrow> sends as = [] \<and> sends bs = []" for as bs
    by simp
  show "ok (Suc h) (f \<or> ioType c = SEND) (r \<or> ioType c = RECV) (view s w1)"
    using ok0 x by (cases "ioType c") (auto simp: ok_def view_def w1 p append_eq_Cons_conv split: if_splits)
  show "live w1 = live w" and "app w1 = app w"
    by (simp_all add: w1 live_def fun_eq_iff)
qed

lemma take_completion:
  assumes "net_ok w" and "i < length (pending w)" and "pending w ! i = (s, c)"
  defines "w1 \<equiv> w\<lparr>pending := take i (pending w) @ drop (Suc i) (pending w)\<rparr>"
  shows "only s w w1" and "ok 1 (ioType c = SEND) (ioType c = RECV) (view s w1)"
    and "heap w1 s \<noteq> None" and "live w1 = live w" and "app w1 = app w"
  using take_operation [OF net_ok_view [OF assms(1)] assms(2,3)] by (simp_all add: w1_def)

context packet_handler begin

lemma worker_round_ok:
  assumes "net_ok w" and "I (live w) (app w)" and "i < length (pending w)"
  shows "\<exists>w'. worker_round os od hp i success bytes w = Some w' \<and> net_ok w' \<and> I (live w') (app w')"
proof -
  obtain s c where sc: "pending w ! i = (s, c)"
    by fastforce
  define w1 where "w1 = w\<lparr>pending := take i (pending w) @ drop (Suc i) (pending w)\<rparr>"
  note t = take_completion [OF assms(1,3) sc, folded w1_def]
  have I1: "I (live w1) (app w1)"
    using t(4,5) assms(2) by simp
  obtain w2 where body: "(if \<not> success \<or> bytes = [] then Close od s w1
      else if ioType c = RECV then OnRecvComplete os od hp s bytes w1 else OnSendComplete os od s w1) = Some w2"
    and o2: "only s w1 w2" and ok2: "ok 1 False False (view s w2)" and I2: "I (live w2) (app w2)"
  proof (cases "\<not> success \<or> bytes = []")
    case True
    from Close_ok [OF ok_closable [OF t(2)] I1 t(3), of False False] that show ?thesis
      using True by auto
  next
    case False
    show ?thesis
    proof (cases "ioType c")
      case RECV
      have "ok 1 False True (view s w1)"
        using t(2) RECV by simp
      from OnRecvComplete_ok [OF this _ I1 t(3), of os bytes] that show ?thesis
        using False RECV by auto
    next
      case SEND
      have "ok 1 True False (view s w1)"
        using t(2) SEND by simp
      from OnSendComplete_ok [OF this I1 t(3), of os] that show ?thesis
        using False SEND by auto
    qed
  qed
  have "ok (Suc 0) False False (view s w2)"
    using ok2 by simp
  from Release_ok [OF this] obtain w3 where r: "Release s w2 = Some w3" "only s w2 w3" "ok 0 False False (view s w3)"
      "live w3 = live w2" "app w3 = app w2"
    by blast
  have "worker_round os od hp i success bytes w = Some w3"
    using body r(1) by (cases "\<not> success \<or> bytes = []"; cases "ioType c")
      (simp_all add: worker_round_def sc w1_def [symmetric] Let_def)
  moreover have "net_ok w3"
    using net_ok_only [OF assms(1) only_trans [OF t(1) only_trans [OF o2 r(2)]] r(3)] .
  ultimately show ?thesis
    using I2 r(4,5) by auto
qed

end

context disconnect_callback begin

lemma EnqueueSend_held:
  assumes "held_ok H w" and "I (live w) (app w)" and "heap w s \<noteq> None"
  shows "\<exists>w'. EnqueueSend os od s buf w = Some w' \<and> held_ok H w' \<and> I (live w') (app w')
    \<and> (\<forall>t. t \<noteq> s \<longrightarrow> view t w' = view t w)"
proof -
  obtain h f r where H: "H s = (h, f, r)"
    by (cases "H s")
  have "ok h f r (view s w)"
    using held_ok_view [OF assms(1), of s] H by simp
  from EnqueueSend_ok [OF this assms(2,3), of os buf] held_ok_only [OF assms(1), of s _ H] H show ?thesis
    by (auto simp: only_def)
qed

lemmas EnqueueSend_net_ok = EnqueueSend_held [of "\<lambda>_. idle", folded net_ok_held]

text \<open>A loop over distinct sessions whose body touches only the session at hand.\<close>

lemma for_each_session:
  assumes "net_ok w" and "I (live w) (app w)" and "distinct ss" and "\<forall>s\<in>set ss. heap w s \<noteq> None"
    and "\<And>s w. s \<in> set ss \<Longrightarrow> net_ok w \<Longrightarrow> I (live w) (app w) \<Longrightarrow> heap w s \<noteq> None \<Longrightarrow>
      \<exists>w'. f s w = Some w' \<and> net_ok w' \<and> I (live w') (app w') \<and> (\<forall>t. t \<noteq> s \<longrightarrow> view t w' = view t w)"
  shows "\<exists>w'. for_each f ss w = Some w' \<and> net_ok w' \<and> I (live w') (app w')"
  using assms
proof (induction ss arbitrary: w)
  case (Cons s ss)
  obtain w1 where w1: "f s w = Some w1" "net_ok w1" "I (live w1) (app w1)"
    "\<forall>t. t \<noteq> s \<longrightarrow> view t w1 = view t w"
    using Cons.prems(5) [of s w] Cons.prems(1,2,4) by auto
  have "\<forall>t\<in>set ss. heap w1 t \<noteq> None"
    using w1(4) Cons.prems(3,4) by (auto simp: view_def)
  then show ?case
    using Cons.IH [OF w1(2,3)] Cons.prems(3,5) w1(1) by auto
qed simp

lemma live_heap: "net_ok w \<Longrightarrow> \<forall>s\<in>set (sessions w). heap w s \<noteq> None"
  using net_ok_session [of w] by (auto simp: live_def split: option.splits)

lemma Broadcast_ok:
  assumes "net_ok w" and "I (live w) (app w)"
  shows "\<exists>w'. Broadcast os od buf w = Some w' \<and> net_ok w' \<and> I (live w') (app w')"
proof (cases buf)
  case (Some sb)
  have "\<exists>w'. for_each (\<lambda>s w. do {
           c \<leftarrow> IsClosing s w;
           if \<not> c then EnqueueSend os od s buf w else Some w }) (sessions w) w = Some w'
         \<and> net_ok w' \<and> I (live w') (app w')"
  proof (rule for_each_session)
    fix s v
    assume v: "net_ok v" "I (live v) (app v)" "heap v s \<noteq> None"
    from EnqueueSend_net_ok [OF this, of os buf] v
    show "\<exists>w'. (do { c \<leftarrow> IsClosing s v; if \<not> c then EnqueueSend os od s buf v else Some v }) = Some w'
        \<and> net_ok w' \<and> I (live w') (app w') \<and> (\<forall>t. t \<noteq> s \<longrightarrow> view t w' = view t v)"
      by (auto simp: IsClosing_def)
  qed (use assms live_heap in \<open>auto simp: net_ok_def\<close>)
  then show ?thesis
    unfolding Broadcast_def Some option.case .
qed (use assms in \<open>simp add: Broadcast_def\<close>)

lemma Stop_ok:
  assumes "net_ok w" and "I (live w) (app w)"
  shows "\<exists>w'. Stop od w = Some w' \<and> net_ok w' \<and> I (live w') (app w')"
proof (cases "running w")
  case True
  define w1 where "w1 = w\<lparr>running := False, listening := False\<rparr>"
  have v1: "view t w1 = view t w" "live w1 = live w" "app w1 = app w" "sessions w1 = sessions w" for t
    by (simp_all add: w1_def view_def live_def fun_eq_iff)
  have ok1: "net_ok w1"
    using assms(1) v1 by (simp add: net_ok_def)
  have "\<exists>w'. for_each (Close od) (sessions w1) w1 = Some w' \<and> net_ok w' \<and> I (live w') (app w')"
  proof (rule for_each_session)
    fix s v
    assume v: "net_ok v" "I (live v) (app v)" "heap v s \<noteq> None"
    from Close_ok [OF ok_closable [OF net_ok_view [OF v(1)]] v(2,3), of False False]
    show "\<exists>w'. Close od s v = Some w' \<and> net_ok w' \<and> I (live w') (app w') \<and> (\<forall>t. t \<noteq> s \<longrightarrow> view t w' = view t v)"
      using net_ok_only [OF v(1)] by (auto simp: only_def)
  qed (use assms v1 live_heap [OF ok1] ok1 in \<open>auto simp: net_ok_def\<close>)
  then obtain w2 where w2: "for_each (Close od) (sessions w1) w1 = Some w2" "net_ok w2" "I (live w2) (app w2)"
    by blast
  have v2: "view t (w2\<lparr>workers := 0, iocp_open := False\<rparr>) = view t w2" for t
    by (simp add: view_def)
  have "live (w2\<lparr>workers := 0, iocp_open := False\<rparr>) = live w2"
    by (simp add: live_def fun_eq_iff)
  from v2 have "net_ok (w2\<lparr>workers := 0, iocp_open := False\<rparr>)"
    using w2(2) by (simp add: net_ok_def)
  then show ?thesis
    using w2 True \<open>live (w2\<lparr>workers := 0, iocp_open := False\<rparr>) = live w2\<close>
    by (cases "iocp_open w2") (simp_all add: Stop_def w1_def [symmetric] Let_def)
qed (use assms in \<open>simp add: Stop_def\<close>)

end

text \<open>The contract of a connect callback: it leaves the new session alive.\<close>

locale connect_callback = disconnect_callback od I
  for od :: "sref \<Rightarrow> ('x, 'm) net \<Rightarrow> ('x, 'm) net option"
    and I :: "(sref \<Rightarrow> 'x option) \<Rightarrow> 'm \<Rightarrow> bool" +
  fixes oc :: "sref \<Rightarrow> ('x, 'm) net \<Rightarrow> ('x, 'm) net option" and x0 :: 'x
  assumes oc_ok: "ok 0 False True (view s w) \<Longrightarrow> live w s = Some x0 \<Longrightarrow> I ((live w)(s := None)) (app w) \<Longrightarrow>
    \<exists>w'. oc s w = Some w' \<and> only s w w' \<and> ok 0 False True (view s w') \<and> heap w' s \<noteq> None
      \<and> I (live w') (app w')"
begin

lemma CreateAndRegisterSession_ok:
  assumes "held_ok H w" and "I (live w) (app w)" and "heap w a = None" and "H a = idle"
  shows "\<exists>b w'. CreateAndRegisterSession os oc od x0 a w = Some (b, w') \<and> held_ok H w' \<and> I (live w') (app w')
    \<and> only a w w'"
proof -
  let ?w1 = "w\<lparr>heap := (heap w)(a \<mapsto> Session_new x0), calls := calls w + 1\<rparr>"
  have none: "ok 0 False False (view a w)" "live w a = None"
    using held_ok_view [OF assms(1), of a] assms(3,4) by (simp_all add: idle_def live_def)
  show ?thesis
  proof (cases "assoc_ok os (calls w)")
    case False
    let ?w' = "w\<lparr>heap := (heap w)(a := None), calls := calls w + 1\<rparr>"
    have same: "(heap w)(a := None) = heap w"
      using assms(3) by (simp add: fun_upd_idem)
    have "view t ?w' = view t w" "live ?w' = live w" for t
      unfolding same by (simp_all add: view_def live_def fun_eq_iff)
    moreover have "CreateAndRegisterSession os oc od x0 a w = Some (False, ?w')"
      using False by (simp add: CreateAndRegisterSession_def Let_def)
    ultimately show ?thesis
      using assms by (intro exI [of _ False] exI [of _ ?w']) (simp add: held_ok_def only_def)
  next
    case True
    define w2 where "w2 = emit (Connected a) (AddSession a ?w1)"
    have fresh: "a \<notin> set (sessions w)" "filter (\<lambda>p. fst p = a) (pending w) = []"
        "count_list (events w) (Connected a) = count_list (events w) (Disconnected a)"
      using none(1) assms(3) by (simp_all add: ok_def view_def)
    have o2: "only a w w2" and l2: "live w2 = (live w)(a \<mapsto> x0)" and m2: "app w2 = app w"
      using fresh(1) by (auto simp: w2_def only_def view_def emit_def AddSession_def live_def Session_new_def fun_eq_iff)
    have ok2: "ok 0 False True (view a w2)"
      using fresh by (simp add: w2_def view_def emit_def AddSession_def ok_def Session_new_def)
    have "(live w)(a := None) = live w"
      using none(2) by (simp add: fun_upd_idem)
    then obtain w3 where w3: "oc a w2 = Some w3" "only a w2 w3" "ok 0 False True (view a w3)" "heap w3 a \<noteq> None"
        "I (live w3) (app w3)"
      using oc_ok [OF ok2] l2 m2 assms(2) by auto
    from PostRecv_ok [OF w3(3,5,4), of os] obtain w4 where w4: "PostRecv os od a w3 = Some w4" "only a w3 w4"
        "ok 0 False False (view a w4)" "I (live w4) (app w4)"
      by blast
    have "CreateAndRegisterSession os oc od x0 a w = Some (True, w4)"
      using True w3(1) w4(1) by (simp add: CreateAndRegisterSession_def Start_def w2_def Let_def)
    moreover have o4: "only a w w4"
      using only_trans [OF o2 only_trans [OF w3(2) w4(2)]] .
    moreover have "held_ok H w4"
      using held_ok_only [OF assms(1) o4, of H] w4(3) assms(4) by (simp add: idle_def)
    ultimately show ?thesis
      using w4(4) by auto
  qed
qed

end

end
