(* ===== verification/Effects.thy ===== *)
theory Effects
  imports NetService
begin

text \<open>
  What the network code does to the rest of the program: sessions change in its own heap, and all
  other state changes through the callbacks alone. So a relation between worlds that the callbacks
  respect is respected by every operation, with no appeal to the invariant of the sessions.
\<close>

text \<open>The fields of \<open>NetService\<close> that only starting and stopping write.\<close>

definition service :: "('x, 'm) net \<Rightarrow> Mode \<times> bool \<times> bool \<times> bool \<times> nat" where
  "service w = (mode w, running w, listening w, iocp_open w, workers w)"

text \<open>
  No session appears or opens again, the fields of the derived class stay, and no receive buffer
  grows.
\<close>

definition same_fields :: "(sref \<Rightarrow> 'x Session_scheme option) \<Rightarrow> (sref \<Rightarrow> 'x Session_scheme option) \<Rightarrow> bool" where
  "same_fields h h' \<longleftrightarrow> (\<forall>t x'. h' t = Some x' \<longrightarrow> (\<exists>x. h t = Some x \<and> Session.more x' = Session.more x
     \<and> (closing x \<longrightarrow> closing x') \<and> length (recvStream x') \<le> length (recvStream x)))"

lemma same_fields_refl [simp]: "same_fields h h"
  and same_fields_delete [simp]: "same_fields h (h(s := None))"
  by (simp_all add: same_fields_def)

lemma same_fields_update [simp]:
  "h s = Some x \<Longrightarrow> Session.more y = Session.more x \<Longrightarrow> closing x \<longrightarrow> closing y \<Longrightarrow>
     length (recvStream y) \<le> length (recvStream x) \<Longrightarrow> same_fields h (h(s \<mapsto> y))"
  by (simp add: same_fields_def)

lemma same_fields_trans:
  assumes "same_fields a b" and "same_fields b c"
  shows "same_fields a c"
  unfolding same_fields_def
proof (intro allI impI)
  fix t z assume "c t = Some z"
  then obtain y where "b t = Some y" "Session.more z = Session.more y" "closing y \<longrightarrow> closing z"
      "length (recvStream z) \<le> length (recvStream y)"
    using assms(2) unfolding same_fields_def by blast
  moreover from this(1) obtain x where "a t = Some x" "Session.more y = Session.more x" "closing x \<longrightarrow> closing y"
      "length (recvStream y) \<le> length (recvStream x)"
    using assms(1) unfolding same_fields_def by blast
  ultimately show "\<exists>x. a t = Some x \<and> Session.more z = Session.more x \<and> (closing x \<longrightarrow> closing z)
      \<and> length (recvStream z) \<le> length (recvStream x)"
    by auto
qed

definition untouched :: "('x, 'm) net \<Rightarrow> ('x, 'm) net \<Rightarrow> bool" where
  "untouched w w' \<longleftrightarrow> app w' = app w \<and> service w' = service w \<and> same_fields (heap w) (heap w')"

lemma untouched_refl [simp]: "untouched w w"
  by (simp add: untouched_def)

lemma untouched_trans [trans]: "untouched a b \<Longrightarrow> untouched b c \<Longrightarrow> untouched a c"
  by (auto simp: untouched_def intro: same_fields_trans)

lemma untouched_update [simp]:
  "same_fields (heap w) h \<Longrightarrow> untouched w (w\<lparr>heap := h\<rparr>)" "untouched w (w\<lparr>sessions := ss\<rparr>)" "untouched w (w\<lparr>pending := ps\<rparr>)"
  "untouched w (w\<lparr>calls := n\<rparr>)" "untouched w (w\<lparr>events := es\<rparr>)" "untouched w (emit e w)"
  "untouched w (RemoveSession s w)" "untouched w (AddSession s w)"
  by (simp_all add: untouched_def service_def emit_def RemoveSession_def AddSession_def)

lemma on_session_untouched:
  "on_session s f w = Some w' \<Longrightarrow> (\<And>x. Session.more (f x) = Session.more x \<and> (closing x \<longrightarrow> closing (f x))
      \<and> length (recvStream (f x)) \<le> length (recvStream x)) \<Longrightarrow> untouched w w'"
  by (auto simp: on_session_def split: option.splits)

lemma AddRef_untouched: "AddRef s w = Some w' \<Longrightarrow> untouched w w'"
  by (auto simp: AddRef_def on_session_untouched)

lemma Release_untouched:
  assumes "Release s w = Some w'"
  shows "untouched w w'"
proof -
  obtain x where "heap w s = Some x"
    using assms by (auto simp: Release_def)
  then show ?thesis
    using assms
    by (cases "refCount x = 1")
      (auto simp: Release_def untouched_def service_def emit_def dest!: on_session_untouched)
qed

lemma PostSendFront_untouched:
  assumes "PostSendFront_NoLock os s w = Some (b, w')"
  shows "untouched w w'"
proof -
  obtain x where x: "heap w s = Some x"
    using assms by (auto simp: PostSendFront_NoLock_def)
  show ?thesis
  proof (cases "sendQ x = [] \<or> closing x")
    case True
    then show ?thesis
      using assms x by (auto simp: PostSendFront_NoLock_def dest: on_session_untouched split: list.splits)
  next
    case False
    then obtain front rest where q: "sendQ x = front # rest"
      by (auto simp: neq_Nil_conv)
    obtain w1 where w1: "AddRef s w = Some w1"
      using assms x False q by (auto simp: PostSendFront_NoLock_def)
    let ?w2 = "w1\<lparr>calls := calls w1 + 1\<rparr>"
    have u: "untouched w ?w2"
      using AddRef_untouched [OF w1] by (simp add: untouched_def service_def)
    show ?thesis
    proof (cases "send_ok os (calls w1)")
      case True
      then show ?thesis
        using assms x False q w1 u
        by (auto simp: PostSendFront_NoLock_def Let_def untouched_def service_def emit_def)
    next
      case refused: False
      obtain w3 where w3: "Release s ?w2 = Some w3" "on_session s (\<lambda>x. x\<lparr>sending := False\<rparr>) w3 = Some w'"
        using assms x False q w1 refused by (auto simp: PostSendFront_NoLock_def Let_def)
      from w3(2) have "untouched w3 w'"
        by (rule on_session_untouched) simp
      with u Release_untouched [OF w3(1)] show ?thesis
        by (blast intro: untouched_trans)
    qed
  qed
qed

subsection \<open>Disconnecting and sending\<close>

locale callback_effect =
  fixes od :: "sref \<Rightarrow> ('x, 'm) net \<Rightarrow> ('x, 'm) net option"
    and R :: "('x, 'm) net \<Rightarrow> ('x, 'm) net \<Rightarrow> bool"
  assumes R_untouched: "untouched w w' \<Longrightarrow> R w w'"
    and R_trans: "R a b \<Longrightarrow> R b c \<Longrightarrow> R a c"
    and od_R: "od s w = Some w' \<Longrightarrow> R w w'"
begin

lemma R_refl: "R w w"
  by (simp add: R_untouched)

lemma for_each_R:
  assumes "for_each f xs w = Some w'" and "\<And>x w w'. x \<in> set xs \<Longrightarrow> f x w = Some w' \<Longrightarrow> R w w'"
  shows "R w w'"
  using assms
proof (induction xs arbitrary: w)
  case (Cons x xs)
  then obtain w1 where "f x w = Some w1" "for_each f xs w1 = Some w'"
    by auto
  then show ?case
    using Cons.IH [of w1] Cons.prems(2) R_trans [of w w1 w'] by auto
qed (simp add: R_refl)

lemma Close_R:
  assumes "Close od s w = Some w'"
  shows "R w w'"
proof -
  obtain x where x: "heap w s = Some x"
    using assms by (auto simp: Close_def)
  show ?thesis
  proof (cases "closing x")
    case True
    then show ?thesis
      using assms x by (simp add: Close_def R_refl)
  next
    case False
    let ?w1 = "emit (Disconnected s) (RemoveSession s (w\<lparr>heap := (heap w)(s \<mapsto> closed_session x)\<rparr>))"
    obtain w2 where w2: "od s ?w1 = Some w2" "Release s w2 = Some w'"
      using assms x False by (auto simp: Close_def on_session_def NotifyDisconnected_def)
    have "untouched w ?w1"
      using x by (simp add: untouched_def service_def emit_def RemoveSession_def closed_session_def)
    then have "R w ?w1" and "R ?w1 w2" and "R w2 w'"
      using w2 Release_untouched by (auto intro: R_untouched od_R)
    then show ?thesis
      using R_trans by blast
  qed
qed

lemma PostRecv_R:
  assumes "PostRecv os od s w = Some w'"
  shows "R w w'"
proof -
  obtain x where x: "heap w s = Some x"
    using assms by (auto simp: PostRecv_def)
  show ?thesis
  proof (cases "closing x")
    case True
    then show ?thesis
      using assms x by (simp add: PostRecv_def R_refl)
  next
    case False
    obtain w1 where w1: "AddRef s w = Some w1"
      using assms x False by (auto simp: PostRecv_def)
    let ?w2 = "w1\<lparr>calls := calls w1 + 1\<rparr>"
    have u: "untouched w ?w2"
      using AddRef_untouched [OF w1] by (simp add: untouched_def service_def)
    show ?thesis
    proof (cases "recv_ok os (calls w1)")
      case True
      then have "untouched w w'"
        using assms x False w1 u by (auto simp: PostRecv_def Let_def untouched_def service_def)
      then show ?thesis by (rule R_untouched)
    next
      case refused: False
      obtain w3 where w3: "Release s ?w2 = Some w3" "Close od s w3 = Some w'"
        using assms x False w1 refused by (auto simp: PostRecv_def Let_def)
      then have "untouched w w3"
        using u Release_untouched untouched_trans by metis
      then show ?thesis
        using R_trans [OF R_untouched Close_R] w3(2) by blast
    qed
  qed
qed

lemma EnqueueSend_R:
  assumes "EnqueueSend os od s buf w = Some w'"
  shows "R w w'"
proof (cases "buf = None \<or> writeSize (the buf) \<le> 0")
  case True
  then show ?thesis
    using assms by (auto simp: EnqueueSend_def R_refl split: option.splits)
next
  case False
  then obtain sb x where sb: "buf = Some sb" "\<not> writeSize sb \<le> 0" and x: "heap w s = Some x"
    using assms by (auto simp: EnqueueSend_def)
  let ?q = "w\<lparr>heap := (heap w)(s \<mapsto> x\<lparr>sendQ := sendQ x @ [sb]\<rparr>)\<rparr>"
  show ?thesis
  proof (cases "closing x \<or> MAX_SEND_QUEUE_SIZE \<le> length (sendQ x) \<or> sending x")
    case True
    then have "w' = w \<or> Close od s w = Some w' \<or> w' = ?q"
      using assms sb x by (auto simp: EnqueueSend_def on_session_def split: if_splits)
    moreover have "R w ?q" and "R w w"
      using x by (simp_all add: R_untouched)
    ultimately show ?thesis
      using Close_R by auto
  next
    case False
    let ?w1 = "w\<lparr>heap := (heap w)(s \<mapsto> x\<lparr>sendQ := sendQ x @ [sb], sending := True\<rparr>)\<rparr>"
    obtain b w2 where w2: "PostSendFront_NoLock os s ?w1 = Some (b, w2)" "(if b then Some w2 else Close od s w2) = Some w'"
      using assms sb x False by (auto simp: EnqueueSend_def on_session_def split: if_splits)
    have "untouched w w2"
      using PostSendFront_untouched [OF w2(1)] untouched_trans [of w ?w1 w2] x by simp
    then have "R w w2"
      by (rule R_untouched)
    then show ?thesis
      using w2(2) R_trans [of w w2 w'] Close_R [of s w2 w'] by (cases b) auto
  qed
qed

lemma EnqueueSend_packet_R: "EnqueueSend_packet os od s packet w = Some w' \<Longrightarrow> R w w'"
  by (auto simp: EnqueueSend_packet_def dest: EnqueueSend_R)

lemma OnSendComplete_R:
  assumes "OnSendComplete os od s w = Some w'"
  shows "R w w'"
proof -
  obtain w1 x where w1: "on_session s (\<lambda>x. x\<lparr>sendQ := (if sendQ x \<noteq> [] then tl (sendQ x) else [])\<rparr>) w = Some w1"
      "heap w1 s = Some x"
    using assms by (auto simp: OnSendComplete_def)
  have u: "untouched w w1"
    using w1(1) by (rule on_session_untouched) simp
  show ?thesis
  proof (cases "sendQ x = [] \<or> closing x")
    case True
    then have "untouched w1 w'"
      using assms w1 by (auto simp: OnSendComplete_def dest: on_session_untouched split: if_splits)
    then show ?thesis
      using u untouched_trans R_untouched by blast
  next
    case False
    then obtain b w2 where w2: "PostSendFront_NoLock os s w1 = Some (b, w2)"
        "(if \<not> b then Close od s w2 else Some w2) = Some w'"
      using assms w1 by (auto simp: OnSendComplete_def)
    have "R w w2"
      using R_untouched u PostSendFront_untouched [OF w2(1)] untouched_trans by blast
    then show ?thesis
      using w2(2) R_trans [of w w2 w'] Close_R [of s w2 w'] by (cases b) auto
  qed
qed

lemma Broadcast_R: "Broadcast os od buf w = Some w' \<Longrightarrow> R w w'"
  by (auto simp: Broadcast_def IsClosing_def R_refl elim!: for_each_R dest: EnqueueSend_R split: option.splits if_splits)

end

subsection \<open>Receiving\<close>

lemma TryGetPacket_shrinks: "TryGetPacket stream out = (result, rest, p) \<Longrightarrow> length rest \<le> length stream"
  by (auto simp: TryGetPacket_def Let_def split: if_splits)

locale packet_effect = callback_effect +
  fixes hp :: "sref \<Rightarrow> Packet \<Rightarrow> ('a, 'b) net \<Rightarrow> (bool \<times> ('a, 'b) net) option"
  assumes hp_R: "hp s p w = Some (b, w') \<Longrightarrow> R w w'"
begin

lemma recv_loop_R: "recv_loop os od hp s w = Some w' \<Longrightarrow> R w w'"
proof (rule recv_loop.raw_induct
    [where P = "\<lambda>os' od' hp' s w w'. od' = od \<longrightarrow> hp' = hp \<longrightarrow> R w w'", rule_format])
  fix loop os' od' hp' s w w'
  assume IH: "\<And>os' od' hp' s w w'. loop os' od' hp' s w = Some w' \<Longrightarrow> od' = od \<Longrightarrow> hp' = hp \<Longrightarrow> R w w'"
    and step: "(do {
     x \<leftarrow> heap w s;
     let (result, stream, pkt) = TryGetPacket (recvStream x) Packet_new;
     w \<leftarrow> on_session s (\<lambda>x. x\<lparr>recvStream := stream\<rparr>) w;
     if result = Incomplete then PostRecv os' od' s w
     else if result \<noteq> Success then Close od' s w
     else do {
       (handled, w) \<leftarrow> hp' s pkt w;
       if \<not> handled then Close od' s w
       else do {
         x \<leftarrow> heap w s;
         if closing x then Some w else loop os' od' hp' s w
       }
     }
   }) = Some w'"
    and "od' = od" "hp' = hp"
  obtain x w1 result stream pkt where x: "heap w s = Some x"
    and t: "TryGetPacket (recvStream x) Packet_new = (result, stream, pkt)"
    and w1: "on_session s (\<lambda>x. x\<lparr>recvStream := stream\<rparr>) w = Some w1"
    using step by (auto simp: Let_def split: prod.splits bind_splits)
  have u: "R w w1"
    using w1 x TryGetPacket_shrinks [OF t] by (intro R_untouched) (auto simp: on_session_def)
  show "R w w'"
  proof (cases "result = Success")
    case False
    then have "PostRecv os' od s w1 = Some w' \<or> Close od s w1 = Some w'"
      using step x t w1 \<open>od' = od\<close> by (auto split: if_splits)
    then show ?thesis
      using R_trans [OF u] PostRecv_R Close_R by blast
  next
    case True
    then obtain handled w2 where w2: "hp s pkt w1 = Some (handled, w2)"
      using step x t w1 \<open>hp' = hp\<close> by (auto split: bind_splits)
    have u2: "R w w2"
      using R_trans [OF u hp_R [OF w2]] .
    have "Close od s w2 = Some w' \<or> w2 = w' \<or> loop os' od' hp' s w2 = Some w'"
      using step x t w1 w2 True \<open>od' = od\<close> \<open>hp' = hp\<close> by (auto split: if_splits bind_splits)
    then show ?thesis
      using R_trans [OF u2] Close_R IH \<open>od' = od\<close> \<open>hp' = hp\<close> u2 by blast
  qed
qed simp_all

end

text \<open>A relation that also allows the receive buffer to grow.\<close>

locale handler_effect = packet_effect +
  assumes append_R: "on_session s (\<lambda>x. x\<lparr>recvStream := recvStream x @ data\<rparr>) w = Some w' \<Longrightarrow> R w w'"
begin

lemma OnRecvComplete_R:
  assumes "OnRecvComplete os od hp s data w = Some w'"
  shows "R w w'"
proof -
  obtain x where x: "heap w s = Some x"
    using assms by (auto simp: OnRecvComplete_def)
  show ?thesis
  proof (cases "closing x")
    case True
    then show ?thesis
      using assms x by (simp add: OnRecvComplete_def R_refl)
  next
    case False
    then obtain w1 where w1: "on_session s (\<lambda>x. x\<lparr>recvStream := recvStream x @ data\<rparr>) w = Some w1"
      "recv_loop os od hp s w1 = Some w'"
      using assms x by (auto simp: OnRecvComplete_def split: bind_splits)
    from R_trans [OF append_R [OF w1(1)] recv_loop_R [OF w1(2)]] show ?thesis .
  qed
qed

lemma worker_round_R:
  assumes "worker_round os od hp i success bytes w = Some w'"
  shows "R w w'"
proof -
  obtain s c where p: "pending w ! i = (s, c)"
    by fastforce
  let ?w1 = "w\<lparr>pending := take i (pending w) @ drop (Suc i) (pending w)\<rparr>"
  obtain w2 where w2: "(if \<not> success \<or> bytes = [] then Close od s ?w1
      else if ioType c = RECV then OnRecvComplete os od hp s bytes ?w1 else OnSendComplete os od s ?w1) = Some w2"
    and rel: "Release s w2 = Some w'"
    using assms p by (auto simp: worker_round_def Let_def split: if_splits)
  have "R w ?w1"
    by (simp add: R_untouched)
  moreover have "R ?w1 w2"
    using w2 by (auto dest: Close_R OnRecvComplete_R OnSendComplete_R split: if_splits)
  moreover have "R w2 w'"
    using rel by (intro R_untouched Release_untouched)
  ultimately show ?thesis
    using R_trans by blast
qed

end

subsection \<open>Connecting\<close>

locale connect_effect = callback_effect +
  fixes oc :: "sref \<Rightarrow> ('a, 'b) net \<Rightarrow> ('a, 'b) net option" and x0 :: 'a
  assumes oc_R: "oc s w = Some w' \<Longrightarrow> R w w'"
    and new_R: "R w (w\<lparr>heap := (heap w)(a \<mapsto> Session_new x0)\<rparr>)"
begin

lemma CreateAndRegisterSession_R:
  assumes "CreateAndRegisterSession os oc od x0 a w = Some (b, w')"
  shows "R w w'"
proof -
  let ?w1 = "w\<lparr>heap := (heap w)(a \<mapsto> Session_new x0), calls := calls w + 1\<rparr>"
  show ?thesis
  proof (cases "assoc_ok os (calls w)")
    case False
    then have "untouched w w'"
      using assms by (auto simp: CreateAndRegisterSession_def untouched_def service_def Let_def)
    then show ?thesis by (rule R_untouched)
  next
    case True
    then have "Start os oc od a (AddSession a ?w1) = Some w'"
      using assms by (auto simp: CreateAndRegisterSession_def Let_def)
    then obtain w2 where w2: "oc a (emit (Connected a) (AddSession a ?w1)) = Some w2" "PostRecv os od a w2 = Some w'"
      by (auto simp: Start_def)
    have "untouched (w\<lparr>heap := (heap w)(a \<mapsto> Session_new x0)\<rparr>) (emit (Connected a) (AddSession a ?w1))"
      by (simp add: untouched_def service_def emit_def AddSession_def)
    then have "R w (emit (Connected a) (AddSession a ?w1))"
      using R_trans [OF new_R R_untouched] by blast
    then show ?thesis
      using R_trans [OF R_trans [OF _ oc_R] PostRecv_R] w2 by blast
  qed
qed

lemma accept_round_R: "accept_round os oc od x0 client w = Some w' \<Longrightarrow> R w w'"
  by (auto simp: accept_round_def R_refl dest: CreateAndRegisterSession_R split: if_splits option.splits)

end

end
