(* ===== verification/Float32.thy ===== *)
theory Float32
  imports Prelude
begin

text \<open>
  The C++ \<open>float\<close>: IEEE-754 binary32 with round-to-nearest-even, as every target of the
  repository evaluates it. Every finite binary32 value is an integer multiple of the least
  subnormal \<open>2^-149\<close>, so a finite value is a sign and a magnitude counted in that unit; an
  operation computes its exact result as a fraction and rounds it to a 24-bit significand.
  NaN payloads and signs are not modelled (the code never looks at them).
\<close>

subsection \<open>Rounding a fraction\<close>

text \<open>The nearest integer to \<open>n / d\<close>, ties to even.\<close>

definition rne :: "int \<Rightarrow> int \<Rightarrow> int" where
  "rne n d = (let q = n div d; r = n mod d in
     if 2 * r < d \<or> (2 * r = d \<and> even q) then q else q + 1)"

text \<open>How many low bits a magnitude has beyond its 24 significant ones.\<close>

fun excess_bits :: "int \<Rightarrow> nat" where
  "excess_bits q =
     (if q < 2 ^ 24 then 0
      else if q < 2 ^ 32 then 1 + excess_bits (q div 2)
      else if q < 2 ^ 88 then 8 + excess_bits (q div 2 ^ 8)
      else 64 + excess_bits (q div 2 ^ 64))"

declare excess_bits.simps [simp del]

text \<open>The representable magnitude nearest to \<open>n / d\<close>.\<close>

definition rnd :: "int \<Rightarrow> int \<Rightarrow> int" where
  "rnd n d = (let s = excess_bits (n div d) in rne n (d * 2 ^ s) * 2 ^ s)"

definition representable :: "int \<Rightarrow> bool" where
  "representable k \<longleftrightarrow> 0 \<le> k \<and> 2 ^ excess_bits k dvd k"

subsection \<open>Values\<close>

datatype f32 = FNaN | FInf bool | FFin bool int

abbreviation (input) UNIT :: int where "UNIT \<equiv> 2 ^ 149"
abbreviation (input) OVERFLOW :: int where "OVERFLOW \<equiv> 2 ^ 277"

definition mk_f32 :: "bool \<Rightarrow> int \<Rightarrow> f32" where
  "mk_f32 s m = (if m \<ge> OVERFLOW then FInf s else FFin s m)"

definition sval :: "bool \<Rightarrow> int \<Rightarrow> int" where
  "sval s m = (if s then - m else m)"

fun is_fin :: "f32 \<Rightarrow> bool" where
  "is_fin (FFin _ _) = True"
| "is_fin _ = False"

text \<open>The value of a float on the extended line, in units of \<open>2^-149\<close>; infinities lie just
  outside the finite range.\<close>

fun fval :: "f32 \<Rightarrow> int" where
  "fval FNaN = 0"
| "fval (FInf s) = sval s OVERFLOW"
| "fval (FFin s m) = sval s m"

fun wf_f32 :: "f32 \<Rightarrow> bool" where
  "wf_f32 (FFin s m) \<longleftrightarrow> representable m \<and> m < OVERFLOW"
| "wf_f32 _ \<longleftrightarrow> True"

subsection \<open>Literals and conversions\<close>

text \<open>The literal \<open>n/d\<close> (not negative).\<close>

definition flit :: "int \<Rightarrow> int \<Rightarrow> f32" where
  "flit n d = mk_f32 False (rnd (n * UNIT) d)"

definition fzero :: f32 where "fzero = FFin False 0"

definition int_to_f32 :: "int \<Rightarrow> f32" where
  "int_to_f32 i = mk_f32 (i < 0) (rnd (\<bar>i\<bar> * UNIT) 1)"

text \<open>\<open>static_cast<int>\<close>: truncation; undefined when the result is not an \<open>int\<close>.\<close>

fun f32_to_int :: "f32 \<Rightarrow> int option" where
  "f32_to_int (FFin s m) = i32 (sval s (m div UNIT))"
| "f32_to_int _ = None"

subsection \<open>Arithmetic\<close>

fun fneg :: "f32 \<Rightarrow> f32" where
  "fneg FNaN = FNaN"
| "fneg (FInf s) = FInf (\<not> s)"
| "fneg (FFin s m) = FFin (\<not> s) m"

fun fadd :: "f32 \<Rightarrow> f32 \<Rightarrow> f32" where
  "fadd (FFin s m) (FFin t n) =
     (let v = sval s m + sval t n in
      if v = 0 then FFin (s \<and> t) 0 else mk_f32 (v < 0) (rnd \<bar>v\<bar> 1))"
| "fadd (FInf s) (FInf t) = (if s = t then FInf s else FNaN)"
| "fadd (FInf s) (FFin t n) = FInf s"
| "fadd (FFin s m) (FInf t) = FInf t"
| "fadd _ _ = FNaN"

definition fsub :: "f32 \<Rightarrow> f32 \<Rightarrow> f32" where
  "fsub a b = fadd a (fneg b)"

fun fmul :: "f32 \<Rightarrow> f32 \<Rightarrow> f32" where
  "fmul (FFin s m) (FFin t n) = mk_f32 (s \<noteq> t) (rnd (m * n) UNIT)"
| "fmul (FInf s) (FInf t) = FInf (s \<noteq> t)"
| "fmul (FInf s) (FFin t n) = (if n = 0 then FNaN else FInf (s \<noteq> t))"
| "fmul (FFin s m) (FInf t) = (if m = 0 then FNaN else FInf (s \<noteq> t))"
| "fmul _ _ = FNaN"

fun fdiv :: "f32 \<Rightarrow> f32 \<Rightarrow> f32" where
  "fdiv (FFin s m) (FFin t n) =
     (if n = 0 then (if m = 0 then FNaN else FInf (s \<noteq> t))
      else mk_f32 (s \<noteq> t) (rnd (m * UNIT) n))"
| "fdiv (FInf s) (FFin t n) = FInf (s \<noteq> t)"
| "fdiv (FFin s m) (FInf t) = FFin (s \<noteq> t) 0"
| "fdiv _ _ = FNaN"

text \<open>\<open>std::floor\<close>, \<open>std::ceil\<close>, \<open>std::abs\<close>.\<close>

fun ffloor :: "f32 \<Rightarrow> f32" where
  "ffloor (FFin s m) = FFin s (\<bar>sval s m div UNIT\<bar> * UNIT)"
| "ffloor a = a"

fun fceil :: "f32 \<Rightarrow> f32" where
  "fceil (FFin s m) = FFin s (\<bar>- (- sval s m div UNIT)\<bar> * UNIT)"
| "fceil a = a"

fun ffabs :: "f32 \<Rightarrow> f32" where
  "ffabs FNaN = FNaN"
| "ffabs (FInf s) = FInf False"
| "ffabs (FFin s m) = FFin False m"

subsection \<open>Comparisons\<close>

definition flt :: "f32 \<Rightarrow> f32 \<Rightarrow> bool" where
  "flt a b \<longleftrightarrow> a \<noteq> FNaN \<and> b \<noteq> FNaN \<and> fval a < fval b"

definition fle :: "f32 \<Rightarrow> f32 \<Rightarrow> bool" where
  "fle a b \<longleftrightarrow> a \<noteq> FNaN \<and> b \<noteq> FNaN \<and> fval a \<le> fval b"

definition feq :: "f32 \<Rightarrow> f32 \<Rightarrow> bool" where
  "feq a b \<longleftrightarrow> a \<noteq> FNaN \<and> b \<noteq> FNaN \<and> fval a = fval b"

abbreviation (input) fgt :: "f32 \<Rightarrow> f32 \<Rightarrow> bool" where "fgt a b \<equiv> flt b a"
abbreviation (input) fge :: "f32 \<Rightarrow> f32 \<Rightarrow> bool" where "fge a b \<equiv> fle b a"

text \<open>\<open>std::max (a, b)\<close> returns \<open>a\<close> unless \<open>a < b\<close>.\<close>

definition fmax :: "f32 \<Rightarrow> f32 \<Rightarrow> f32" where
  "fmax a b = (if flt a b then b else a)"

subsection \<open>Facts on rounding to an integer\<close>

lemma rne_mult [simp]: "0 < d \<Longrightarrow> rne (k * d) d = k"
  by (simp add: rne_def Let_def)

lemma rne_near: "0 < d \<Longrightarrow> 2 * \<bar>rne n d * d - n\<bar> \<le> d"
proof -
  assume d: "0 < d"
  define q r where "q = n div d" and "r = n mod d"
  have n: "n = q * d + r" by (simp add: q_def r_def)
  have "0 \<le> r" and "r < d" using d by (simp_all add: r_def)
  moreover have "rne n d = q \<and> 2 * r \<le> d \<or> rne n d = q + 1 \<and> d \<le> 2 * r"
    by (auto simp: rne_def Let_def q_def [symmetric] r_def [symmetric])
  ultimately show ?thesis
    by (auto simp: n algebra_simps)
qed

lemma rne_between: "0 < d \<Longrightarrow> n div d \<le> rne n d \<and> rne n d \<le> n div d + 1"
  by (simp add: rne_def Let_def)

lemma rne_mono:
  assumes "0 < d" and "n \<le> n'"
  shows "rne n d \<le> rne n' d"
proof (cases "n div d = n' div d")
  case True
  then have "n mod d \<le> n' mod d"
    using assms(2) by (simp add: minus_div_mult_eq_mod [symmetric])
  with True show ?thesis
    by (auto simp: rne_def Let_def)
next
  case False
  then have "n div d + 1 \<le> n' div d"
    using zdiv_mono1 [OF assms(2,1)] by simp
  then show ?thesis
    using rne_between [OF assms(1), of n] rne_between [OF assms(1), of n'] by linarith
qed

lemma rne_le: "0 < d \<Longrightarrow> n \<le> k * d \<Longrightarrow> rne n d \<le> k"
  using rne_mono [of d n "k * d"] by simp

lemma rne_ge: "0 < d \<Longrightarrow> k * d \<le> n \<Longrightarrow> k \<le> rne n d"
  using rne_mono [of d "k * d" n] by simp

subsection \<open>Facts on the position of the rounding\<close>

lemma excess_bits_small: "q < 2 ^ 24 \<Longrightarrow> excess_bits q = 0"
  by (simp add: excess_bits.simps)

lemma div_pow_bounds:
  fixes q :: int
  assumes "2 ^ (23 + s) \<le> q div 2 ^ j" and "q div 2 ^ j < 2 ^ (24 + s)"
  shows "2 ^ (23 + (j + s)) \<le> q" and "q < 2 ^ (24 + (j + s))"
proof -
  have "2 ^ (23 + s) * 2 ^ j \<le> q"
    using assms(1) by (simp add: le_div_int_iff)
  then show "2 ^ (23 + (j + s)) \<le> q"
    by (simp add: power_add mult_ac)
  have "q < 2 ^ (24 + s) * 2 ^ j"
    using assms(2) by (simp add: div_less_int_iff)
  then show "q < 2 ^ (24 + (j + s))"
    by (simp add: power_add mult_ac)
qed

lemma excess_bits_bounds:
  "2 ^ 24 \<le> q \<Longrightarrow> 2 ^ (23 + excess_bits q) \<le> q \<and> q < 2 ^ (24 + excess_bits q)"
proof (induction q rule: excess_bits.induct)
  case (1 q)
  have step: "2 ^ (23 + (j + excess_bits (q div 2 ^ j))) \<le> q \<and> q < 2 ^ (24 + (j + excess_bits (q div 2 ^ j)))"
    if "2 ^ 24 \<le> q div 2 ^ j \<Longrightarrow> 2 ^ (23 + excess_bits (q div 2 ^ j)) \<le> q div 2 ^ j
        \<and> q div 2 ^ j < 2 ^ (24 + excess_bits (q div 2 ^ j))"
      and "2 ^ (24 + j) \<le> q" for j
  proof -
    have "2 ^ 24 \<le> q div 2 ^ j"
      using that(2) by (simp add: le_div_int_iff power_add)
    then show ?thesis
      using that(1) div_pow_bounds by blast
  qed
  consider "q < 2 ^ 32" and "q < 2 ^ 25" | "2 ^ 25 \<le> q" "q < 2 ^ 32"
    | "2 ^ 32 \<le> q" "q < 2 ^ 88" | "2 ^ 88 \<le> q"
    by fastforce
  then show ?case
  proof cases
    case 1
    then have "excess_bits (q div 2) = 0"
      by (intro excess_bits_small) simp
    with 1 \<open>2 ^ 24 \<le> q\<close> show ?thesis
      by (simp add: excess_bits.simps [of q])
  next
    case 2
    with step [of 1] "1.IH"(1) show ?thesis
      by (simp add: excess_bits.simps [of q])
  next
    case 3
    with step [of 8] "1.IH"(2) show ?thesis
      by (simp add: excess_bits.simps [of q])
  next
    case 4
    with step [of 64] "1.IH"(3) show ?thesis
      by (simp add: excess_bits.simps [of q])
  qed
qed

lemma excess_bits_less: "q < 2 ^ (24 + excess_bits q)"
  using excess_bits_bounds [of q] excess_bits_small [of q] by (cases "q < 2 ^ 24") auto

lemma excess_bits_pos: "0 < excess_bits q \<Longrightarrow> 2 ^ (23 + excess_bits q) \<le> q"
  using excess_bits_bounds [of q] excess_bits_small [of q] by (cases "q < 2 ^ 24") auto

lemma excess_bits_mono: "q \<le> q' \<Longrightarrow> excess_bits q \<le> excess_bits q'"
proof (rule ccontr)
  assume le: "q \<le> q'" and "\<not> excess_bits q \<le> excess_bits q'"
  then have lt: "24 + excess_bits q' \<le> 23 + excess_bits q" and pos: "0 < excess_bits q"
    by simp_all
  have "(2::int) ^ (24 + excess_bits q') \<le> 2 ^ (23 + excess_bits q)"
    using lt by (intro power_increasing) simp_all
  also have "\<dots> \<le> q"
    using pos by (rule excess_bits_pos)
  finally show False
    using le excess_bits_less [of q'] by simp
qed

lemma excess_bits_le: "q < 2 ^ (24 + s) \<Longrightarrow> excess_bits q \<le> s"
proof (rule ccontr)
  assume q: "q < 2 ^ (24 + s)" and "\<not> excess_bits q \<le> s"
  then have lt: "24 + s \<le> 23 + excess_bits q" and pos: "0 < excess_bits q"
    by simp_all
  have "(2::int) ^ (24 + s) \<le> 2 ^ (23 + excess_bits q)"
    using lt by (intro power_increasing) simp_all
  also have "\<dots> \<le> q"
    using pos by (rule excess_bits_pos)
  finally show False
    using q by linarith
qed

lemma excess_bits_unique:
  assumes "2 ^ (23 + s) \<le> q" and "q < 2 ^ (24 + s)"
  shows "excess_bits q = s"
proof (rule antisym)
  show "excess_bits q \<le> s"
    using assms(2) by (rule excess_bits_le)
  have "(2::int) ^ (23 + s) < 2 ^ (24 + excess_bits q)"
    using assms(1) excess_bits_less [of q] by (rule le_less_trans)
  then show "s \<le> excess_bits q"
    by (simp add: power_strict_increasing_iff)
qed

subsection \<open>Facts on rounding to a float\<close>

lemma representable_nonneg: "representable k \<Longrightarrow> 0 \<le> k"
  by (simp add: representable_def)

lemma representable_small: "0 \<le> k \<Longrightarrow> k < 2 ^ 24 \<Longrightarrow> representable k"
  by (simp add: representable_def excess_bits_small)

lemma representable_shift:
  assumes "0 \<le> j" and "j < 2 ^ 24"
  shows "representable (j * 2 ^ s)"
proof -
  have "j * 2 ^ s < 2 ^ 24 * 2 ^ s"
    using assms(2) by (intro mult_strict_right_mono) simp_all
  then have lt: "j * 2 ^ s < 2 ^ (24 + s)"
    by (simp add: power_add)
  from lt have "excess_bits (j * 2 ^ s) \<le> s"
    by (rule excess_bits_le)
  then show ?thesis
    using assms(1) by (simp add: representable_def dvd_mult le_imp_power_dvd)
qed

lemma representable_power [simp]: "representable (2 ^ n)"
  using representable_shift [of 1 n] by simp

text \<open>A representable value is rounded to itself.\<close>

lemma rnd_exact:
  assumes "representable k" and "0 < d"
  shows "rnd (k * d) d = k"
proof -
  define s where "s = excess_bits k"
  from assms(1) obtain j where k: "k = j * 2 ^ s"
    by (auto simp: representable_def s_def mult.commute elim!: dvdE)
  have "k * d div d = k"
    using assms(2) by simp
  moreover have "rne (k * d) (d * 2 ^ s) = j"
    using assms(2) rne_mult [of "d * 2 ^ s" j] by (simp add: k mult_ac)
  ultimately show ?thesis
    by (simp add: rnd_def Let_def s_def [symmetric] k [symmetric])
qed

lemma rnd_zero [simp]: "0 < d \<Longrightarrow> rnd 0 d = 0"
  using rnd_exact [of 0 d] by (simp add: representable_small)

lemma rnd_upper:
  assumes "0 < d"
  shows "rnd n d \<le> 2 ^ (24 + excess_bits (n div d))"
proof -
  define s where "s = excess_bits (n div d)"
  have "n < 2 ^ (24 + s) * d"
    using excess_bits_less [of "n div d"] assms by (simp add: div_less_int_iff s_def)
  then have "rne n (d * 2 ^ s) \<le> 2 ^ 24"
    using assms by (intro rne_le) (simp_all add: power_add mult_ac)
  then have "rne n (d * 2 ^ s) * 2 ^ s \<le> 2 ^ 24 * 2 ^ s"
    by (intro mult_right_mono) simp_all
  then show ?thesis
    by (simp add: rnd_def Let_def s_def power_add)
qed

lemma rnd_lower:
  assumes "0 < d" and "0 < excess_bits (n div d)"
  shows "2 ^ (23 + excess_bits (n div d)) \<le> rnd n d"
proof -
  define s where "s = excess_bits (n div d)"
  have "2 ^ (23 + s) * d \<le> n"
    using excess_bits_pos [OF assms(2)] assms(1) by (simp add: le_div_int_iff s_def)
  then have "2 ^ 23 \<le> rne n (d * 2 ^ s)"
    using assms(1) by (intro rne_ge) (simp_all add: power_add mult_ac)
  then have "2 ^ 23 * 2 ^ s \<le> rne n (d * 2 ^ s) * 2 ^ s"
    by (intro mult_right_mono) simp_all
  then show ?thesis
    by (simp add: rnd_def Let_def s_def power_add)
qed

lemma rnd_mono:
  assumes "0 < d" and "n \<le> n'"
  shows "rnd n d \<le> rnd n' d"
proof -
  let ?s = "excess_bits (n div d)" and ?s' = "excess_bits (n' div d)"
  have "?s \<le> ?s'"
    using assms by (intro excess_bits_mono zdiv_mono1)
  then consider "?s = ?s'" | "?s < ?s'" by linarith
  then show ?thesis
  proof cases
    case 1
    have "rne n (d * 2 ^ ?s) \<le> rne n' (d * 2 ^ ?s)"
      using assms by (intro rne_mono) simp_all
    with 1 show ?thesis
      by (simp add: rnd_def Let_def)
  next
    case 2
    have "rnd n d \<le> 2 ^ (24 + ?s)"
      using assms(1) by (rule rnd_upper)
    also have "\<dots> \<le> 2 ^ (23 + ?s')"
      using 2 by (intro power_increasing) simp_all
    also have "\<dots> \<le> rnd n' d"
      using 2 assms(1) by (intro rnd_lower) simp_all
    finally show ?thesis .
  qed
qed

lemma rnd_le: "representable k \<Longrightarrow> 0 < d \<Longrightarrow> n \<le> k * d \<Longrightarrow> rnd n d \<le> k"
  using rnd_mono [of d n "k * d"] by (simp add: rnd_exact)

lemma rnd_ge: "representable k \<Longrightarrow> 0 < d \<Longrightarrow> k * d \<le> n \<Longrightarrow> k \<le> rnd n d"
  using rnd_mono [of d "k * d" n] by (simp add: rnd_exact)

lemma rnd_nonneg: "0 < d \<Longrightarrow> 0 \<le> n \<Longrightarrow> 0 \<le> rnd n d"
  by (rule rnd_ge) (simp_all add: representable_small)

lemma rnd_representable:
  assumes "0 < d" and "0 \<le> n"
  shows "representable (rnd n d)"
proof -
  define s where "s = excess_bits (n div d)"
  define j where "j = rne n (d * 2 ^ s)"
  have r: "rnd n d = j * 2 ^ s"
    by (simp add: rnd_def Let_def s_def j_def)
  have "0 \<le> j"
    unfolding j_def using assms by (intro rne_ge) simp_all
  have "j * 2 ^ s \<le> 2 ^ 24 * 2 ^ s"
    using rnd_upper [OF assms(1), of n] by (simp add: r s_def [symmetric] power_add)
  then have "j \<le> 2 ^ 24"
    by (simp add: mult_le_cancel_right)
  then consider "j < 2 ^ 24" | "j = 2 ^ 24" by linarith
  then show ?thesis
  proof cases
    case 1
    with \<open>0 \<le> j\<close> show ?thesis
      unfolding r by (rule representable_shift)
  next
    case 2
    then have "rnd n d = 2 ^ (24 + s)"
      by (simp add: r power_add)
    then show ?thesis
      by (simp only: representable_power)
  qed
qed

text \<open>The relative error is at most \<open>2^-24\<close>, and below \<open>2^24\<close> units the absolute error half a unit.\<close>

lemma rnd_error:
  assumes "0 < d" and "0 \<le> n"
  shows "2 ^ 24 * \<bar>rnd n d * d - n\<bar> \<le> max n (2 ^ 23 * d)"
proof -
  define s where "s = excess_bits (n div d)"
  have near: "2 * \<bar>rnd n d * d - n\<bar> \<le> d * 2 ^ s"
    using rne_near [of "d * 2 ^ s" n] assms(1)
    by (simp add: rnd_def Let_def s_def [symmetric] mult_ac)
  have "2 ^ 23 * (d * 2 ^ s) \<le> max n (2 ^ 23 * d)"
  proof (cases "s = 0")
    case False
    then have "2 ^ (23 + s) * d \<le> n"
      using excess_bits_pos [of "n div d"] assms(1) by (simp add: le_div_int_iff s_def)
    then show ?thesis
      by (simp add: power_add mult_ac)
  qed simp
  moreover have "2 ^ 24 * \<bar>rnd n d * d - n\<bar> = 2 ^ 23 * (2 * \<bar>rnd n d * d - n\<bar>)"
    by simp
  moreover have "2 ^ 23 * (2 * \<bar>rnd n d * d - n\<bar>) \<le> 2 ^ 23 * (d * 2 ^ s)"
    using near by (intro mult_left_mono) simp_all
  ultimately show ?thesis
    by linarith
qed

subsection \<open>Signed results\<close>

definition rnds :: "int \<Rightarrow> int \<Rightarrow> int" where
  "rnds n d = (if n < 0 then - rnd (- n) d else rnd n d)"

definition srep :: "int \<Rightarrow> bool" where
  "srep k \<longleftrightarrow> representable \<bar>k\<bar>"

lemma rnds_mono:
  assumes "0 < d" and "n \<le> n'"
  shows "rnds n d \<le> rnds n' d"
proof -
  have "- rnd (- n) d \<le> 0" if "n < 0"
    using rnd_nonneg [of d "- n"] assms(1) that by simp
  moreover have "0 \<le> rnd n' d" if "0 \<le> n'"
    using rnd_nonneg assms(1) that by simp
  ultimately show ?thesis
    using rnd_mono [of d n n'] rnd_mono [of d "- n'" "- n"] assms by (fastforce simp: rnds_def)
qed

lemma rnds_exact: "srep k \<Longrightarrow> 0 < d \<Longrightarrow> rnds (k * d) d = k"
  using rnd_exact [of "- k" d] rnd_exact [of k d]
  by (auto simp: rnds_def srep_def mult_less_0_iff abs_if split: if_splits)

text \<open>A float that is the rounding of the exact result \<open>n / d\<close> (in units).\<close>

definition rounds_to :: "f32 \<Rightarrow> int \<Rightarrow> int \<Rightarrow> bool" where
  "rounds_to r n d \<longleftrightarrow> r \<noteq> FNaN \<and> wf_f32 r \<and> (is_fin r \<longleftrightarrow> \<bar>rnds n d\<bar> < OVERFLOW)
     \<and> fval r = max (- OVERFLOW) (min OVERFLOW (rnds n d))"

lemma rounds_to_mk:
  assumes "0 < d" and "n < 0 \<Longrightarrow> s" and "0 < n \<Longrightarrow> \<not> s"
  shows "rounds_to (mk_f32 s (rnd \<bar>n\<bar> d)) n d"
proof (cases "n = 0")
  case True
  with assms(1) show ?thesis
    by (cases s) (simp_all add: rounds_to_def mk_f32_def rnds_def sval_def representable_small)
next
  case False
  then have "n < 0 \<and> s \<or> 0 < n \<and> \<not> s"
    using assms(2,3) by linarith
  moreover have "0 \<le> rnd \<bar>n\<bar> d" and "representable (rnd \<bar>n\<bar> d)"
    using assms(1) by (simp_all add: rnd_nonneg rnd_representable)
  ultimately show ?thesis
    by (auto simp: rounds_to_def mk_f32_def rnds_def sval_def)
qed

lemma rounds_to_le:
  assumes "rounds_to r n d" and "0 < d" and "srep k" and "\<bar>k\<bar> \<le> OVERFLOW" and "n \<le> k * d"
  shows "fval r \<le> k"
  using rnds_mono [OF assms(2,5)] rnds_exact [OF assms(3,2)] assms(1,4)
  by (auto simp: rounds_to_def min_def max_def abs_le_iff)

lemma rounds_to_ge:
  assumes "rounds_to r n d" and "0 < d" and "srep k" and "\<bar>k\<bar> \<le> OVERFLOW" and "k * d \<le> n"
  shows "k \<le> fval r"
  using rnds_mono [OF assms(2,5)] rnds_exact [OF assms(3,2)] assms(1,4)
  by (auto simp: rounds_to_def min_def max_def abs_le_iff)

lemma rounds_to_mono:
  assumes "rounds_to r n d" and "rounds_to r' n' d" and "0 < d" and "n \<le> n'"
  shows "fval r \<le> fval r'"
  using rnds_mono [OF assms(3,4)] assms(1,2) by (simp add: rounds_to_def min_def max_def)

lemma rounds_to_fin:
  assumes "rounds_to r n d" and "0 < d" and "srep k" and "0 \<le> k" and "k < OVERFLOW"
    and "\<bar>n\<bar> \<le> k * d"
  shows "is_fin r"
proof -
  have "srep (- k)"
    using assms(3) by (simp add: srep_def)
  have "- k * d \<le> n" and "n \<le> k * d"
    using assms(6) by simp_all
  then have "\<bar>rnds n d\<bar> \<le> k"
    using rnds_mono [OF assms(2), of "- k * d" n] rnds_mono [OF assms(2), of n "k * d"]
      rnds_exact [OF assms(3,2)] rnds_exact [OF \<open>srep (- k)\<close> assms(2)] by simp
  with assms(1,5) show ?thesis
    by (simp add: rounds_to_def)
qed

lemma rounds_to_exact:
  assumes "rounds_to r (k * d) d" and "0 < d" and "srep k" and "\<bar>k\<bar> < OVERFLOW"
  shows "fval r = k" and "is_fin r"
  using assms rnds_exact [OF assms(3,2)] by (auto simp: rounds_to_def)

subsection \<open>The operations round their exact results\<close>

lemma is_fin_cases: "is_fin a \<Longrightarrow> (\<And>s m. a = FFin s m \<Longrightarrow> P) \<Longrightarrow> P"
  by (cases a) auto

lemma wf_magnitude: "wf_f32 (FFin s m) \<Longrightarrow> 0 \<le> m"
  by (simp add: representable_nonneg)

lemma wf_fval: "wf_f32 a \<Longrightarrow> is_fin a \<Longrightarrow> srep (fval a) \<and> \<bar>fval a\<bar> < OVERFLOW"
  by (cases a) (auto simp: srep_def sval_def representable_nonneg abs_of_nonneg)

lemma sval_sign: "0 \<le> m \<Longrightarrow> sval s m < 0 \<longleftrightarrow> s \<and> m \<noteq> 0"
  by (auto simp: sval_def)

lemma abs_sval [simp]: "0 \<le> m \<Longrightarrow> \<bar>sval s m\<bar> = m"
  by (simp add: sval_def)

lemma sval_mult: "sval s m * sval t n = sval (s \<noteq> t) (m * n)"
  by (simp add: sval_def)

lemma rounds_fadd: "is_fin a \<Longrightarrow> is_fin b \<Longrightarrow> rounds_to (fadd a b) (fval a + fval b) 1"
proof -
  assume "is_fin a" and "is_fin b"
  then obtain s m t n where ab: "a = FFin s m" "b = FFin t n"
    by (metis is_fin_cases)
  let ?v = "sval s m + sval t n"
  show ?thesis
  proof (cases "?v = 0")
    case True
    have "rounds_to (FFin (s \<and> t) 0) 0 1"
      using rounds_to_mk [of 1 0 "s \<and> t"] by (simp add: mk_f32_def)
    with True show ?thesis
      by (simp add: ab Let_def)
  next
    case False
    have "rounds_to (mk_f32 (?v < 0) (rnd \<bar>?v\<bar> 1)) ?v 1"
      by (rule rounds_to_mk) simp_all
    with False show ?thesis
      by (simp add: ab Let_def)
  qed
qed

lemma fval_fneg [simp]: "fval (fneg a) = - fval a"
  by (cases a) (simp_all add: sval_def)

lemma is_fin_fneg [simp]: "is_fin (fneg a) = is_fin a"
  by (cases a) simp_all

lemma wf_fneg [simp]: "wf_f32 (fneg a) = wf_f32 a"
  by (cases a) simp_all

lemma rounds_fsub: "is_fin a \<Longrightarrow> is_fin b \<Longrightarrow> rounds_to (fsub a b) (fval a - fval b) 1"
  using rounds_fadd [of a "fneg b"] by (simp add: fsub_def)

lemma rounds_fmul:
  assumes "is_fin a" and "is_fin b" and "wf_f32 a" and "wf_f32 b"
  shows "rounds_to (fmul a b) (fval a * fval b) UNIT"
proof -
  obtain s m t n where ab: "a = FFin s m" "b = FFin t n"
    using assms by (metis is_fin_cases)
  then have nn: "0 \<le> m" "0 \<le> n"
    using assms wf_magnitude by blast+
  have v: "fval a * fval b = sval (s \<noteq> t) (m * n)"
    by (simp add: ab sval_mult)
  have "rounds_to (mk_f32 (s \<noteq> t) (rnd \<bar>fval a * fval b\<bar> UNIT)) (fval a * fval b) UNIT"
    using nn by (intro rounds_to_mk) (auto simp: v sval_def mult_less_0_iff zero_less_mult_iff split: if_splits)
  then show ?thesis
    using nn by (simp add: ab sval_mult)
qed

lemma rounds_fdiv:
  assumes "is_fin a" and "is_fin b" and "wf_f32 a" and "wf_f32 b" and "fval b \<noteq> 0"
  shows "rounds_to (fdiv a b) (fval a * UNIT * sgn (fval b)) \<bar>fval b\<bar>"
proof -
  obtain s m t n where ab: "a = FFin s m" "b = FFin t n"
    using assms by (metis is_fin_cases)
  then have nn: "0 \<le> m" "0 < n"
    using assms wf_magnitude [of s m] wf_magnitude [of t n] by (auto simp: sval_def split: if_splits)
  have v: "fval a * UNIT * sgn (fval b) = sval (s \<noteq> t) (m * UNIT)"
    using nn by (simp add: ab sval_def)
  have "rounds_to (mk_f32 (s \<noteq> t) (rnd \<bar>sval (s \<noteq> t) (m * UNIT)\<bar> n)) (sval (s \<noteq> t) (m * UNIT)) n"
    using nn by (intro rounds_to_mk) (auto simp: sval_def split: if_splits)
  moreover have "\<bar>fval b\<bar> = n"
    using nn by (simp add: ab)
  ultimately show ?thesis
    using nn unfolding v by (simp add: ab)
qed

lemma rounds_int_to_f32: "rounds_to (int_to_f32 i) (i * UNIT) 1"
  using rounds_to_mk [of 1 "i * UNIT" "i < 0"] by (simp add: int_to_f32_def abs_mult)

lemma rounds_flit: "0 < d \<Longrightarrow> 0 \<le> n \<Longrightarrow> rounds_to (flit n d) (n * UNIT) d"
  using rounds_to_mk [of d "n * UNIT" False] by (simp add: flit_def abs_mult)

lemma rounds_to_wf: "rounds_to r n d \<Longrightarrow> wf_f32 r"
  by (simp add: rounds_to_def)

lemma rounds_to_not_NaN: "rounds_to r n d \<Longrightarrow> r \<noteq> FNaN"
  by (simp add: rounds_to_def)

lemma is_fin_not_NaN: "is_fin a \<Longrightarrow> a \<noteq> FNaN"
  by (cases a) simp_all

text \<open>Small integers are exact floats.\<close>

lemma srep_int: "\<bar>i\<bar> \<le> 2 ^ 24 \<Longrightarrow> srep (i * 2 ^ s)"
proof -
  assume "\<bar>i\<bar> \<le> 2 ^ 24"
  then consider "\<bar>i\<bar> < 2 ^ 24" | "\<bar>i\<bar> = 2 ^ 24" by linarith
  then show ?thesis
  proof cases
    case 1
    then show ?thesis
      using representable_shift [of "\<bar>i\<bar>" s] by (simp add: srep_def abs_mult)
  next
    case 2
    then have "\<bar>i * 2 ^ s\<bar> = 2 ^ (24 + s)"
      by (simp add: abs_mult power_add)
    then show ?thesis
      unfolding srep_def by (simp only: representable_power)
  qed
qed

lemma int_to_f32_exact:
  assumes "\<bar>i\<bar> \<le> 2 ^ 24"
  shows "fval (int_to_f32 i) = i * UNIT" and "is_fin (int_to_f32 i)" and "wf_f32 (int_to_f32 i)"
proof -
  have r: "rounds_to (int_to_f32 i) (i * UNIT * 1) 1"
    using rounds_int_to_f32 by simp
  have k: "srep (i * UNIT)" "\<bar>i * UNIT\<bar> < OVERFLOW"
    using assms srep_int [OF assms, of 149] by (simp_all add: abs_mult)
  show "fval (int_to_f32 i) = i * UNIT" and "is_fin (int_to_f32 i)"
    using rounds_to_exact [OF r _ k] by simp_all
  show "wf_f32 (int_to_f32 i)"
    using r by (rule rounds_to_wf)
qed

subsection \<open>Magnitude bounds\<close>

text \<open>A finite float of magnitude at most the integer \<open>n\<close>.\<close>

definition bnd :: "f32 \<Rightarrow> int \<Rightarrow> bool" where
  "bnd a n \<longleftrightarrow> is_fin a \<and> wf_f32 a \<and> \<bar>fval a\<bar> \<le> n * UNIT"

lemma bnd_mono: "bnd a n \<Longrightarrow> n \<le> k \<Longrightarrow> bnd a k"
proof -
  assume "bnd a n" and "n \<le> k"
  moreover from this(2) have "n * UNIT \<le> k * UNIT"
    by (intro mult_right_mono) simp_all
  ultimately show ?thesis
    by (auto simp: bnd_def)
qed

lemma bnd_nonneg: "bnd a n \<Longrightarrow> 0 \<le> n"
proof -
  assume "bnd a n"
  then have "0 \<le> n * UNIT"
    unfolding bnd_def using abs_ge_zero order_trans by blast
  then show ?thesis
    by (simp add: zero_le_mult_iff)
qed

lemma bnd_fin: "bnd a n \<Longrightarrow> is_fin a"
  by (simp add: bnd_def)

lemma rounds_to_bnd:
  assumes "rounds_to r x d" and "0 < d" and "\<bar>x\<bar> \<le> n * UNIT * d" and "n \<le> 2 ^ 24"
  shows "bnd r n"
proof -
  have nn: "0 \<le> n"
  proof (rule ccontr)
    assume "\<not> 0 \<le> n"
    then have "n * UNIT * d < 0"
      using assms(2) by (simp add: mult_less_0_iff)
    then show False
      using assms(3) by linarith
  qed
  then have k: "srep (n * UNIT)" "srep (- (n * UNIT))" "\<bar>n * UNIT\<bar> \<le> OVERFLOW" "n * UNIT < OVERFLOW"
    using assms(4) srep_int [of n 149] srep_int [of "- n" 149] by simp_all
  have x: "x \<le> n * UNIT * d" "- (n * UNIT) * d \<le> x"
    using assms(3) by (simp_all add: abs_le_iff minus_le_iff)
  have "fval r \<le> n * UNIT" and "- (n * UNIT) \<le> fval r"
    using rounds_to_le [OF assms(1,2) k(1,3) x(1)] rounds_to_ge [OF assms(1,2) k(2) _ x(2)] k(3)
    by simp_all
  moreover have "is_fin r"
    using rounds_to_fin [OF assms(1,2) k(1) _ k(4) assms(3)] nn by simp
  ultimately show ?thesis
    using assms(1) by (auto simp: bnd_def rounds_to_wf)
qed

lemma bnd_fadd:
  assumes "bnd a n" and "bnd b k" and "n + k \<le> 2 ^ 24"
  shows "bnd (fadd a b) (n + k)"
proof (rule rounds_to_bnd [OF rounds_fadd])
  show "\<bar>fval a + fval b\<bar> \<le> (n + k) * UNIT * 1"
    using assms abs_triangle_ineq [of "fval a" "fval b"] by (simp add: bnd_def algebra_simps)
qed (use assms in \<open>simp_all add: bnd_def\<close>)

lemma bnd_fneg [simp]: "bnd (fneg a) n = bnd a n"
  by (simp add: bnd_def)

lemma bnd_fsub: "bnd a n \<Longrightarrow> bnd b k \<Longrightarrow> n + k \<le> 2 ^ 24 \<Longrightarrow> bnd (fsub a b) (n + k)"
  unfolding fsub_def by (rule bnd_fadd) simp_all

lemma bnd_fmul:
  assumes "bnd a n" and "bnd b k" and "n * k \<le> 2 ^ 24"
  shows "bnd (fmul a b) (n * k)"
proof (rule rounds_to_bnd [OF rounds_fmul])
  have "\<bar>fval a\<bar> * \<bar>fval b\<bar> \<le> (n * UNIT) * (k * UNIT)"
    using assms bnd_nonneg by (intro mult_mono) (auto simp: bnd_def)
  then show "\<bar>fval a * fval b\<bar> \<le> n * k * UNIT * UNIT"
    by (simp add: abs_mult mult_ac)
qed (use assms in \<open>simp_all add: bnd_def\<close>)

text \<open>Division by something at least \<open>1 / c\<close>.\<close>

lemma bnd_fdiv:
  assumes "bnd a n" and "is_fin b" and "wf_f32 b" and "UNIT \<le> c * fval b" and "0 < c"
    and "n * c \<le> 2 ^ 24"
  shows "bnd (fdiv a b) (n * c)"
proof -
  have pos: "0 < fval b"
  proof (rule ccontr)
    assume "\<not> 0 < fval b"
    then have "c * fval b \<le> 0"
      using assms(5) by (simp add: mult_le_0_iff)
    moreover have "(0 :: int) < UNIT"
      by simp
    ultimately show False
      using assms(4) by linarith
  qed
  have "\<bar>fval a\<bar> * UNIT \<le> (n * UNIT) * (c * fval b)"
    using assms bnd_nonneg [OF assms(1)] by (intro mult_mono) (auto simp: bnd_def)
  then have "\<bar>fval a * UNIT * sgn (fval b)\<bar> \<le> n * c * UNIT * \<bar>fval b\<bar>"
    using pos by (simp add: abs_mult mult_ac)
  then show ?thesis
    using assms pos by (intro rounds_to_bnd [OF rounds_fdiv]) (simp_all add: bnd_def)
qed

lemma bnd_ffabs [simp]: "bnd (ffabs a) n = bnd a n"
  by (cases a) (auto simp: bnd_def sval_def)

lemma bnd_int: "\<bar>i\<bar> \<le> 2 ^ 24 \<Longrightarrow> bnd (int_to_f32 i) \<bar>i\<bar>"
  using int_to_f32_exact [of i] by (simp add: bnd_def abs_mult)

lemma bnd_flit: "0 < d \<Longrightarrow> 0 \<le> x \<Longrightarrow> x \<le> n * d \<Longrightarrow> n \<le> 2 ^ 24 \<Longrightarrow> bnd (flit x d) n"
  by (rule rounds_to_bnd [OF rounds_flit]) (simp_all add: abs_mult)

lemma bnd_fzero [simp]: "bnd fzero n \<longleftrightarrow> 0 \<le> n"
  by (simp add: bnd_def fzero_def representable_small sval_def)

subsection \<open>Conversion to an integer\<close>

lemma sval_abs_floor:
  assumes "0 \<le> m" and "0 < d"
  shows "sval s \<bar>sval s m div d\<bar> = sval s m div d"
    and "sval s \<bar>- (- sval s m div d)\<bar> = - (- sval s m div d)"
proof -
  have "- m div d \<le> 0"
    using assms zdiv_mono1 [of "- m" 0 d] by simp
  then show "sval s \<bar>sval s m div d\<bar> = sval s m div d"
    and "sval s \<bar>- (- sval s m div d)\<bar> = - (- sval s m div d)"
    using assms by (simp_all add: sval_def pos_imp_zdiv_nonneg_iff)
qed

lemma floor_to_int:
  assumes "is_fin a" and "wf_f32 a"
  shows "f32_to_int (ffloor a) = i32 (fval a div UNIT)"
proof -
  obtain s m where a: "a = FFin s m"
    using assms(1) by (rule is_fin_cases)
  then have "0 \<le> m"
    using assms(2) wf_magnitude by simp
  then show ?thesis
    using sval_abs_floor(1) [of m UNIT s] by (simp add: a del: power_numeral)
qed

lemma ceil_to_int:
  assumes "is_fin a" and "wf_f32 a"
  shows "f32_to_int (fceil a) = i32 (- (- fval a div UNIT))"
proof -
  obtain s m where a: "a = FFin s m"
    using assms(1) by (rule is_fin_cases)
  then have "0 \<le> m"
    using assms(2) wf_magnitude by simp
  then show ?thesis
    using sval_abs_floor(2) [of m UNIT s] by (simp add: a del: power_numeral)
qed

lemma bnd_floor_int:
  assumes "bnd a n" and "n \<le> 2 ^ 24"
  shows "f32_to_int (ffloor a) = Some (fval a div UNIT)" and "\<bar>fval a div UNIT\<bar> \<le> n"
    and "f32_to_int (fceil a) = Some (- (- fval a div UNIT))" and "\<bar>- (- fval a div UNIT)\<bar> \<le> n"
proof -
  have div: "- n \<le> v div UNIT \<and> v div UNIT \<le> n" if "\<bar>v\<bar> \<le> n * UNIT" for v
    using that le_div_int_iff [of UNIT "- n" v] zdiv_mono1 [of v "n * UNIT" UNIT]
    by (simp add: abs_le_iff minus_le_iff del: power_numeral)
  have n: "n \<le> 16777216"
    using assms(2) by simp
  have v: "\<bar>fval a\<bar> \<le> n * UNIT" "\<bar>- fval a\<bar> \<le> n * UNIT" and fin: "is_fin a" "wf_f32 a"
    using assms(1) by (simp_all add: bnd_def)
  show lo: "\<bar>fval a div UNIT\<bar> \<le> n" and hi: "\<bar>- (- fval a div UNIT)\<bar> \<le> n"
    using div [OF v(1)] div [OF v(2)] by (simp_all add: abs_le_iff minus_le_iff)
  show "f32_to_int (ffloor a) = Some (fval a div UNIT)"
    using lo n by (simp add: floor_to_int [OF fin] in_i32_def abs_le_iff del: power_numeral)
  show "f32_to_int (fceil a) = Some (- (- fval a div UNIT))"
    using hi n by (simp add: ceil_to_int [OF fin] in_i32_def abs_le_iff del: power_numeral)
qed

subsection \<open>Evaluation\<close>

text \<open>Unfolding these evaluates float terms on numerals; the congruence rules keep the
  simplifier out of the continuations until their argument is a value.\<close>

lemmas float_eval = i32_def in_i32_def rnd_def excess_bits.simps rne_def mk_f32_def sval_def flit_def
  fsub_def int_to_f32_def fzero_def Let_def flt_def fle_def feq_def fmax_def

lemma bind_weak_cong: "m = m' \<Longrightarrow> Option.bind m f = Option.bind m' f"
  by simp

lemmas eval_cong = bind_weak_cong let_weak_cong option.case_cong_weak

end
