(* ===== verification/TileMap.thy ===== *)
theory TileMap
  imports Float32
begin

text \<open>
  \<open>SimpleServer/Map.h\<close> and \<open>Map.cpp\<close>: the tile map the physics runs on. Three layers of
  cells are hash sets of packed 64-bit cell keys; a cell \<open>(cx, cy)\<close> covers
  \<open>[cx * cellSizeX, (cx+1) * cellSizeX) \<times> [cy * cellSizeY, (cy+1) * cellSizeY)\<close>.
\<close>

subsection \<open>Cell keys\<close>

text \<open>\<open>(static_cast<int64_t>(cy) << 32) | static_cast<uint32_t>(cx)\<close>\<close>

definition PackCell :: "int \<Rightarrow> int \<Rightarrow> u64" where
  "PackCell cx cy = or (push_bit 32 (word_of_int cy)) (ucast (word_of_int cx :: u32))"

subsection \<open>The map\<close>

record tilemap =
  solid :: "u64 set"
  ladder :: "u64 set"
  floatingGround :: "u64 set"
  cellSizeX :: f32
  cellSizeY :: f32
  loaded :: bool

definition Map_new :: tilemap where
  "Map_new = \<lparr>solid = {}, ladder = {}, floatingGround = {},
     cellSizeX = flit 1 1, cellSizeY = flit 1 1, loaded = False\<rparr>"

definition WorldToCell :: "f32 \<Rightarrow> f32 \<Rightarrow> int option" where
  "WorldToCell world cellSize = f32_to_int (ffloor (fdiv world cellSize))"

text \<open>The faces of a cell. \<open>cy + 1\<close> is an \<open>int\<close> addition; the product is in \<open>float\<close>.\<close>

definition CellTopY :: "tilemap \<Rightarrow> int \<Rightarrow> f32 option" where
  "CellTopY m cy = do { cy1 \<leftarrow> i32 (cy + 1); Some (fmul (int_to_f32 cy1) (cellSizeY m)) }"

definition CellBottomY :: "tilemap \<Rightarrow> int \<Rightarrow> f32" where
  "CellBottomY m cy = fmul (int_to_f32 cy) (cellSizeY m)"

definition CellRightX :: "tilemap \<Rightarrow> int \<Rightarrow> f32 option" where
  "CellRightX m cx = do { cx1 \<leftarrow> i32 (cx + 1); Some (fmul (int_to_f32 cx1) (cellSizeX m)) }"

definition CellLeftX :: "tilemap \<Rightarrow> int \<Rightarrow> f32" where
  "CellLeftX m cx = fmul (int_to_f32 cx) (cellSizeX m)"

definition IsSolid :: "tilemap \<Rightarrow> int \<Rightarrow> int \<Rightarrow> bool" where
  "IsSolid m cx cy \<longleftrightarrow> PackCell cx cy \<in> solid m"

definition IsLadder :: "tilemap \<Rightarrow> int \<Rightarrow> int \<Rightarrow> bool" where
  "IsLadder m cx cy \<longleftrightarrow> PackCell cx cy \<in> ladder m"

definition IsFloatingGround :: "tilemap \<Rightarrow> int \<Rightarrow> int \<Rightarrow> bool" where
  "IsFloatingGround m cx cy \<longleftrightarrow> PackCell cx cy \<in> floatingGround m"

subsection \<open>Loading\<close>

text \<open>
  \<open>Map::Load\<close> reads its input through nlohmann::json, which is not part of the repository:
  the calls it makes are the fields of \<open>json_api\<close>. \<open>jparse\<close> is \<open>file >> j\<close>
  (\<^term>\<open>None\<close>: a parse error, which is caught); the \<open>value\<close> lookups with a default give
  \<^term>\<open>None\<close> where the library throws a type error (the receiver is not an object, or the
  entry has the wrong type), which nothing catches.
\<close>

record 'j json_api =
  jparse :: "byte list \<Rightarrow> 'j option"
  jcontains :: "'j \<Rightarrow> string \<Rightarrow> bool"
  jget :: "'j \<Rightarrow> string \<Rightarrow> 'j"
  jis_array :: "'j \<Rightarrow> bool"
  jelements :: "'j \<Rightarrow> 'j list"
  jvalue_string :: "'j \<Rightarrow> string \<Rightarrow> string \<Rightarrow> string option"
  jvalue_float :: "'j \<Rightarrow> string \<Rightarrow> f32 \<Rightarrow> f32 option"
  jvalue_int :: "'j \<Rightarrow> string \<Rightarrow> int \<Rightarrow> int option"

text \<open>The loop over a layer's tiles inserts into the layer's set.\<close>

fun load_tiles :: "'j json_api \<Rightarrow> 'j list \<Rightarrow> u64 set \<Rightarrow> u64 set option" where
  "load_tiles J [] target = Some target"
| "load_tiles J (tile # tiles) target = do {
     cx \<leftarrow> jvalue_int J tile ''x'' 0;
     cy \<leftarrow> jvalue_int J tile ''y'' 0;
     load_tiles J tiles (insert (PackCell cx cy) target)
   }"

text \<open>The cell size is read from a layer as long as it is still 1 by 1.\<close>

definition load_cell_size :: "'j json_api \<Rightarrow> 'j \<Rightarrow> tilemap \<Rightarrow> tilemap option" where
  "load_cell_size J layer m =
     (if feq (cellSizeX m) (flit 1 1) \<and> feq (cellSizeY m) (flit 1 1)
      then do {
        sx \<leftarrow> jvalue_float J layer ''cellSizeX'' (flit 1 1);
        sy \<leftarrow> jvalue_float J layer ''cellSizeY'' (flit 1 1);
        Some (m\<lparr>cellSizeX := sx, cellSizeY := sy\<rparr>)
      }
      else Some m)"

definition load_layer :: "'j json_api \<Rightarrow> 'j \<Rightarrow> tilemap \<Rightarrow> tilemap option" where
  "load_layer J layer m = do {
     nm \<leftarrow> jvalue_string J layer ''name'' '''';
     m \<leftarrow> load_cell_size J layer m;
     let isGround = (nm = ''Ground'');
     let isLadder = (nm = ''Ladder'');
     let isFloating = (nm = ''Floating Ground'');
     if \<not> isGround \<and> \<not> isLadder \<and> \<not> isFloating then Some m
     else if \<not> jcontains J layer ''tiles'' \<or> \<not> jis_array J (jget J layer ''tiles'') then Some m
     else
       let tiles = jelements J (jget J layer ''tiles'') in
       if isGround then do { t \<leftarrow> load_tiles J tiles (solid m); Some (m\<lparr>solid := t\<rparr>) }
       else if isLadder then do { t \<leftarrow> load_tiles J tiles (ladder m); Some (m\<lparr>ladder := t\<rparr>) }
       else do { t \<leftarrow> load_tiles J tiles (floatingGround m); Some (m\<lparr>floatingGround := t\<rparr>) }
   }"

fun load_layers :: "'j json_api \<Rightarrow> 'j list \<Rightarrow> tilemap \<Rightarrow> tilemap option" where
  "load_layers J [] m = Some m"
| "load_layers J (layer # layers) m = do { m \<leftarrow> load_layer J layer m; load_layers J layers m }"

text \<open>\<open>Map::Load\<close>: the result and the map afterwards; \<open>file\<close> is the contents, if it opens.\<close>

definition Load :: "'j json_api \<Rightarrow> byte list option \<Rightarrow> tilemap \<Rightarrow> (bool \<times> tilemap) option" where
  "Load J file m =
     (case file of None \<Rightarrow> Some (False, m)
      | Some contents \<Rightarrow>
          (case jparse J contents of None \<Rightarrow> Some (False, m)
           | Some j \<Rightarrow>
               if \<not> jcontains J j ''layers'' \<or> \<not> jis_array J (jget J j ''layers'') then Some (False, m)
               else do {
                 m \<leftarrow> load_layers J (jelements J (jget J j ''layers''))
                        (m\<lparr>solid := {}, ladder := {}, floatingGround := {}\<rparr>);
                 Some (True, m\<lparr>loaded := True\<rparr>)
               }))"

subsection \<open>Distinct cells have distinct keys\<close>

lemma PackCell_low: "ucast (PackCell cx cy) = (word_of_int cx :: u32)"
  unfolding PackCell_def
  by (rule bit_word_eqI) (auto simp: bit_simps)

lemma PackCell_high: "ucast (drop_bit 32 (PackCell cx cy)) = (word_of_int cy :: u32)"
  unfolding PackCell_def
  by (rule bit_word_eqI) (auto simp: bit_simps dest: bit_imp_le_length)

lemma word_of_int_inj_i32:
  assumes "in_i32 a" and "in_i32 b" and "(word_of_int a :: u32) = word_of_int b"
  shows "a = b"
proof -
  have "sint (word_of_int c :: u32) = c" if "in_i32 c" for c
    using that by (simp add: in_i32_def signed_of_int signed_take_bit_int_eq_self)
  then show ?thesis
    using assms by metis
qed

lemma PackCell_inject:
  assumes "in_i32 cx" and "in_i32 cy" and "in_i32 cx'" and "in_i32 cy'"
  shows "PackCell cx cy = PackCell cx' cy' \<longleftrightarrow> cx = cx' \<and> cy = cy'"
  using PackCell_low [of cx cy] PackCell_low [of cx' cy'] PackCell_high [of cx cy]
    PackCell_high [of cx' cy'] word_of_int_inj_i32 assms by metis

subsection \<open>What a load puts into the layers\<close>

text \<open>The keys of a layer's tiles, and of all layers of a given name.\<close>

definition tile_cells :: "'j json_api \<Rightarrow> 'j list \<Rightarrow> u64 set" where
  "tile_cells J tiles =
     (\<lambda>t. PackCell (the (jvalue_int J t ''x'' 0)) (the (jvalue_int J t ''y'' 0))) ` set tiles"

definition layer_cells :: "'j json_api \<Rightarrow> string \<Rightarrow> 'j \<Rightarrow> u64 set" where
  "layer_cells J nm layer =
     (if jvalue_string J layer ''name'' '''' = Some nm \<and> jcontains J layer ''tiles''
         \<and> jis_array J (jget J layer ''tiles'')
      then tile_cells J (jelements J (jget J layer ''tiles'')) else {})"

lemma load_tiles_cells: "load_tiles J tiles A = Some B \<Longrightarrow> B = A \<union> tile_cells J tiles"
proof (induction tiles arbitrary: A)
  case (Cons t ts)
  then obtain cx cy where "jvalue_int J t ''x'' 0 = Some cx" and "jvalue_int J t ''y'' 0 = Some cy"
    and "B = insert (PackCell cx cy) A \<union> tile_cells J ts"
    by auto
  then show ?case
    by (simp add: tile_cells_def)
qed (simp add: tile_cells_def)

lemma load_cell_size_frame:
  "load_cell_size J layer m = Some m' \<Longrightarrow> solid m' = solid m \<and> ladder m' = ladder m
     \<and> floatingGround m' = floatingGround m \<and> loaded m' = loaded m"
  by (auto simp: load_cell_size_def split: if_splits)

text \<open>One layer goes into the one set its name selects.\<close>

lemma load_layer_cells:
  assumes "load_layer J layer m = Some m'"
  shows "solid m' = solid m \<union> layer_cells J ''Ground'' layer"
    and "ladder m' = ladder m \<union> layer_cells J ''Ladder'' layer"
    and "floatingGround m' = floatingGround m \<union> layer_cells J ''Floating Ground'' layer"
    and "loaded m' = loaded m"
proof -
  obtain nm m1 where nm: "jvalue_string J layer ''name'' '''' = Some nm"
    and m1: "load_cell_size J layer m = Some m1"
    using assms by (auto simp: load_layer_def)
  note frame = load_cell_size_frame [OF m1] and cells = load_tiles_cells [of J]
  show "solid m' = solid m \<union> layer_cells J ''Ground'' layer"
    using assms frame
    by (auto simp: load_layer_def layer_cells_def nm m1 Let_def dest: cells split: if_splits)
  show "ladder m' = ladder m \<union> layer_cells J ''Ladder'' layer"
    using assms frame
    by (auto simp: load_layer_def layer_cells_def nm m1 Let_def dest: cells split: if_splits)
  show "floatingGround m' = floatingGround m \<union> layer_cells J ''Floating Ground'' layer"
    using assms frame
    by (auto simp: load_layer_def layer_cells_def nm m1 Let_def dest: cells split: if_splits)
  show "loaded m' = loaded m"
    using assms frame by (auto simp: load_layer_def nm m1 Let_def split: if_splits)
qed

lemma load_layers_cells:
  assumes "load_layers J layers m = Some m'"
  shows "solid m' = solid m \<union> (\<Union>l\<in>set layers. layer_cells J ''Ground'' l)"
    and "ladder m' = ladder m \<union> (\<Union>l\<in>set layers. layer_cells J ''Ladder'' l)"
    and "floatingGround m' = floatingGround m \<union> (\<Union>l\<in>set layers. layer_cells J ''Floating Ground'' l)"
  using assms
proof (induction layers arbitrary: m)
  case (Cons l ls)
  {
    case 1
    then obtain m1 where m1: "load_layer J l m = Some m1" and "load_layers J ls m1 = Some m'"
      by auto
    then show ?case using Cons.IH(1) load_layer_cells(1) [OF m1] by (simp add: Un_assoc)
  next
    case 2
    then obtain m1 where m1: "load_layer J l m = Some m1" and "load_layers J ls m1 = Some m'"
      by auto
    then show ?case using Cons.IH(2) load_layer_cells(2) [OF m1] by (simp add: Un_assoc)
  next
    case 3
    then obtain m1 where m1: "load_layer J l m = Some m1" and "load_layers J ls m1 = Some m'"
      by auto
    then show ?case using Cons.IH(3) load_layer_cells(3) [OF m1] by (simp add: Un_assoc)
  }
qed simp_all

text \<open>Whether a layer of the given name lists a tile.\<close>

definition listed :: "'j json_api \<Rightarrow> string \<Rightarrow> 'j \<Rightarrow> int \<Rightarrow> int \<Rightarrow> bool" where
  "listed J nm layer cx cy \<longleftrightarrow>
     jvalue_string J layer ''name'' '''' = Some nm \<and> jcontains J layer ''tiles'' \<and> jis_array J (jget J layer ''tiles'')
     \<and> (\<exists>t\<in>set (jelements J (jget J layer ''tiles'')).
           jvalue_int J t ''x'' 0 = Some cx \<and> jvalue_int J t ''y'' 0 = Some cy)"

definition json_ints_ok :: "'j json_api \<Rightarrow> bool" where
  "json_ints_ok J \<longleftrightarrow> (\<forall>t k i. jvalue_int J t k 0 = Some i \<longrightarrow> in_i32 i)"

lemma load_tiles_defined:
  "load_tiles J tiles A = Some B \<Longrightarrow> t \<in> set tiles \<Longrightarrow>
     jvalue_int J t ''x'' 0 \<noteq> None \<and> jvalue_int J t ''y'' 0 \<noteq> None"
  by (induction tiles arbitrary: A) auto

lemma load_layer_tiles_defined:
  assumes "load_layer J layer m = Some m'" and "nm \<in> {''Ground'', ''Ladder'', ''Floating Ground''}"
    and "jvalue_string J layer ''name'' '''' = Some nm"
    and "jcontains J layer ''tiles''" and "jis_array J (jget J layer ''tiles'')"
    and "t \<in> set (jelements J (jget J layer ''tiles''))"
  shows "jvalue_int J t ''x'' 0 \<noteq> None \<and> jvalue_int J t ''y'' 0 \<noteq> None"
proof -
  obtain A B where "load_tiles J (jelements J (jget J layer ''tiles'')) A = Some B"
    using assms(1-5) by (fastforce simp: load_layer_def Let_def split: if_splits)
  then show ?thesis
    using assms(6) by (rule load_tiles_defined)
qed

lemma layer_cells_listed:
  assumes "load_layer J layer m = Some m'" and "nm \<in> {''Ground'', ''Ladder'', ''Floating Ground''}"
    and "json_ints_ok J" and "in_i32 cx" and "in_i32 cy"
  shows "PackCell cx cy \<in> layer_cells J nm layer \<longleftrightarrow> listed J nm layer cx cy"
proof (cases "jvalue_string J layer ''name'' '''' = Some nm \<and> jcontains J layer ''tiles''
    \<and> jis_array J (jget J layer ''tiles'')")
  case True
  let ?ts = "set (jelements J (jget J layer ''tiles''))"
  have "PackCell (the (jvalue_int J t ''x'' 0)) (the (jvalue_int J t ''y'' 0)) = PackCell cx cy
      \<longleftrightarrow> jvalue_int J t ''x'' 0 = Some cx \<and> jvalue_int J t ''y'' 0 = Some cy" if t: "t \<in> ?ts" for t
  proof -
    obtain x y where xy: "jvalue_int J t ''x'' 0 = Some x" "jvalue_int J t ''y'' 0 = Some y"
      using load_layer_tiles_defined [OF assms(1,2) _ _ _ t] True by auto
    then have "in_i32 x" "in_i32 y"
      using assms(3) by (auto simp: json_ints_ok_def)
    then show ?thesis
      using xy assms(4,5) by (auto simp: PackCell_inject)
  qed
  then have "PackCell cx cy \<in> tile_cells J (jelements J (jget J layer ''tiles''))
      \<longleftrightarrow> (\<exists>t\<in>?ts. jvalue_int J t ''x'' 0 = Some cx \<and> jvalue_int J t ''y'' 0 = Some cy)"
    unfolding tile_cells_def image_iff by (intro bex_cong refl) metis
  then show ?thesis
    using True by (simp add: layer_cells_def listed_def)
next
  case False
  then show ?thesis by (auto simp: layer_cells_def listed_def)
qed

lemma load_layers_each:
  "load_layers J layers m = Some m' \<Longrightarrow> l \<in> set layers \<Longrightarrow> \<exists>a b. load_layer J l a = Some b"
  by (induction layers arbitrary: m) auto

subsection \<open>Properties\<close>

text \<open>C27: After a successful load each cell lookup answers from the file: the cell is solid (a ladder, floating ground) exactly if some layer named Ground (Ladder, Floating Ground) lists a tile with those coordinates; nothing of a previously loaded map is left, and cells with different coordinates never share a key. The one hypothesis on the JSON library is that its \<open>int\<close> lookups give values of type \<open>int\<close>.\<close>

lemma load_answers_from_file:
  assumes "Load J (Some file) m = Some (True, m')" and "jparse J file = Some j"
    and "json_ints_ok J" and "in_i32 cx" and "in_i32 cy"
  shows "loaded m'
    \<and> (IsSolid m' cx cy \<longleftrightarrow> (\<exists>l\<in>set (jelements J (jget J j ''layers'')). listed J ''Ground'' l cx cy))
    \<and> (IsLadder m' cx cy \<longleftrightarrow> (\<exists>l\<in>set (jelements J (jget J j ''layers'')). listed J ''Ladder'' l cx cy))
    \<and> (IsFloatingGround m' cx cy \<longleftrightarrow>
         (\<exists>l\<in>set (jelements J (jget J j ''layers'')). listed J ''Floating Ground'' l cx cy))"
proof -
  let ?ls = "jelements J (jget J j ''layers'')"
  obtain m1 where m1: "load_layers J ?ls (m\<lparr>solid := {}, ladder := {}, floatingGround := {}\<rparr>) = Some m1"
    and m': "m' = m1\<lparr>loaded := True\<rparr>"
    using assms(1,2) by (auto simp: Load_def split: if_splits)
  have cells: "PackCell cx cy \<in> layer_cells J nm l \<longleftrightarrow> listed J nm l cx cy"
    if "l \<in> set ?ls" "nm \<in> {''Ground'', ''Ladder'', ''Floating Ground''}" for l nm
    using load_layers_each [OF m1 that(1)] layer_cells_listed [OF _ that(2) assms(3-5)] by blast
  show ?thesis
    using load_layers_cells [OF m1] cells
    by (auto simp: m' IsSolid_def IsLadder_def IsFloatingGround_def)
qed

text \<open>A document with one Ground layer of one tile, as the library presents it.\<close>

definition demo_json :: "nat json_api" where
  "demo_json = \<lparr>jparse = \<lambda>_. Some 0, jcontains = \<lambda>_ _. True,
     jget = \<lambda>_ k. if k = ''layers'' then 10 else 11, jis_array = \<lambda>_. True,
     jelements = \<lambda>j. if j = 10 then [1] else [2],
     jvalue_string = \<lambda>_ _ _. Some ''Ground'', jvalue_float = \<lambda>_ _ d. Some d,
     jvalue_int = \<lambda>_ k _. Some (if k = ''x'' then 3 else -1)\<rparr>"

lemma load_answers_from_file_witness:
  "\<exists>m'. Load demo_json (Some []) Map_new = Some (True, m') \<and> IsSolid m' 3 (-1) \<and> \<not> IsSolid m' 4 (-1)"
proof -
  have ints: "json_ints_ok demo_json"
    by (simp add: json_ints_ok_def demo_json_def in_i32_def)
  obtain m' where m': "Load demo_json (Some []) Map_new = Some (True, m')"
    by (simp add: Load_def load_layer_def load_cell_size_def demo_json_def Map_new_def Let_def)
  have "jparse demo_json [] = Some 0"
    by (simp add: demo_json_def)
  note load = load_answers_from_file [OF m' this ints]
  show ?thesis
    using m' load [of 3 "-1"] load [of 4 "-1"]
    by (simp add: in_i32_def listed_def demo_json_def)
qed

end
