(* ===== verification/Player.thy ===== *)
theory Player
  imports Float32 "HOL-Library.Sublist"
begin

text \<open>
  \<open>SimpleServer/Player.h\<close> and \<open>Player.cpp\<close>: vectors, input commands, the physics state and
  the player with its bounded input buffer. \<open>MoveDir\<close> is an \<open>enum class : uint8_t\<close>, and the
  server casts unchecked protocol integers to it, so it is a byte with three named values.
\<close>

record Vec2 =
  vecx :: f32
  vecy :: f32

type_synonym MoveDir = byte

definition MoveDir_None :: MoveDir where "MoveDir_None = 0"
definition MoveDir_Left :: MoveDir where "MoveDir_Left = 1"
definition MoveDir_Right :: MoveDir where "MoveDir_Right = 2"

record InputCmd =
  inputSeq :: u32
  deltaTime :: f32
  moveLeft :: bool
  moveRight :: bool
  jump :: bool
  dropThrough :: bool
  faceDir :: MoveDir
  moveUp :: bool
  moveDown :: bool

text \<open>\<open>InputCmd{}\<close>\<close>

definition zero_input :: InputCmd where
  "zero_input = \<lparr>inputSeq = 0, deltaTime = fzero, moveLeft = False, moveRight = False, jump = False,
     dropThrough = False, faceDir = MoveDir_None, moveUp = False, moveDown = False\<rparr>"

record PhysicsState =
  pos :: Vec2
  vel :: Vec2
  dir :: MoveDir
  isMoving :: bool
  isJumping :: bool
  isGrounded :: bool
  isOnLadder :: bool
  isCrouching :: bool
  ladderCenterX :: f32
  ladderMinY :: f32
  ladderMaxY :: f32
  dropThroughTimer :: f32
  lastInputSeq :: u32

definition PhysicsState_new :: PhysicsState where
  "PhysicsState_new = \<lparr>pos = \<lparr>vecx = fzero, vecy = fzero\<rparr>, vel = \<lparr>vecx = fzero, vecy = fzero\<rparr>,
     dir = MoveDir_Right, isMoving = False, isJumping = False, isGrounded = True, isOnLadder = False,
     isCrouching = False, ladderCenterX = fzero, ladderMinY = fzero, ladderMaxY = fzero,
     dropThroughTimer = fzero, lastInputSeq = 0\<rparr>"

record Player =
  playerId :: u64
  playerName :: string
  session :: "sref option"
  entered :: bool
  physState :: PhysicsState
  inputBuffer :: "InputCmd list"

definition Player_new :: "u64 \<Rightarrow> string \<Rightarrow> Player" where
  "Player_new pid nm = \<lparr>playerId = pid, playerName = nm, session = None, entered = False,
     physState = PhysicsState_new, inputBuffer = []\<rparr>"

definition SetName :: "string \<Rightarrow> Player \<Rightarrow> Player" where
  "SetName nm p = p\<lparr>playerName := nm, entered := True\<rparr>"

definition SetSession :: "sref option \<Rightarrow> Player \<Rightarrow> Player" where
  "SetSession s p = p\<lparr>session := s\<rparr>"

definition MAX_INPUT_BUFFER :: nat where "MAX_INPUT_BUFFER = 32"

definition EnqueueInput :: "InputCmd \<Rightarrow> Player \<Rightarrow> Player" where
  "EnqueueInput cmd p =
     (let buf = (if length (inputBuffer p) \<ge> MAX_INPUT_BUFFER then tl (inputBuffer p) else inputBuffer p)
      in p\<lparr>inputBuffer := buf @ [cmd]\<rparr>)"

definition DequeueInput :: "Player \<Rightarrow> InputCmd \<times> Player" where
  "DequeueInput p =
     (case inputBuffer p of [] \<Rightarrow> (zero_input, p)
      | cmd # rest \<Rightarrow> (cmd, p\<lparr>inputBuffer := rest\<rparr>))"

definition HasInput :: "Player \<Rightarrow> bool" where
  "HasInput p \<longleftrightarrow> inputBuffer p \<noteq> []"

text \<open>
  One call on a queue: enqueue an element, or dequeue if there is one (the elements that came out
  are collected in order).
\<close>

definition fifo_op :: "('a \<Rightarrow> 'q \<Rightarrow> 'q) \<Rightarrow> ('q \<Rightarrow> 'a \<times> 'q) \<Rightarrow> ('q \<Rightarrow> bool)
    \<Rightarrow> 'a option \<Rightarrow> 'a list \<times> 'q \<Rightarrow> 'a list \<times> 'q" where
  "fifo_op enq deq has c r = (case c of Some x \<Rightarrow> (fst r, enq x (snd r))
     | None \<Rightarrow> if has (snd r) then (fst r @ [fst (deq (snd r))], snd (deq (snd r))) else r)"

fun arrivals :: "'a option list \<Rightarrow> 'a list" where
  "arrivals [] = []"
| "arrivals (Some x # cs) = x # arrivals cs"
| "arrivals (None # cs) = arrivals cs"

lemma drop_subseq: "subseq (drop n xs) xs"
  by (metis append_take_drop_id list_emb_append2 subseq_order.refl)

subsection \<open>A bounded queue that drops its oldest element\<close>

text \<open>
  The contract of the input buffer as the handlers (who enqueue) and the game loop (which
  dequeues) rely on it.
\<close>

locale bounded_fifo =
  fixes enq :: "'a \<Rightarrow> 'q \<Rightarrow> 'q"
    and deq :: "'q \<Rightarrow> 'a \<times> 'q"
    and has :: "'q \<Rightarrow> bool"
    and items :: "'q \<Rightarrow> 'a list"
    and cap :: nat
  assumes cap_pos: "0 < cap"
    and items_enq: "length (items q) \<le> cap \<Longrightarrow> items (enq x q) = drop (Suc (length (items q)) - cap) (items q @ [x])"
    and has_iff: "has q \<longleftrightarrow> items q \<noteq> []"
    and deq_hd: "has q \<Longrightarrow> fst (deq q) = hd (items q)"
    and deq_tl: "has q \<Longrightarrow> items (snd (deq q)) = tl (items q)"
begin

lemma enq_bounded: "length (items q) \<le> cap \<Longrightarrow> length (items (enq x q)) \<le> cap"
  using items_enq by simp

lemma enq_last: "length (items q) \<le> cap \<Longrightarrow> last (items (enq x q)) = x \<and> items (enq x q) \<noteq> []"
  using items_enq [of q x] cap_pos by simp

lemma items_fold_enq:
  "length (items q) \<le> cap \<Longrightarrow> items (fold enq xs q) = drop (length (items q) + length xs - cap) (items q @ xs)"
proof (induction xs arbitrary: q)
  case (Cons x xs)
  have "items (fold enq xs (enq x q))
      = drop (length (items (enq x q)) + length xs - cap) (items (enq x q) @ xs)"
    using enq_bounded Cons by simp
  also have "\<dots> = drop (length (items q) + length (x # xs) - cap) (items q @ x # xs)"
  proof (cases "length (items q) < cap")
    case True
    then have "items (enq x q) = items q @ [x]"
      using items_enq [OF Cons.prems, of x] by simp
    then show ?thesis
      by simp
  next
    case False
    then have "length (items q) = cap" and "items (enq x q) = tl (items q) @ [x]"
      using items_enq [OF Cons.prems, of x] Cons.prems cap_pos by (simp_all add: drop_Suc)
    then show ?thesis
      using cap_pos by (cases "items q") auto
  qed
  finally show ?case by simp
qed simp

lemma ops_in_order:
  "length (items (snd r)) \<le> cap \<Longrightarrow>
     length (items (snd (fold (fifo_op enq deq has) cs r))) \<le> cap
     \<and> subseq (fst (fold (fifo_op enq deq has) cs r) @ items (snd (fold (fifo_op enq deq has) cs r)))
         (fst r @ items (snd r) @ arrivals cs)"
proof (induction cs arbitrary: r)
  case (Cons c cs)
  let ?r = "fifo_op enq deq has c r"
  have len: "length (items (snd ?r)) \<le> cap"
    using Cons.prems enq_bounded deq_tl by (auto simp: fifo_op_def split: option.split)
  have "subseq (fst ?r @ items (snd ?r)) (fst r @ items (snd r) @ arrivals [c])"
  proof (cases c)
    case None
    then show ?thesis
      using deq_hd [of "snd r"] deq_tl [of "snd r"] has_iff [of "snd r"]
      by (simp add: fifo_op_def)
  next
    case (Some x)
    then show ?thesis
      using items_enq [OF Cons.prems, of x]
      by (simp add: fifo_op_def list_emb_append_mono drop_subseq del: drop_append)
  qed
  then have "subseq ((fst ?r @ items (snd ?r)) @ arrivals cs)
      ((fst r @ items (snd r) @ arrivals [c]) @ arrivals cs)"
    by (rule list_emb_append_mono) (rule subseq_order.refl)
  also have "(fst r @ items (snd r) @ arrivals [c]) @ arrivals cs
      = fst r @ items (snd r) @ arrivals (c # cs)"
    by (cases c) simp_all
  finally have mono: "subseq ((fst ?r @ items (snd ?r)) @ arrivals cs) \<dots>" .
  show ?case
    using Cons.IH [OF len] subseq_order.trans [OF _ mono] by simp
qed simp

end

interpretation input_fifo: bounded_fifo EnqueueInput DequeueInput HasInput inputBuffer MAX_INPUT_BUFFER
  by unfold_locales
    (auto simp: EnqueueInput_def DequeueInput_def HasInput_def MAX_INPUT_BUFFER_def Let_def neq_Nil_conv drop_Suc
      split: list.splits)


subsection \<open>Properties\<close>

text \<open>C28: Inputs are bounded and processed in order: over any sequence of arrivals and dequeues on the input buffer of a player, at most 32 inputs wait, and the inputs dequeued so far followed by those still waiting are a subsequence of those that arrived (dropped ones aside, in the order of arrival, none twice).\<close>

lemma inputs_in_order:
  "case fold (fifo_op EnqueueInput DequeueInput HasInput) ops ([], Player_new pid nm) of
     (done, p) \<Rightarrow> length (inputBuffer p) \<le> MAX_INPUT_BUFFER
       \<and> subseq (done @ inputBuffer p) (arrivals ops)"
  using input_fifo.ops_in_order [of "([], Player_new pid nm)" ops]
  by (simp add: Player_new_def case_prod_beta)

text \<open>The oldest inputs go: a burst of commands from a player with an empty buffer leaves exactly the last 32 of them waiting.\<close>

lemma burst_keeps_newest:
  "inputBuffer (fold EnqueueInput cmds (Player_new pid nm)) = drop (length cmds - MAX_INPUT_BUFFER) cmds"
  using input_fifo.items_fold_enq [of "Player_new pid nm" cmds] by (simp add: Player_new_def)

end
