(* ===== verification/Collision.thy ===== *)
theory Collision
  imports TileMap Player
begin

text \<open>
  The tile collision tests of \<open>SimpleServer/GameRoom.cpp\<close>: ground below the feet, ceiling above
  the head, wall at the side, and the vertical extent of a ladder. They read the map only.
\<close>

subsection \<open>Constants\<close>

definition TICK_RATE :: f32 where "TICK_RATE = flit 20 1"
definition CLIENT_TICK_RATE :: f32 where "CLIENT_TICK_RATE = flit 50 1"
definition MOVE_SPEED :: f32 where "MOVE_SPEED = flit 5 1"
definition JUMP_FORCE :: f32 where "JUMP_FORCE = flit 10 1"
definition GRAVITY :: f32 where "GRAVITY = flit 2943 100"
definition GROUND_THRESHOLD :: f32 where "GROUND_THRESHOLD = flit 1 10"
definition MAX_FALL_SPEED :: f32 where "MAX_FALL_SPEED = fneg (flit 15 1)"
definition CLIMB_SPEED :: f32 where "CLIMB_SPEED = flit 3 1"
definition PLAYER_HALF_W :: f32 where "PLAYER_HALF_W = flit 3 10"
definition PLAYER_HALF_H :: f32 where "PLAYER_HALF_H = flit 1 2"

text \<open>Their binary32 values.\<close>

lemma TICK_RATE_val [const_vals]: "TICK_RATE = FFin False 14272476927059598810582859694494951363827466240"
  by (simp add: TICK_RATE_def float_eval)

lemma CLIENT_TICK_RATE_val [const_vals]: "CLIENT_TICK_RATE = FFin False 35681192317648997026457149236237378409568665600"
  by (simp add: CLIENT_TICK_RATE_def float_eval)

lemma MOVE_SPEED_val [const_vals]: "MOVE_SPEED = FFin False 3568119231764899702645714923623737840956866560"
  by (simp add: MOVE_SPEED_def float_eval)

lemma JUMP_FORCE_val [const_vals]: "JUMP_FORCE = FFin False 7136238463529799405291429847247475681913733120"
  by (simp add: JUMP_FORCE_def float_eval)

lemma GRAVITY_val [const_vals]: "GRAVITY = FFin False 21001950015948914479173294657009069688203771904"
  by (simp add: GRAVITY_def float_eval)

lemma GROUND_THRESHOLD_val [const_vals]: "GROUND_THRESHOLD = FFin False 71362385698680390680846996795520405043412992"
  by (simp add: GROUND_THRESHOLD_def float_eval)

lemma MAX_FALL_SPEED_val [const_vals]: "MAX_FALL_SPEED = FFin True 10704357695294699107937144770871213522870599680"
  by (simp add: MAX_FALL_SPEED_def float_eval)

lemma CLIMB_SPEED_val [const_vals]: "CLIMB_SPEED = FFin False 2140871539058939821587428954174242704574119936"
  by (simp add: CLIMB_SPEED_def float_eval)

lemma PLAYER_HALF_W_val [const_vals]: "PLAYER_HALF_W = FFin False 214087162412953155182204482001789456251617280"
  by (simp add: PLAYER_HALF_W_def float_eval)

lemma PLAYER_HALF_H_val [const_vals]: "PLAYER_HALF_H = FFin False 356811923176489970264571492362373784095686656"
  by (simp add: PLAYER_HALF_H_def float_eval)

record GroundResult =
  groundHit :: bool
  groundY :: f32

record CeilResult =
  ceilHit :: bool
  ceilY :: f32

record WallResult =
  wallHit :: bool
  wallX :: f32

subsection \<open>Ground\<close>

text \<open>
  The loop \<open>for (int cx = cxMin; cx <= cxMax; cx++)\<close> over the cells of one row; the state is
  the best top found so far and whether there is one. Incrementing past \<open>INT_MAX\<close> is undefined.
\<close>

function ground_loop ::
  "tilemap \<Rightarrow> bool \<Rightarrow> f32 \<Rightarrow> int \<Rightarrow> int \<Rightarrow> int \<Rightarrow> f32 \<times> bool \<Rightarrow> (f32 \<times> bool) option" where
  "ground_loop m ignoreFloating footY cy cxMax cx (bestGroundY, hit) =
     (if cx \<le> cxMax then do {
        best \<leftarrow>
          (if \<not> IsSolid m cx cy \<and> \<not> (\<not> ignoreFloating \<and> IsFloatingGround m cx cy)
           then Some (bestGroundY, hit)
           else do {
             tileTop \<leftarrow> CellTopY m cy;
             if fgt tileTop (fadd footY GROUND_THRESHOLD) then Some (bestGroundY, hit)
             else if fgt tileTop bestGroundY then Some (tileTop, True)
             else Some (bestGroundY, hit)
           });
        if cx = INT_MAX then None
        else ground_loop m ignoreFloating footY cy cxMax (cx + 1) best
      }
      else Some (bestGroundY, hit))"
  by pat_completeness auto
termination
  by (relation "measure (\<lambda>(m, i, f, cy, cxMax, cx, b). nat (cxMax + 1 - cx))") auto

declare ground_loop.simps [simp del]

definition CheckGround :: "tilemap \<Rightarrow> Vec2 \<Rightarrow> bool \<Rightarrow> GroundResult option" where
  "CheckGround m p ignoreFloating =
     (if \<not> loaded m then
        let FALLBACK_Y = fzero;
            onGround = fle (fsub (vecy p) PLAYER_HALF_H) (fadd FALLBACK_Y GROUND_THRESHOLD)
        in Some \<lparr>groundHit = onGround, groundY = FALLBACK_Y\<rparr>
      else do {
        let csx = cellSizeX m;
        let csy = cellSizeY m;
        let footY = fsub (vecy p) PLAYER_HALF_H;
        cy \<leftarrow> WorldToCell (fsub footY GROUND_THRESHOLD) csy;
        cxMin \<leftarrow> WorldToCell (fadd (fsub (vecx p) PLAYER_HALF_W) (flit 1 100)) csx;
        cxMax \<leftarrow> WorldToCell (fsub (fadd (vecx p) PLAYER_HALF_W) (flit 1 100)) csx;
        (bestGroundY, hit) \<leftarrow>
          ground_loop m ignoreFloating footY cy cxMax cxMin (fneg (flit 1000000000 1), False);
        Some \<lparr>groundHit = hit, groundY = (if hit then bestGroundY else fzero)\<rparr>
      })"

subsection \<open>Ceiling\<close>

function ceil_loop ::
  "tilemap \<Rightarrow> int \<Rightarrow> int \<Rightarrow> int \<Rightarrow> f32 \<times> bool \<Rightarrow> (f32 \<times> bool) option" where
  "ceil_loop m cy cxMax cx (bestCeilY, hit) =
     (if cx \<le> cxMax then
        let best =
          (if \<not> IsSolid m cx cy then (bestCeilY, hit)
           else
             let tileBottom = CellBottomY m cy in
             if flt tileBottom bestCeilY then (tileBottom, True) else (bestCeilY, hit))
        in if cx = INT_MAX then None else ceil_loop m cy cxMax (cx + 1) best
      else Some (bestCeilY, hit))"
  by pat_completeness auto
termination
  by (relation "measure (\<lambda>(m, cy, cxMax, cx, b). nat (cxMax + 1 - cx))") auto

declare ceil_loop.simps [simp del]

definition CheckCeiling :: "tilemap \<Rightarrow> Vec2 \<Rightarrow> CeilResult option" where
  "CheckCeiling m p =
     (if \<not> loaded m then Some \<lparr>ceilHit = False, ceilY = fzero\<rparr>
      else do {
        let csx = cellSizeX m;
        let csy = cellSizeY m;
        let headY = fadd (vecy p) PLAYER_HALF_H;
        cy \<leftarrow> WorldToCell (fadd headY GROUND_THRESHOLD) csy;
        cxMin \<leftarrow> WorldToCell (fadd (fsub (vecx p) PLAYER_HALF_W) (flit 1 100)) csx;
        cxMax \<leftarrow> WorldToCell (fsub (fadd (vecx p) PLAYER_HALF_W) (flit 1 100)) csx;
        (bestCeilY, hit) \<leftarrow> ceil_loop m cy cxMax cxMin (flit 1000000000 1, False);
        Some \<lparr>ceilHit = hit, ceilY = (if hit then bestCeilY else fzero)\<rparr>
      })"

subsection \<open>Walls\<close>

text \<open>The loop over the rows returns at the first solid cell.\<close>

function wall_loop :: "tilemap \<Rightarrow> f32 \<Rightarrow> int \<Rightarrow> int \<Rightarrow> int \<Rightarrow> WallResult option" where
  "wall_loop m moveX cx cyMax cy =
     (if cy \<le> cyMax then
        if \<not> IsSolid m cx cy then (if cy = INT_MAX then None else wall_loop m moveX cx cyMax (cy + 1))
        else do {
          wx \<leftarrow> (if fgt moveX fzero then Some (fsub (CellLeftX m cx) PLAYER_HALF_W)
                else do { r \<leftarrow> CellRightX m cx; Some (fadd r PLAYER_HALF_W) });
          Some \<lparr>wallHit = True, wallX = wx\<rparr>
        }
      else Some \<lparr>wallHit = False, wallX = fzero\<rparr>)"
  by pat_completeness auto
termination
  by (relation "measure (\<lambda>(m, x, cx, cyMax, cy). nat (cyMax + 1 - cy))") auto

declare wall_loop.simps [simp del]

definition CheckWall :: "tilemap \<Rightarrow> Vec2 \<Rightarrow> f32 \<Rightarrow> WallResult option" where
  "CheckWall m p moveX =
     (if \<not> loaded m \<or> feq moveX fzero then Some \<lparr>wallHit = False, wallX = fzero\<rparr>
      else do {
        let csx = cellSizeX m;
        let csy = cellSizeY m;
        let sideX = (if fgt moveX fzero
                     then fadd (fadd (vecx p) PLAYER_HALF_W) (flit 1 100)
                     else fsub (fsub (vecx p) PLAYER_HALF_W) (flit 1 100));
        cx \<leftarrow> WorldToCell sideX csx;
        cyMin \<leftarrow> WorldToCell (fadd (fsub (vecy p) PLAYER_HALF_H) (flit 5 100)) csy;
        cyMax \<leftarrow> WorldToCell (fsub (fadd (vecy p) PLAYER_HALF_H) (flit 5 100)) csy;
        wall_loop m moveX cx cyMax cyMin
      })"

subsection \<open>Ladders\<close>

text \<open>The two loops \<open>while (IsLadder (cx, y \<mp> 1)) y\<mp>\<mp>\<close>; leaving the \<open>int\<close> range is undefined.\<close>

function ladder_down :: "tilemap \<Rightarrow> int \<Rightarrow> int \<Rightarrow> int option" where
  "ladder_down m cx yMin =
     (if yMin \<le> INT_MIN then None
      else if IsLadder m cx (yMin - 1) then ladder_down m cx (yMin - 1)
      else Some yMin)"
  by pat_completeness auto
termination
  by (relation "measure (\<lambda>(m, cx, y). nat (y - INT_MIN))") auto

function ladder_up :: "tilemap \<Rightarrow> int \<Rightarrow> int \<Rightarrow> int option" where
  "ladder_up m cx yMax =
     (if INT_MAX \<le> yMax then None
      else if IsLadder m cx (yMax + 1) then ladder_up m cx (yMax + 1)
      else Some yMax)"
  by pat_completeness auto
termination
  by (relation "measure (\<lambda>(m, cx, y). nat (INT_MAX - y))") auto

declare ladder_down.simps [simp del] ladder_up.simps [simp del]

text \<open>\<open>GetLadderExtent\<close>: the centre, the bottom and the top (its three reference parameters).\<close>

definition GetLadderExtent :: "tilemap \<Rightarrow> int \<Rightarrow> int \<Rightarrow> (f32 \<times> f32 \<times> f32) option" where
  "GetLadderExtent m cx startCy = do {
     let csx = cellSizeX m;
     let csy = cellSizeY m;
     let centerX = fmul (fadd (int_to_f32 cx) (flit 1 2)) csx;
     yMin \<leftarrow> ladder_down m cx startCy;
     yMax \<leftarrow> ladder_up m cx startCy;
     let minY = fmul (int_to_f32 yMin) csy;
     top \<leftarrow> i32 (yMax + 1);
     let maxY = fmul (int_to_f32 top) csy;
     Some (centerX, minY, maxY)
   }"

subsection \<open>The ground loop looks at one row\<close>

definition ground_cell :: "tilemap \<Rightarrow> bool \<Rightarrow> int \<Rightarrow> int \<Rightarrow> bool" where
  "ground_cell m ignoreFloating cx cy \<longleftrightarrow>
     IsSolid m cx cy \<or> \<not> ignoreFloating \<and> IsFloatingGround m cx cy"

text \<open>The best top after a candidate with top \<open>t\<close>.\<close>

definition take_top :: "f32 \<Rightarrow> f32 \<Rightarrow> f32 \<times> bool \<Rightarrow> f32 \<times> bool" where
  "take_top footY t best =
     (if \<not> fgt t (fadd footY GROUND_THRESHOLD) \<and> fgt t (fst best) then (t, True) else best)"

lemma take_top_idem [simp]: "take_top footY t (take_top footY t best) = take_top footY t best"
  by (simp add: take_top_def flt_def)

lemma ground_loop_step:
  "ground_loop m ig footY cy cxMax cx best =
     (if cx \<le> cxMax then
        if cx = INT_MAX then (if ground_cell m ig cx cy then Option.bind (CellTopY m cy) (\<lambda>_. None) else None)
        else if ground_cell m ig cx cy
        then Option.bind (CellTopY m cy) (\<lambda>t. ground_loop m ig footY cy cxMax (cx + 1) (take_top footY t best))
        else ground_loop m ig footY cy cxMax (cx + 1) best
      else Some best)"
  by (cases best; cases "CellTopY m cy")
    (simp_all add: ground_loop.simps [of m ig footY cy cxMax cx] ground_cell_def take_top_def)

lemma ground_loop_row:
  assumes "ground_loop m ig footY cy cxMax cx best = Some r"
  shows "r = (if (\<exists>c\<in>{cx..cxMax}. ground_cell m ig c cy)
              then take_top footY (the (CellTopY m cy)) best else best)"
  using assms
proof (induction "nat (cxMax + 1 - cx)" arbitrary: cx best)
  case 0
  then show ?case
    by (simp add: ground_loop_step [of m ig footY cy cxMax cx])
next
  case (Suc n)
  then have le: "cx \<le> cxMax" and n: "n = nat (cxMax + 1 - (cx + 1))"
    by simp_all
  have row: "{cx..cxMax} = insert cx {cx + 1..cxMax}"
    using le by auto
  show ?case
  proof (cases "ground_cell m ig cx cy")
    case False
    then have "ground_loop m ig footY cy cxMax (cx + 1) best = Some r"
      using Suc.prems le by (simp add: ground_loop_step [of m ig footY cy cxMax cx] split: if_splits)
    from Suc.hyps(1) [OF n this] False show ?thesis
      by (simp add: row)
  next
    case True
    then obtain t where t: "CellTopY m cy = Some t"
      and "ground_loop m ig footY cy cxMax (cx + 1) (take_top footY t best) = Some r"
      using Suc.prems le
      by (auto simp: ground_loop_step [of m ig footY cy cxMax cx] split: if_splits)
    from Suc.hyps(1) [OF n this(2)] True t show ?thesis
      by (simp add: row)
  qed
qed

lemma ground_loop_defined:
  assumes "cxMax < INT_MAX" and "cy < INT_MAX" and "INT_MIN \<le> cy"
  shows "\<exists>r. ground_loop m ig footY cy cxMax cx best = Some r"
proof (induction "nat (cxMax + 1 - cx)" arbitrary: cx best)
  case 0
  then show ?case
    by (simp add: ground_loop_step [of m ig footY cy cxMax cx])
next
  case (Suc n)
  then have n: "n = nat (cxMax + 1 - (cx + 1))" and "cx \<noteq> INT_MAX"
    using assms(1) by simp_all
  moreover obtain t where "CellTopY m cy = Some t"
    using assms(2,3) by (simp add: CellTopY_def i32_def in_i32_def)
  ultimately show ?case
    using Suc.hyps(1) [OF n] by (simp add: ground_loop_step [of m ig footY cy cxMax cx])
qed

subsection \<open>The tests against the map\<close>

text \<open>The row under the feet, and the columns the player's width covers.\<close>

definition feet_row :: "tilemap \<Rightarrow> Vec2 \<Rightarrow> int option" where
  "feet_row m p = WorldToCell (fsub (fsub (vecy p) PLAYER_HALF_H) GROUND_THRESHOLD) (cellSizeY m)"

definition head_row :: "tilemap \<Rightarrow> Vec2 \<Rightarrow> int option" where
  "head_row m p = WorldToCell (fadd (fadd (vecy p) PLAYER_HALF_H) GROUND_THRESHOLD) (cellSizeY m)"

definition left_col :: "tilemap \<Rightarrow> Vec2 \<Rightarrow> int option" where
  "left_col m p = WorldToCell (fadd (fsub (vecx p) PLAYER_HALF_W) (flit 1 100)) (cellSizeX m)"

definition right_col :: "tilemap \<Rightarrow> Vec2 \<Rightarrow> int option" where
  "right_col m p = WorldToCell (fsub (fadd (vecx p) PLAYER_HALF_W) (flit 1 100)) (cellSizeX m)"

lemma CheckGround_loaded:
  "loaded m \<Longrightarrow> CheckGround m p ig = do {
     cy \<leftarrow> feet_row m p; cxMin \<leftarrow> left_col m p; cxMax \<leftarrow> right_col m p;
     (b, h) \<leftarrow> ground_loop m ig (fsub (vecy p) PLAYER_HALF_H) cy cxMax cxMin (fneg (flit 1000000000 1), False);
     Some \<lparr>groundHit = h, groundY = (if h then b else fzero)\<rparr> }"
  by (simp add: CheckGround_def Let_def feet_row_def left_col_def right_col_def)

lemma CheckGround_hit:
  assumes "loaded m" and "CheckGround m p ig = Some g"
    and "feet_row m p = Some cy" and "left_col m p = Some cxMin" and "right_col m p = Some cxMax"
  shows "groundHit g \<longleftrightarrow> (\<exists>c\<in>{cxMin..cxMax}. ground_cell m ig c cy)
      \<and> \<not> fgt (the (CellTopY m cy)) (fadd (fsub (vecy p) PLAYER_HALF_H) GROUND_THRESHOLD)
      \<and> fgt (the (CellTopY m cy)) (fneg (flit 1000000000 1))"
    and "groundHit g \<Longrightarrow> groundY g = the (CellTopY m cy)"
    and "\<not> groundHit g \<Longrightarrow> groundY g = fzero"
proof -
  obtain b h where loop: "ground_loop m ig (fsub (vecy p) PLAYER_HALF_H) cy cxMax cxMin
      (fneg (flit 1000000000 1), False) = Some (b, h)"
    and g: "g = \<lparr>groundHit = h, groundY = (if h then b else fzero)\<rparr>"
    using assms by (auto simp: CheckGround_loaded)
  note row = ground_loop_row [OF loop]
  show "groundHit g \<longleftrightarrow> (\<exists>c\<in>{cxMin..cxMax}. ground_cell m ig c cy)
      \<and> \<not> fgt (the (CellTopY m cy)) (fadd (fsub (vecy p) PLAYER_HALF_H) GROUND_THRESHOLD)
      \<and> fgt (the (CellTopY m cy)) (fneg (flit 1000000000 1))"
    using row by (auto simp: g take_top_def split: if_splits)
  show "groundHit g \<Longrightarrow> groundY g = the (CellTopY m cy)"
    using row by (auto simp: g take_top_def split: if_splits)
  show "\<not> groundHit g \<Longrightarrow> groundY g = fzero"
    by (simp add: g)
qed

lemma CheckGround_below_threshold:
  assumes "CheckGround m p ig = Some g" and "groundHit g" and "loaded m"
  shows "\<not> fgt (groundY g) (fadd (fsub (vecy p) PLAYER_HALF_H) GROUND_THRESHOLD)"
proof -
  obtain cy cxMin cxMax where "feet_row m p = Some cy" "left_col m p = Some cxMin" "right_col m p = Some cxMax"
    using assms by (auto simp: CheckGround_loaded)
  then show ?thesis
    using CheckGround_hit assms by metis
qed

text \<open>Fewer layers count, fewer grounds are found.\<close>

lemma CheckGround_ignoreFloating:
  assumes "CheckGround m p True = Some g" and "CheckGround m p False = Some g'" and "groundHit g"
  shows "g' = g"
proof (cases "loaded m")
  case True
  obtain cy cxMin cxMax where c: "feet_row m p = Some cy" "left_col m p = Some cxMin" "right_col m p = Some cxMax"
    using assms(1) True by (auto simp: CheckGround_loaded)
  note hit = CheckGround_hit [OF True assms(1) c] and hit' = CheckGround_hit [OF True assms(2) c]
  have "groundHit g'"
    using hit(1) hit'(1) assms(3) by (auto simp: ground_cell_def)
  then show ?thesis
    using hit(2) hit'(2) assms(3) by (simp add: GroundResult.equality)
qed (use assms in \<open>simp add: CheckGround_def Let_def\<close>)

subsection \<open>Ceilings and walls\<close>

lemma ceil_loop_row:
  assumes "ceil_loop m cy cxMax cx best = Some r"
  shows "r = (if (\<exists>c\<in>{cx..cxMax}. IsSolid m c cy) \<and> flt (CellBottomY m cy) (fst best)
              then (CellBottomY m cy, True) else best)"
  using assms
proof (induction "nat (cxMax + 1 - cx)" arbitrary: cx best)
  case 0
  then show ?case
    by (cases best) (simp add: ceil_loop.simps [of m cy cxMax cx])
next
  case (Suc n)
  obtain b h where best: "best = (b, h)" by fastforce
  have le: "cx \<le> cxMax" and n: "n = nat (cxMax + 1 - (cx + 1))"
    using Suc.hyps(2) by simp_all
  have row: "{cx..cxMax} = insert cx {cx + 1..cxMax}"
    using le by auto
  let ?best' = "if \<not> IsSolid m cx cy then (b, h)
      else if flt (CellBottomY m cy) b then (CellBottomY m cy, True) else (b, h)"
  have "ceil_loop m cy cxMax (cx + 1) ?best' = Some r"
    using Suc.prems le by (simp add: best ceil_loop.simps [of m cy cxMax cx] Let_def split: if_splits)
  from Suc.hyps(1) [OF n this] show ?case
    by (auto simp: row best flt_def)
qed

lemma wall_loop_column:
  assumes "wall_loop m moveX cx cyMax cy = Some w"
  shows "wallHit w \<longleftrightarrow> (\<exists>c\<in>{cy..cyMax}. IsSolid m cx c)"
    and "wallHit w \<Longrightarrow> wallX w =
      (if fgt moveX fzero then fsub (CellLeftX m cx) PLAYER_HALF_W
       else fadd (the (CellRightX m cx)) PLAYER_HALF_W)"
    and "\<not> wallHit w \<Longrightarrow> wallX w = fzero"
proof -
  have "(wallHit w \<longleftrightarrow> (\<exists>c\<in>{cy..cyMax}. IsSolid m cx c))
    \<and> (wallHit w \<longrightarrow> wallX w = (if fgt moveX fzero then fsub (CellLeftX m cx) PLAYER_HALF_W
       else fadd (the (CellRightX m cx)) PLAYER_HALF_W)) \<and> (\<not> wallHit w \<longrightarrow> wallX w = fzero)"
    using assms
  proof (induction m moveX cx cyMax cy rule: wall_loop.induct)
    case (1 m moveX cx cyMax cy)
    show ?case
    proof (cases "cy \<le> cyMax \<and> \<not> IsSolid m cx cy")
      case True
      then have "{cy..cyMax} = insert cy {cy + 1..cyMax}"
        by auto
      then show ?thesis
        using True "1.IH" "1.prems" by (simp add: wall_loop.simps [of m moveX cx cyMax cy] split: if_splits)
    next
      case False
      then show ?thesis
        using "1.prems" by (auto simp: wall_loop.simps [of m moveX cx cyMax cy] split: if_splits)
    qed
  qed
  then show "wallHit w \<longleftrightarrow> (\<exists>c\<in>{cy..cyMax}. IsSolid m cx c)"
    and "wallHit w \<Longrightarrow> wallX w =
      (if fgt moveX fzero then fsub (CellLeftX m cx) PLAYER_HALF_W
       else fadd (the (CellRightX m cx)) PLAYER_HALF_W)"
    and "\<not> wallHit w \<Longrightarrow> wallX w = fzero"
    by simp_all
qed

subsection \<open>The extent of a ladder\<close>

lemma ladder_down_maximal:
  "ladder_down m cx y = Some lo \<Longrightarrow>
     lo \<le> y \<and> (\<forall>k\<in>{lo..<y}. IsLadder m cx k) \<and> \<not> IsLadder m cx (lo - 1)"
proof (induction m cx y rule: ladder_down.induct)
  case (1 m cx y)
  show ?case
  proof (cases "IsLadder m cx (y - 1)")
    case True
    then have ih: "lo \<le> y - 1 \<and> (\<forall>k\<in>{lo..<y - 1}. IsLadder m cx k) \<and> \<not> IsLadder m cx (lo - 1)"
      using "1.IH" "1.prems" by (simp add: ladder_down.simps [of m cx y] split: if_splits)
    then have "{lo..<y} = insert (y - 1) {lo..<y - 1}"
      by auto
    with ih True show ?thesis by simp
  next
    case False
    then show ?thesis
      using "1.prems" by (simp add: ladder_down.simps [of m cx y] split: if_splits)
  qed
qed

lemma ladder_up_maximal:
  "ladder_up m cx y = Some hi \<Longrightarrow>
     y \<le> hi \<and> (\<forall>k\<in>{y<..hi}. IsLadder m cx k) \<and> \<not> IsLadder m cx (hi + 1)"
proof (induction m cx y rule: ladder_up.induct)
  case (1 m cx y)
  show ?case
  proof (cases "IsLadder m cx (y + 1)")
    case True
    then have ih: "y + 1 \<le> hi \<and> (\<forall>k\<in>{y + 1<..hi}. IsLadder m cx k) \<and> \<not> IsLadder m cx (hi + 1)"
      using "1.IH" "1.prems" by (simp add: ladder_up.simps [of m cx y] split: if_splits)
    then have "{y<..hi} = insert (y + 1) {y + 1<..hi}"
      by auto
    with ih True show ?thesis by simp
  next
    case False
    then show ?thesis
      using "1.prems" by (simp add: ladder_up.simps [of m cx y] split: if_splits)
  qed
qed

lemma ladder_down_defined:
  "\<not> IsLadder m cx k \<Longrightarrow> INT_MIN \<le> k \<Longrightarrow> k < y \<Longrightarrow> \<exists>lo. ladder_down m cx y = Some lo \<and> k < lo"
proof (induction m cx y rule: ladder_down.induct)
  case (1 m cx y)
  show ?case
  proof (cases "k = y - 1")
    case True
    with 1 show ?thesis by (simp add: ladder_down.simps [of m cx y])
  next
    case False
    with 1 show ?thesis by (simp add: ladder_down.simps [of m cx y])
  qed
qed

lemma ladder_up_defined:
  "\<not> IsLadder m cx k \<Longrightarrow> k \<le> INT_MAX \<Longrightarrow> y < k \<Longrightarrow> \<exists>hi. ladder_up m cx y = Some hi \<and> hi < k"
proof (induction m cx y rule: ladder_up.induct)
  case (1 m cx y)
  show ?case
  proof (cases "k = y + 1")
    case True
    with 1 show ?thesis by (simp add: ladder_up.simps [of m cx y])
  next
    case False
    with 1 show ?thesis by (simp add: ladder_up.simps [of m cx y])
  qed
qed

subsection \<open>Where the tests are defined\<close>

text \<open>
  A map whose cells are between 1/8 and 4 units wide and high. With positions below
  \<open>2^20\<close> every cell number is then far from the limits of \<open>int\<close>.
\<close>

definition cell_size_ok :: "f32 \<Rightarrow> bool" where
  "cell_size_ok cs \<longleftrightarrow> is_fin cs \<and> wf_f32 cs \<and> UNIT \<le> 8 * fval cs \<and> fval cs \<le> 4 * UNIT"

definition map_ok :: "tilemap \<Rightarrow> bool" where
  "map_ok m \<longleftrightarrow> (loaded m \<longrightarrow> cell_size_ok (cellSizeX m) \<and> cell_size_ok (cellSizeY m))"

lemma bnd_consts:
  "bnd PLAYER_HALF_H 1" "bnd PLAYER_HALF_W 1" "bnd GROUND_THRESHOLD 1" "bnd MOVE_SPEED 5"
  "bnd JUMP_FORCE 10" "bnd GRAVITY 30" "bnd MAX_FALL_SPEED 15" "bnd CLIMB_SPEED 3"
  "bnd (flit 1 100) 1" "bnd (flit 5 100) 1" "bnd (flit 1 2) 1" "bnd (flit 10 1) 10"
  "bnd (flit 2 1) 2" "bnd (flit 1 1) 1" "bnd (flit 25 100) 1"
  by (simp_all add: bnd_flit PLAYER_HALF_H_def PLAYER_HALF_W_def GROUND_THRESHOLD_def MOVE_SPEED_def
      JUMP_FORCE_def GRAVITY_def MAX_FALL_SPEED_def CLIMB_SPEED_def)

lemma WorldToCell_defined:
  assumes "bnd w n" and "cell_size_ok cs" and "8 * n \<le> 2 ^ 24"
  shows "\<exists>c. WorldToCell w cs = Some c \<and> \<bar>c\<bar> \<le> 8 * n \<and> \<bar>c\<bar> * fval cs \<le> n * UNIT + fval cs"
proof -
  have cs: "is_fin cs" "wf_f32 cs" "UNIT \<le> 8 * fval cs" "0 < fval cs"
    using assms(2) by (simp_all add: cell_size_ok_def)
  have n: "0 \<le> n"
    using assms(1) by (rule bnd_nonneg)
  define K where "K = (n * UNIT + fval cs - 1) div fval cs"
  have K_cs: "K * fval cs \<le> n * UNIT + fval cs" and n_K: "n * UNIT \<le> K * fval cs"
  proof -
    have "K * fval cs = n * UNIT + fval cs - 1 - (n * UNIT + fval cs - 1) mod fval cs"
      by (simp add: K_def minus_mod_eq_div_mult [symmetric])
    moreover have "0 \<le> (n * UNIT + fval cs - 1) mod fval cs"
      and "(n * UNIT + fval cs - 1) mod fval cs < fval cs"
      using cs(4) by simp_all
    ultimately show "K * fval cs \<le> n * UNIT + fval cs" and "n * UNIT \<le> K * fval cs"
      by linarith+
  qed
  have "n * UNIT \<le> 8 * n * fval cs"
    using mult_left_mono [OF cs(3) n] by (simp add: mult_ac)
  then have "K < 8 * n + 1"
    using cs(4) unfolding K_def by (subst div_less_int_iff) (simp_all add: algebra_simps)
  then have K: "K \<le> 8 * n" "K \<le> 2 ^ 24"
    using assms(3) by simp_all
  have "\<bar>fval w\<bar> \<le> K * fval cs"
    using assms(1) n_K by (auto simp: bnd_def)
  then have "\<bar>fval w * UNIT * sgn (fval cs)\<bar> \<le> K * UNIT * \<bar>fval cs\<bar>"
    using cs(4) mult_right_mono [of "\<bar>fval w\<bar>" "K * fval cs" UNIT] by (simp add: abs_mult mult_ac)
  then have q: "bnd (fdiv w cs) K"
    using assms(1) cs K(2) by (intro rounds_to_bnd [OF rounds_fdiv]) (simp_all add: bnd_def)
  define c where "c = fval (fdiv w cs) div UNIT"
  have "WorldToCell w cs = Some c" and c: "\<bar>c\<bar> \<le> K"
    using bnd_floor_int [OF q K(2)] by (simp_all add: WorldToCell_def c_def)
  moreover have "\<bar>c\<bar> * fval cs \<le> K * fval cs"
    using c cs(4) by (intro mult_right_mono) simp_all
  ultimately show ?thesis
    using K K_cs by (intro exI [of _ c]) simp
qed

lemma bnd_face:
  assumes "\<bar>c\<bar> \<le> 2 ^ 24" and "\<bar>c\<bar> * fval cs \<le> k * UNIT" and "cell_size_ok cs" and "k \<le> 2 ^ 24"
  shows "bnd (fmul (int_to_f32 c) cs) k"
proof (rule rounds_to_bnd [OF rounds_fmul])
  have "0 < fval cs"
    using assms(3) by (simp add: cell_size_ok_def)
  then show "\<bar>fval (int_to_f32 c) * fval cs\<bar> \<le> k * UNIT * UNIT"
    using mult_right_mono [OF assms(2), of UNIT] by (simp add: int_to_f32_exact [OF assms(1)] abs_mult mult_ac)
qed (use assms int_to_f32_exact in \<open>simp_all add: cell_size_ok_def\<close>)

lemma bnd_cell_faces:
  assumes "\<bar>c\<bar> \<le> 2 ^ 23" and "\<bar>c\<bar> * fval cs \<le> n * UNIT + fval cs" and "cell_size_ok cs" and "n \<le> 2 ^ 23"
  shows "bnd (fmul (int_to_f32 c) cs) (n + 8)" and "bnd (fmul (int_to_f32 (c + 1)) cs) (n + 8)"
proof -
  have cs: "0 < fval cs" "fval cs \<le> 4 * UNIT"
    using assms(3) by (simp_all add: cell_size_ok_def)
  then have "\<bar>c\<bar> * fval cs \<le> (n + 8) * UNIT"
    using assms(2) by (simp add: algebra_simps)
  moreover have "\<bar>c + 1\<bar> * fval cs \<le> (\<bar>c\<bar> + 1) * fval cs"
    using cs by (intro mult_right_mono) simp_all
  then have "\<bar>c + 1\<bar> * fval cs \<le> (n + 8) * UNIT"
    using assms(2) cs by (simp add: algebra_simps)
  ultimately show "bnd (fmul (int_to_f32 c) cs) (n + 8)" and "bnd (fmul (int_to_f32 (c + 1)) cs) (n + 8)"
    using assms(1,3,4) by (simp_all add: bnd_face)
qed

lemma bnd_offset2:
  assumes "bnd a n" and "bnd b 1" and "bnd c 1" and "n + 2 \<le> 2 ^ 24"
  shows "bnd (fadd (fadd a b) c) (n + 2)" and "bnd (fadd (fsub a b) c) (n + 2)"
    and "bnd (fsub (fadd a b) c) (n + 2)" and "bnd (fsub (fsub a b) c) (n + 2)"
proof -
  have "bnd (fadd a b) (n + 1)" and "bnd (fsub a b) (n + 1)"
    using assms by (simp_all add: bnd_fadd bnd_fsub)
  then show "bnd (fadd (fadd a b) c) (n + 2)" and "bnd (fadd (fsub a b) c) (n + 2)"
    and "bnd (fsub (fadd a b) c) (n + 2)" and "bnd (fsub (fsub a b) c) (n + 2)"
    using assms(3,4) bnd_fadd [of _ "n + 1" c 1] bnd_fsub [of _ "n + 1" c 1]
    by (simp_all add: add.commute)
qed

lemma columns_defined:
  assumes "bnd (vecx p) n" and "cell_size_ok (cellSizeX m)" and "8 * (n + 2) \<le> 2 ^ 24"
  obtains a b where "left_col m p = Some a" and "right_col m p = Some b"
    and "\<bar>a\<bar> \<le> 8 * (n + 2)" and "\<bar>b\<bar> \<le> 8 * (n + 2)"
proof -
  have l: "bnd (fadd (fsub (vecx p) PLAYER_HALF_W) (flit 1 100)) (n + 2)"
    and r: "bnd (fsub (fadd (vecx p) PLAYER_HALF_W) (flit 1 100)) (n + 2)"
    using assms by (simp_all add: bnd_offset2 bnd_consts)
  obtain a where "left_col m p = Some a" and "\<bar>a\<bar> \<le> 8 * (n + 2)"
    using WorldToCell_defined [OF l assms(2,3)] by (auto simp: left_col_def)
  moreover obtain b where "right_col m p = Some b" and "\<bar>b\<bar> \<le> 8 * (n + 2)"
    using WorldToCell_defined [OF r assms(2,3)] by (auto simp: right_col_def)
  ultimately show ?thesis
    by (blast intro: that)
qed

lemma CheckGround_defined:
  assumes "map_ok m" and "bnd (vecx p) n" and "bnd (vecy p) n" and "8 * (n + 2) \<le> 2 ^ 23"
  obtains g where "CheckGround m p ig = Some g" and "bnd (groundY g) (n + 10)"
proof (cases "loaded m")
  case False
  then show ?thesis
    using that bnd_nonneg [OF assms(2)] by (simp add: CheckGround_def Let_def)
next
  case True
  then have cx: "cell_size_ok (cellSizeX m)" and cy: "cell_size_ok (cellSizeY m)"
    using assms(1) by (simp_all add: map_ok_def)
  have n: "8 * (n + 2) \<le> 8388608"
    using assms(4) by simp
  obtain a b where ab: "left_col m p = Some a" "right_col m p = Some b" "\<bar>a\<bar> \<le> 8 * (n + 2)" "\<bar>b\<bar> \<le> 8 * (n + 2)"
    using n by (auto intro: columns_defined [OF assms(2) cx])
  have "bnd (fsub (fsub (vecy p) PLAYER_HALF_H) GROUND_THRESHOLD) (n + 2)"
    using assms(3) n by (simp add: bnd_offset2 bnd_consts)
  then obtain c where c: "feet_row m p = Some c" "\<bar>c\<bar> \<le> 8 * (n + 2)"
      "\<bar>c\<bar> * fval (cellSizeY m) \<le> (n + 2) * UNIT + fval (cellSizeY m)"
    using WorldToCell_defined [OF _ cy, of _ "n + 2"] n by (auto simp: feet_row_def)
  obtain r where r: "ground_loop m ig (fsub (vecy p) PLAYER_HALF_H) c b a (fneg (flit 1000000000 1), False) = Some r"
    using ground_loop_defined [of b c m ig] ab c n by fastforce
  then obtain g where g: "CheckGround m p ig = Some g"
    using True ab c by (cases r) (simp add: CheckGround_loaded)
  have "bnd (fmul (int_to_f32 (c + 1)) (cellSizeY m)) (n + 2 + 8)"
    using c n by (intro bnd_cell_faces [OF _ c(3) cy]) simp_all
  moreover have "the (CellTopY m c) = fmul (int_to_f32 (c + 1)) (cellSizeY m)"
    using c n by (simp add: CellTopY_def i32_def in_i32_def abs_le_iff)
  ultimately have "bnd (groundY g) (n + 10)"
    using CheckGround_hit(2,3) [OF True g c(1) ab(1,2)] bnd_nonneg [OF assms(2)]
    by (cases "groundHit g") (simp_all add: add.commute)
  with g show ?thesis
    by (rule that)
qed

lemma ceil_loop_defined: "cxMax < INT_MAX \<Longrightarrow> \<exists>r. ceil_loop m cy cxMax cx best = Some r"
proof (induction "nat (cxMax + 1 - cx)" arbitrary: cx best)
  case 0
  then show ?case
    by (cases best) (simp add: ceil_loop.simps [of m cy cxMax cx])
next
  case (Suc n)
  have n: "n = nat (cxMax + 1 - (cx + 1))" and "cx \<noteq> INT_MAX"
    using Suc.hyps(2) Suc.prems by simp_all
  then show ?case
    using Suc.hyps(1) [OF n Suc.prems]
    by (cases best) (simp add: ceil_loop.simps [of m cy cxMax cx] Let_def)
qed

lemma CheckCeiling_defined:
  assumes "map_ok m" and "bnd (vecx p) n" and "bnd (vecy p) n" and "8 * (n + 2) \<le> 2 ^ 23"
  obtains c where "CheckCeiling m p = Some c" and "bnd (ceilY c) (n + 10)"
proof (cases "loaded m")
  case False
  then show ?thesis
    using that bnd_nonneg [OF assms(2)] by (simp add: CheckCeiling_def)
next
  case True
  then have cx: "cell_size_ok (cellSizeX m)" and cy: "cell_size_ok (cellSizeY m)"
    using assms(1) by (simp_all add: map_ok_def)
  have n: "8 * (n + 2) \<le> 8388608"
    using assms(4) by simp
  obtain a b where ab: "left_col m p = Some a" "right_col m p = Some b" "\<bar>a\<bar> \<le> 8 * (n + 2)" "\<bar>b\<bar> \<le> 8 * (n + 2)"
    using n by (auto intro: columns_defined [OF assms(2) cx])
  have "bnd (fadd (fadd (vecy p) PLAYER_HALF_H) GROUND_THRESHOLD) (n + 2)"
    using assms(3) n by (simp add: bnd_offset2 bnd_consts)
  then obtain c where c: "head_row m p = Some c" "\<bar>c\<bar> \<le> 8 * (n + 2)"
      "\<bar>c\<bar> * fval (cellSizeY m) \<le> (n + 2) * UNIT + fval (cellSizeY m)"
    using WorldToCell_defined [OF _ cy, of _ "n + 2"] n by (auto simp: head_row_def)
  obtain y h where r: "ceil_loop m c b a (flit 1000000000 1, False) = Some (y, h)"
    using ceil_loop_defined [of b] ab n by fastforce
  have "bnd (CellBottomY m c) (n + 2 + 8)"
    unfolding CellBottomY_def using c n by (intro bnd_cell_faces [OF _ c(3) cy]) simp_all
  then have "bnd (if h then y else fzero) (n + 10)"
    using ceil_loop_row [OF r] bnd_nonneg [OF assms(2)] by (auto simp: add.commute split: if_splits)
  moreover have "CheckCeiling m p = Some \<lparr>ceilHit = h, ceilY = (if h then y else fzero)\<rparr>"
    using True ab c r by (simp add: CheckCeiling_def Let_def left_col_def right_col_def head_row_def)
  ultimately show ?thesis
    using that by simp
qed

lemma wall_loop_defined:
  "cyMax < INT_MAX \<Longrightarrow> \<bar>cx\<bar> < INT_MAX \<Longrightarrow> \<exists>w. wall_loop m moveX cx cyMax cy = Some w"
proof (induction m moveX cx cyMax cy rule: wall_loop.induct)
  case (1 m moveX cx cyMax cy)
  show ?case
    using 1 by (auto simp: wall_loop.simps [of m moveX cx cyMax cy] CellRightX_def i32_def in_i32_def
        abs_less_iff)
qed

lemma CheckWall_defined:
  assumes "map_ok m" and "bnd (vecx p) n" and "bnd (vecy p) n" and "8 * (n + 2) \<le> 2 ^ 23"
  obtains w where "CheckWall m p moveX = Some w" and "bnd (wallX w) (n + 11)"
proof (cases "loaded m \<and> \<not> feq moveX fzero")
  case False
  then show ?thesis
    using that bnd_nonneg [OF assms(2)] by (auto simp: CheckWall_def)
next
  case True
  then have cx: "cell_size_ok (cellSizeX m)" and cy: "cell_size_ok (cellSizeY m)"
    using assms(1) by (simp_all add: map_ok_def)
  have n: "8 * (n + 2) \<le> 8388608"
    using assms(4) by simp
  define sideX where "sideX = (if fgt moveX fzero
    then fadd (fadd (vecx p) PLAYER_HALF_W) (flit 1 100)
    else fsub (fsub (vecx p) PLAYER_HALF_W) (flit 1 100))"
  have "bnd sideX (n + 2)"
    and lo: "bnd (fadd (fsub (vecy p) PLAYER_HALF_H) (flit 5 100)) (n + 2)"
    and hi: "bnd (fsub (fadd (vecy p) PLAYER_HALF_H) (flit 5 100)) (n + 2)"
    using assms(2,3) n unfolding sideX_def by (simp_all add: bnd_offset2 bnd_consts)
  then obtain c where c: "WorldToCell sideX (cellSizeX m) = Some c" "\<bar>c\<bar> \<le> 8 * (n + 2)"
      "\<bar>c\<bar> * fval (cellSizeX m) \<le> (n + 2) * UNIT + fval (cellSizeX m)"
    using WorldToCell_defined [OF _ cx, of sideX "n + 2"] n by auto
  obtain a b where ab: "WorldToCell (fadd (fsub (vecy p) PLAYER_HALF_H) (flit 5 100)) (cellSizeY m) = Some a"
      "WorldToCell (fsub (fadd (vecy p) PLAYER_HALF_H) (flit 5 100)) (cellSizeY m) = Some b"
      "\<bar>b\<bar> \<le> 8 * (n + 2)"
    using WorldToCell_defined [OF lo cy] WorldToCell_defined [OF hi cy] n by fastforce
  obtain w where w: "wall_loop m moveX c b a = Some w"
    using wall_loop_defined [of b c m moveX a] ab(3) c(2) n by fastforce
  have faces: "bnd (CellLeftX m c) (n + 10)" "bnd (the (CellRightX m c)) (n + 10)"
    using bnd_cell_faces [OF _ c(3) cx] c n
    by (simp_all add: CellLeftX_def CellRightX_def i32_def in_i32_def abs_le_iff add.commute)
  have "bnd (fsub (CellLeftX m c) PLAYER_HALF_W) (n + 10 + 1)"
    and "bnd (fadd (the (CellRightX m c)) PLAYER_HALF_W) (n + 10 + 1)"
    by (rule bnd_fsub bnd_fadd, rule faces bnd_consts, rule faces bnd_consts, use n in simp)+
  then have "bnd (wallX w) (n + 11)"
    using wall_loop_column [OF w] bnd_nonneg [OF assms(2)]
    by (cases "wallHit w") (simp_all add: add.commute)
  moreover have "CheckWall m p moveX = Some w"
    using True c ab w by (simp add: CheckWall_def Let_def sideX_def)
  ultimately show ?thesis
    using that by simp
qed

subsection \<open>Properties\<close>

text \<open>C19: The ground test against its specification: on a loaded map there is ground exactly if, in the row just under the feet, a column the body covers holds a solid cell (or a floating one, unless these are ignored) whose top is not above the feet by more than the threshold (and not below the search's sentinel of a billion units down); its height is then that top, and 0 otherwise. The cell lookups are all made: the loop does not stop at the first hit.\<close>

lemma ground_test_spec:
  assumes "loaded m" and "CheckGround m p ig = Some g"
  shows "\<exists>cy l r t. feet_row m p = Some cy \<and> left_col m p = Some l \<and> right_col m p = Some r
    \<and> t = the (CellTopY m cy)
    \<and> (groundHit g \<longleftrightarrow> (\<exists>c\<in>{l..r}. IsSolid m c cy \<or> \<not> ig \<and> IsFloatingGround m c cy)
         \<and> \<not> fgt t (fadd (fsub (vecy p) PLAYER_HALF_H) GROUND_THRESHOLD) \<and> fgt t (fneg (flit 1000000000 1)))
    \<and> groundY g = (if groundHit g then t else fzero)"
proof -
  obtain cy l r where c: "feet_row m p = Some cy" "left_col m p = Some l" "right_col m p = Some r"
    using assms by (auto simp: CheckGround_loaded)
  show ?thesis
    using c CheckGround_hit [OF assms c] by (auto simp: ground_cell_def)
qed

lemma ground_test_spec_witness:
  "\<exists>g. CheckGround (Map_new\<lparr>loaded := True, solid := {PackCell 0 (-1)}\<rparr>) \<lparr>vecx = fzero, vecy = flit 1 2\<rparr> False = Some g
     \<and> groundHit g \<and> groundY g = fzero"
proof -
  let ?m = "Map_new\<lparr>loaded := True, solid := {PackCell 0 (-1)}\<rparr>" and ?p = "\<lparr>vecx = fzero, vecy = flit 1 2\<rparr>"
  have ok: "map_ok ?m"
    by (simp add: map_ok_def cell_size_ok_def Map_new_def float_eval representable_def)
  have "bnd (vecx ?p) 1" "bnd (vecy ?p) 1"
    by (simp_all add: bnd_def float_eval representable_def cong: eval_cong)
  from CheckGround_defined [OF ok this] obtain g where g: "CheckGround ?m ?p False = Some g"
    by auto
  have "feet_row ?m ?p = Some (-1)" "left_col ?m ?p = Some (-1)" "right_col ?m ?p = Some 0"
    by (simp_all add: feet_row_def left_col_def right_col_def WorldToCell_def Map_new_def const_vals float_eval cong: eval_cong)
  moreover have "the (CellTopY ?m (-1)) = fzero"
    by (simp add: CellTopY_def Map_new_def i32_def in_i32_def float_eval cong: eval_cong)
  moreover have "\<not> fgt fzero (fadd (fsub (vecy ?p) PLAYER_HALF_H) GROUND_THRESHOLD)" "fgt fzero (fneg (flit 1000000000 1))"
    by (simp_all add: const_vals float_eval cong: eval_cong)
  ultimately show ?thesis
    using g ground_test_spec [of ?m ?p False g] by (auto simp: IsSolid_def)
qed

text \<open>C21: The extent of a ladder is the maximal run of ladder cells through the starting cell: from \<open>minY\<close>, the bottom of its lowest cell, to \<open>maxY\<close>, the top of its highest, every cell between them a ladder and neither neighbour beyond.\<close>

lemma ladder_extent_maximal:
  assumes "GetLadderExtent m cx cy = Some (centerX, minY, maxY)" and "IsLadder m cx cy"
  shows "\<exists>lo hi. lo \<le> cy \<and> cy \<le> hi \<and> (\<forall>k\<in>{lo..hi}. IsLadder m cx k)
    \<and> \<not> IsLadder m cx (lo - 1) \<and> \<not> IsLadder m cx (hi + 1)
    \<and> minY = fmul (int_to_f32 lo) (cellSizeY m) \<and> maxY = fmul (int_to_f32 (hi + 1)) (cellSizeY m)
    \<and> centerX = fmul (fadd (int_to_f32 cx) (flit 1 2)) (cellSizeX m)"
proof -
  obtain lo hi where lo: "ladder_down m cx cy = Some lo" and hi: "ladder_up m cx cy = Some hi"
    and e: "minY = fmul (int_to_f32 lo) (cellSizeY m)" "maxY = fmul (int_to_f32 (hi + 1)) (cellSizeY m)"
      "centerX = fmul (fadd (int_to_f32 cx) (flit 1 2)) (cellSizeX m)"
    using assms(1) by (auto simp: GetLadderExtent_def Let_def)
  note run = ladder_down_maximal [OF lo] ladder_up_maximal [OF hi]
  have "{lo..hi} = {lo..<cy} \<union> {cy} \<union> {cy<..hi}"
    using run by auto
  then have "\<forall>k\<in>{lo..hi}. IsLadder m cx k"
    using run assms(2) by auto
  with run e show ?thesis by blast
qed

lemma ladder_extent_maximal_witness:
  "\<exists>lo hi. lo \<le> 4 \<and> 4 \<le> hi \<and> fmul (int_to_f32 3) (flit 1 1) = fmul (int_to_f32 lo) (flit 1 1)
     \<and> (\<forall>k\<in>{lo..hi}. IsLadder (Map_new\<lparr>ladder := {PackCell 2 3, PackCell 2 4}\<rparr>) 2 k)"
proof -
  let ?m = "Map_new\<lparr>ladder := {PackCell 2 3, PackCell 2 4}\<rparr>"
  have key: "PackCell 2 a = PackCell 2 b \<longleftrightarrow> a = b" if "a \<in> {0..9}" "b \<in> {0..9}" for a b
    using that PackCell_inject [of 2 a 2 b] by (auto simp: in_i32_def)
  have "ladder_down ?m 2 4 = Some 3"
    by (simp add: ladder_down.simps [of ?m 2 4] ladder_down.simps [of ?m 2 3] IsLadder_def key)
  moreover have "ladder_up ?m 2 4 = Some 4"
    by (simp add: ladder_up.simps [of ?m 2 4] IsLadder_def key)
  ultimately have e: "GetLadderExtent ?m 2 4 = Some (fmul (fadd (int_to_f32 2) (flit 1 2)) (flit 1 1),
      fmul (int_to_f32 3) (flit 1 1), fmul (int_to_f32 5) (flit 1 1))"
    by (simp add: GetLadderExtent_def Let_def Map_new_def i32_def in_i32_def)
  have "IsLadder ?m 2 4"
    by (simp add: IsLadder_def)
  from ladder_extent_maximal [OF e this] show ?thesis
    by (auto simp: Map_new_def)
qed

text \<open>C20: The wall test against its specification: on a loaded map, moving, there is a wall exactly if, in the column one hundredth beyond the leading side of the body, a row it covers holds a solid cell; the player then stops half a width before that column's near face.\<close>

lemma wall_test_spec:
  assumes "loaded m" and "\<not> feq moveX fzero" and "CheckWall m p moveX = Some w"
  shows "\<exists>cx lo hi. WorldToCell (if fgt moveX fzero
         then fadd (fadd (vecx p) PLAYER_HALF_W) (flit 1 100)
         else fsub (fsub (vecx p) PLAYER_HALF_W) (flit 1 100)) (cellSizeX m) = Some cx
    \<and> WorldToCell (fadd (fsub (vecy p) PLAYER_HALF_H) (flit 5 100)) (cellSizeY m) = Some lo
    \<and> WorldToCell (fsub (fadd (vecy p) PLAYER_HALF_H) (flit 5 100)) (cellSizeY m) = Some hi
    \<and> (wallHit w \<longleftrightarrow> (\<exists>c\<in>{lo..hi}. IsSolid m cx c))
    \<and> wallX w = (if wallHit w then if fgt moveX fzero then fsub (CellLeftX m cx) PLAYER_HALF_W
         else fadd (the (CellRightX m cx)) PLAYER_HALF_W else fzero)"
  using assms by (auto simp: CheckWall_def Let_def wall_loop_column split: if_splits)

lemma wall_test_spec_witness:
  "\<exists>w. CheckWall (Map_new\<lparr>loaded := True, solid := {PackCell 1 0}\<rparr>) \<lparr>vecx = flit 3 4, vecy = flit 1 2\<rparr> (flit 1 1) = Some w
     \<and> wallHit w"
proof -
  let ?m = "Map_new\<lparr>loaded := True, solid := {PackCell 1 0}\<rparr>" and ?p = "\<lparr>vecx = flit 3 4, vecy = flit 1 2\<rparr>"
  have ok: "map_ok ?m"
    by (simp add: map_ok_def cell_size_ok_def Map_new_def float_eval representable_def)
  have "bnd (vecx ?p) 1" "bnd (vecy ?p) 1"
    by (simp_all add: bnd_def float_eval representable_def cong: eval_cong)
  from CheckWall_defined [OF ok this] obtain w where w: "CheckWall ?m ?p (flit 1 1) = Some w"
    by auto
  have nz: "\<not> feq (flit 1 1) fzero" and right: "fgt (flit 1 1) fzero" and m: "loaded ?m"
    by (simp_all add: float_eval cong: eval_cong)
  have "WorldToCell (fadd (fadd (vecx ?p) PLAYER_HALF_W) (flit 1 100)) (cellSizeX ?m) = Some 1"
    "WorldToCell (fadd (fsub (vecy ?p) PLAYER_HALF_H) (flit 5 100)) (cellSizeY ?m) = Some 0"
    "WorldToCell (fsub (fadd (vecy ?p) PLAYER_HALF_H) (flit 5 100)) (cellSizeY ?m) = Some 0"
    by (simp_all add: WorldToCell_def Map_new_def const_vals float_eval cong: eval_cong)
  then show ?thesis
    using w wall_test_spec [OF m nz w] right by (auto simp: IsSolid_def)
qed

end
