(* ===== verification/Physics.thy ===== *)
theory Physics
  imports Collision
begin

text \<open>
  \<open>GameRoom::HandleLadderState\<close> and \<open>GameRoom::SimulatePlayer\<close> (\<open>SimpleServer/GameRoom.cpp\<close>):
  the server-authoritative movement of one player. \<open>SimulatePlayer\<close> is one long function; each
  of its stages is a definition here, and \<open>SimulatePlayer\<close> composes them in the source's order
  with its early returns. Log output is left out; the collision test a log message makes is not.
\<close>

subsection \<open>Field updates\<close>

definition set_px :: "f32 \<Rightarrow> PhysicsState \<Rightarrow> PhysicsState" where
  "set_px v s = s\<lparr>pos := (pos s)\<lparr>vecx := v\<rparr>\<rparr>"
definition set_py :: "f32 \<Rightarrow> PhysicsState \<Rightarrow> PhysicsState" where
  "set_py v s = s\<lparr>pos := (pos s)\<lparr>vecy := v\<rparr>\<rparr>"
definition set_vx :: "f32 \<Rightarrow> PhysicsState \<Rightarrow> PhysicsState" where
  "set_vx v s = s\<lparr>vel := (vel s)\<lparr>vecx := v\<rparr>\<rparr>"
definition set_vy :: "f32 \<Rightarrow> PhysicsState \<Rightarrow> PhysicsState" where
  "set_vy v s = s\<lparr>vel := (vel s)\<lparr>vecy := v\<rparr>\<rparr>"

abbreviation (input) px :: "PhysicsState \<Rightarrow> f32" where "px s \<equiv> vecx (pos s)"
abbreviation (input) py :: "PhysicsState \<Rightarrow> f32" where "py s \<equiv> vecy (pos s)"
abbreviation (input) vx :: "PhysicsState \<Rightarrow> f32" where "vx s \<equiv> vecx (vel s)"
abbreviation (input) vy :: "PhysicsState \<Rightarrow> f32" where "vy s \<equiv> vecy (vel s)"

lemmas phys_upd_defs = set_px_def set_py_def set_vx_def set_vy_def

subsection \<open>Entering a ladder\<close>

definition HandleLadderState ::
  "tilemap \<Rightarrow> bool \<Rightarrow> f32 \<Rightarrow> f32 \<Rightarrow> f32 \<Rightarrow> f32 \<Rightarrow> PhysicsState \<Rightarrow> PhysicsState option" where
  "HandleLadderState m onLadder x y velx vely s =
     (if \<not> onLadder then Some s
      else do {
        let s = s\<lparr>isOnLadder := True, pos := \<lparr>vecx = x, vecy = y\<rparr>,
                  vel := \<lparr>vecx = fzero, vecy = fzero\<rparr>, isGrounded := False, isJumping := False\<rparr>;
        if loaded m then do {
          cx \<leftarrow> WorldToCell x (cellSizeX m);
          cy \<leftarrow> WorldToCell y (cellSizeY m);
          cy \<leftarrow> (if \<not> IsLadder m cx cy then i32 (cy - 1) else Some cy);
          if IsLadder m cx cy then do {
            (c, lo, hi) \<leftarrow> GetLadderExtent m cx cy;
            Some (s\<lparr>ladderCenterX := c, ladderMinY := lo, ladderMaxY := hi\<rparr>)
          }
          else Some (s\<lparr>ladderCenterX := x, ladderMinY := fsub y (flit 1 2),
                       ladderMaxY := fadd y (flit 10 1)\<rparr>)
        }
        else Some s
      })"

subsection \<open>One simulation step\<close>

text \<open>The time step: the client's, if it lies in \<open>(0, 0.1)\<close>, else the server's.\<close>

definition use_dt :: "InputCmd \<Rightarrow> f32 \<Rightarrow> f32" where
  "use_dt cmd dt =
     (if fgt (deltaTime cmd) fzero \<and> flt (deltaTime cmd) (flit 1 10) then deltaTime cmd else dt)"

text \<open>The three exits of the ladder block: return, or fall through to the ordinary physics.\<close>

datatype flow = Return PhysicsState | FallThrough PhysicsState

definition ladder_climb :: "InputCmd \<Rightarrow> f32 \<Rightarrow> PhysicsState \<Rightarrow> f32 \<times> PhysicsState" where
  "ladder_climb cmd useDt s =
     (let v = fzero;
          v = (if moveUp cmd then CLIMB_SPEED else v);
          v = (if moveDown cmd then fneg CLIMB_SPEED else v);
          s = set_vx fzero s;
          s = set_vy v s;
          s = set_px (ladderCenterX s) s;
          s = set_py (fadd (py s) (fmul v useDt)) s;
          s = (if flt (py s) (ladderMinY s) then set_py (ladderMinY s) s else s);
          s = (if fgt (py s) (fadd (ladderMaxY s) PLAYER_HALF_H)
               then set_py (fadd (ladderMaxY s) PLAYER_HALF_H) s else s)
      in (v, s))"

definition ladder_step :: "tilemap \<Rightarrow> InputCmd \<Rightarrow> f32 \<Rightarrow> PhysicsState \<Rightarrow> flow option" where
  "ladder_step m cmd dt s = do {
     let s = s\<lparr>isCrouching := False\<rparr>;
     let useDt = use_dt cmd dt;
     if jump cmd then
       Some (FallThrough (set_vx fzero (set_vy JUMP_FORCE
               (s\<lparr>isOnLadder := False, isJumping := True, isGrounded := False\<rparr>))))
     else do {
       let (v, s) = ladder_climb cmd useDt s;
       s \<leftarrow> (if flt v fzero then do {
              gr \<leftarrow> CheckGround m (pos s) True;
              if groundHit gr then
                Some (set_vx fzero (set_vy fzero (set_py (fadd (groundY gr) PLAYER_HALF_H)
                        (s\<lparr>isOnLadder := False, isGrounded := True\<rparr>))))
              else Some s
            }
            else Some s);
       if isOnLadder s \<and> fgt v fzero \<and> fge (py s) (fadd (ladderMaxY s) PLAYER_HALF_H)
       then Some (Return (set_vx fzero (set_vy fzero (s\<lparr>isOnLadder := False\<rparr>))))
       else if isOnLadder s then Some (Return s)
       else Some (FallThrough s)
     }
   }"

text \<open>The drop-through timer.\<close>

definition update_drop_timer :: "InputCmd \<Rightarrow> f32 \<Rightarrow> PhysicsState \<Rightarrow> PhysicsState" where
  "update_drop_timer cmd useDt s =
     (if dropThrough cmd then s\<lparr>dropThroughTimer := flit 25 100\<rparr>
      else if fgt (dropThroughTimer s) fzero
      then s\<lparr>dropThroughTimer := fmax fzero (fsub (dropThroughTimer s) useDt)\<rparr>
      else s)"

text \<open>The horizontal direction of a command.\<close>

definition move_x :: "InputCmd \<Rightarrow> f32" where
  "move_x cmd =
     (let mx = fzero;
          mx = (if moveLeft cmd then fneg (flit 1 1) else mx)
      in if moveRight cmd then flit 1 1 else mx)"

definition update_direction :: "InputCmd \<Rightarrow> f32 \<Rightarrow> PhysicsState \<Rightarrow> PhysicsState" where
  "update_direction cmd moveX s =
     (let s = s\<lparr>isMoving := \<not> feq moveX fzero\<rparr>;
          s = s\<lparr>isCrouching := isGrounded s \<and> moveDown cmd \<and> \<not> moveLeft cmd \<and> \<not> moveRight cmd
                  \<and> \<not> jump cmd\<rparr>;
          s = (if flt moveX fzero then s\<lparr>dir := MoveDir_Left\<rparr>
               else if fgt moveX fzero then s\<lparr>dir := MoveDir_Right\<rparr> else s)
      in if faceDir cmd \<noteq> MoveDir_None then s\<lparr>dir := faceDir cmd\<rparr> else s)"

text \<open>Ground test before the move, ground adhesion, jump and gravity.\<close>

definition ground_jump_gravity ::
  "tilemap \<Rightarrow> InputCmd \<Rightarrow> f32 \<Rightarrow> bool \<Rightarrow> PhysicsState \<Rightarrow> PhysicsState option" where
  "ground_jump_gravity m cmd useDt ignoreFloating s = do {
     let ignoreFloatingPremove = (ignoreFloating \<or> fgt (vy s) fzero);
     ground \<leftarrow> CheckGround m (pos s) ignoreFloatingPremove;
     let s = s\<lparr>isGrounded := groundHit ground\<rparr>;
     let s = (if isGrounded s \<and> fle (vy s) fzero then set_vy (fneg (flit 2 1)) s else s);
     _ \<leftarrow> (if jump cmd \<and> \<not> isGrounded s
          then do { _ \<leftarrow> CheckGround m (pos s) False; Some () } else Some ());
     let s = (if jump cmd \<and> isGrounded s
              then set_vy JUMP_FORCE (s\<lparr>isJumping := True, isGrounded := False\<rparr>) else s);
     Some (if \<not> isGrounded s then
             let s = set_vy (fsub (vy s) (fmul GRAVITY useDt)) s
             in if flt (vy s) MAX_FALL_SPEED then set_vy MAX_FALL_SPEED s else s
           else s)
   }"

text \<open>Horizontal movement and walls.\<close>

definition move_horizontal :: "tilemap \<Rightarrow> f32 \<Rightarrow> f32 \<Rightarrow> PhysicsState \<Rightarrow> PhysicsState option" where
  "move_horizontal m moveX useDt s = do {
     let s = set_px (fadd (px s) (fmul (fmul moveX MOVE_SPEED) useDt)) s;
     if \<not> feq moveX fzero then do {
       wall \<leftarrow> CheckWall m (pos s) moveX;
       Some (if wallHit wall then set_vx fzero (set_px (wallX wall) s) else s)
     }
     else Some s
   }"

text \<open>The descent in substeps: \<open>n\<close> more of them, stopping where the feet meet ground.\<close>

fun fall_loop :: "tilemap \<Rightarrow> bool \<Rightarrow> f32 \<Rightarrow> nat \<Rightarrow> PhysicsState \<Rightarrow> PhysicsState option" where
  "fall_loop m ignoreFloating subDt 0 s = Some s"
| "fall_loop m ignoreFloating subDt (Suc n) s = do {
     let s = set_py (fadd (py s) (fmul (vy s) subDt)) s;
     gr \<leftarrow> CheckGround m (pos s) ignoreFloating;
     if groundHit gr then
       Some (set_vy (fneg (flit 2 1)) (set_py (fadd (groundY gr) PLAYER_HALF_H)
               (s\<lparr>isGrounded := True, isJumping := False\<rparr>)))
     else fall_loop m ignoreFloating subDt n s
   }"

definition sub_step_size :: f32 where
  "sub_step_size = fmul GROUND_THRESHOLD (flit 9 10)"

definition num_steps :: "f32 \<Rightarrow> int option" where
  "num_steps totalMove =
     (if fgt totalMove fzero then do {
        n \<leftarrow> f32_to_int (fceil (fdiv totalMove sub_step_size));
        Some (max 1 n)
      }
      else Some 1)"

definition move_vertical :: "tilemap \<Rightarrow> f32 \<Rightarrow> bool \<Rightarrow> PhysicsState \<Rightarrow> PhysicsState option" where
  "move_vertical m useDt ignoreFloating s =
     (if fgt (vy s) fzero then do {
        let s = set_py (fadd (py s) (fmul (vy s) useDt)) s;
        c \<leftarrow> CheckCeiling m (pos s);
        Some (if ceilHit c then set_vy fzero (set_py (fsub (ceilY c) PLAYER_HALF_H) s) else s)
      }
      else do {
        n \<leftarrow> num_steps (ffabs (fmul (vy s) useDt));
        let subDt = fdiv useDt (int_to_f32 n);
        fall_loop m ignoreFloating subDt (nat n) s
      })"

definition update_last_seq :: "InputCmd \<Rightarrow> PhysicsState \<Rightarrow> PhysicsState" where
  "update_last_seq cmd s = (if inputSeq cmd \<noteq> 0 then s\<lparr>lastInputSeq := inputSeq cmd\<rparr> else s)"

text \<open>The part after the ladder block.\<close>

definition walk_step :: "tilemap \<Rightarrow> InputCmd \<Rightarrow> f32 \<Rightarrow> PhysicsState \<Rightarrow> PhysicsState option" where
  "walk_step m cmd dt s = do {
     let useDt = use_dt cmd dt;
     let s = update_drop_timer cmd useDt s;
     let ignoreFloating = fgt (dropThroughTimer s) fzero;
     let moveX = move_x cmd;
     let s = update_direction cmd moveX s;
     s \<leftarrow> ground_jump_gravity m cmd useDt ignoreFloating s;
     s \<leftarrow> move_horizontal m moveX useDt s;
     s \<leftarrow> move_vertical m useDt ignoreFloating s;
     Some (update_last_seq cmd s)
   }"

definition SimulatePlayer :: "tilemap \<Rightarrow> InputCmd \<Rightarrow> f32 \<Rightarrow> PhysicsState \<Rightarrow> PhysicsState option" where
  "SimulatePlayer m cmd dt s =
     (if isOnLadder s then do {
        r \<leftarrow> ladder_step m cmd dt s;
        (case r of Return s \<Rightarrow> Some s | FallThrough s \<Rightarrow> walk_step m cmd dt s)
      }
      else walk_step m cmd dt s)"

subsection \<open>Reading back updated fields\<close>

lemma phys_upd_simps [simp]:
  "vecx (pos (set_px v s)) = v" "vecy (pos (set_px v s)) = vecy (pos s)" "vel (set_px v s) = vel s"
  "vecx (pos (set_py v s)) = vecx (pos s)" "vecy (pos (set_py v s)) = v" "vel (set_py v s) = vel s"
  "vecx (vel (set_vx v s)) = v" "vecy (vel (set_vx v s)) = vecy (vel s)" "pos (set_vx v s) = pos s"
  "vecx (vel (set_vy v s)) = vecx (vel s)" "vecy (vel (set_vy v s)) = v" "pos (set_vy v s) = pos s"
  by (simp_all add: phys_upd_defs)

lemma phys_upd_frame [simp]:
  "dir (set_px v s) = dir s" "isMoving (set_px v s) = isMoving s"
  "isJumping (set_px v s) = isJumping s" "isGrounded (set_px v s) = isGrounded s"
  "isOnLadder (set_px v s) = isOnLadder s" "isCrouching (set_px v s) = isCrouching s"
  "ladderCenterX (set_px v s) = ladderCenterX s" "ladderMinY (set_px v s) = ladderMinY s"
  "ladderMaxY (set_px v s) = ladderMaxY s" "dropThroughTimer (set_px v s) = dropThroughTimer s"
  "lastInputSeq (set_px v s) = lastInputSeq s"
  "dir (set_py v s) = dir s" "isMoving (set_py v s) = isMoving s"
  "isJumping (set_py v s) = isJumping s" "isGrounded (set_py v s) = isGrounded s"
  "isOnLadder (set_py v s) = isOnLadder s" "isCrouching (set_py v s) = isCrouching s"
  "ladderCenterX (set_py v s) = ladderCenterX s" "ladderMinY (set_py v s) = ladderMinY s"
  "ladderMaxY (set_py v s) = ladderMaxY s" "dropThroughTimer (set_py v s) = dropThroughTimer s"
  "lastInputSeq (set_py v s) = lastInputSeq s"
  "dir (set_vx v s) = dir s" "isMoving (set_vx v s) = isMoving s"
  "isJumping (set_vx v s) = isJumping s" "isGrounded (set_vx v s) = isGrounded s"
  "isOnLadder (set_vx v s) = isOnLadder s" "isCrouching (set_vx v s) = isCrouching s"
  "ladderCenterX (set_vx v s) = ladderCenterX s" "ladderMinY (set_vx v s) = ladderMinY s"
  "ladderMaxY (set_vx v s) = ladderMaxY s" "dropThroughTimer (set_vx v s) = dropThroughTimer s"
  "lastInputSeq (set_vx v s) = lastInputSeq s"
  "dir (set_vy v s) = dir s" "isMoving (set_vy v s) = isMoving s"
  "isJumping (set_vy v s) = isJumping s" "isGrounded (set_vy v s) = isGrounded s"
  "isOnLadder (set_vy v s) = isOnLadder s" "isCrouching (set_vy v s) = isCrouching s"
  "ladderCenterX (set_vy v s) = ladderCenterX s" "ladderMinY (set_vy v s) = ladderMinY s"
  "ladderMaxY (set_vy v s) = ladderMaxY s" "dropThroughTimer (set_vy v s) = dropThroughTimer s"
  "lastInputSeq (set_vy v s) = lastInputSeq s"
  by (simp_all add: phys_upd_defs)

subsection \<open>The vertical speed\<close>

text \<open>The vertical speed lies between the terminal velocity and the jump speed.\<close>

definition vy_ok :: "f32 \<Rightarrow> bool" where
  "vy_ok v \<longleftrightarrow> is_fin v \<and> wf_f32 v \<and> fval MAX_FALL_SPEED \<le> fval v \<and> fval v \<le> fval JUMP_FORCE"

definition dt_ok :: "f32 \<Rightarrow> bool" where
  "dt_ok d \<longleftrightarrow> bnd d 1 \<and> 0 \<le> fval d"

lemma vy_ok_consts: "vy_ok fzero" "vy_ok JUMP_FORCE" "vy_ok MAX_FALL_SPEED" "vy_ok (fneg (flit 2 1))"
  "vy_ok CLIMB_SPEED" "vy_ok (fneg CLIMB_SPEED)"
  by (simp_all add: vy_ok_def const_vals float_eval representable_def)

lemma vy_ok_bnd: "vy_ok v \<Longrightarrow> bnd v 15"
  by (auto simp: vy_ok_def bnd_def const_vals sval_def)

lemma use_dt_ok: "dt_ok dt \<Longrightarrow> wf_f32 (deltaTime cmd) \<Longrightarrow> dt_ok (use_dt cmd dt)"
proof -
  assume dt: "dt_ok dt" and wf: "wf_f32 (deltaTime cmd)"
  show ?thesis
  proof (cases "fgt (deltaTime cmd) fzero \<and> flt (deltaTime cmd) (flit 1 10)")
    case True
    then have "0 \<le> fval (deltaTime cmd)" and lt: "fval (deltaTime cmd) < fval (flit 1 10)"
      and "deltaTime cmd \<noteq> FNaN"
      by (simp_all add: flt_def fzero_def sval_def)
    moreover have tenth: "fval (flit 1 10) < UNIT"
      by (simp add: float_eval)
    ultimately have "is_fin (deltaTime cmd)"
      by (cases "deltaTime cmd") (auto simp: sval_def split: if_splits)
    moreover have "\<bar>fval (deltaTime cmd)\<bar> \<le> 1 * UNIT"
      using \<open>0 \<le> fval (deltaTime cmd)\<close> lt tenth by linarith
    ultimately have "bnd (deltaTime cmd) 1 \<and> 0 \<le> fval (deltaTime cmd)"
      using wf \<open>0 \<le> fval (deltaTime cmd)\<close> by (simp add: bnd_def)
    with True show ?thesis
      by (simp add: use_dt_def dt_ok_def)
  qed (use dt in \<open>auto simp: use_dt_def\<close>)
qed

lemma dt_ok_bnd: "dt_ok d \<Longrightarrow> bnd d 1"
  by (simp add: dt_ok_def)

lemma gravity_step_ok:
  assumes "vy_ok v" and "dt_ok d"
  defines "v' \<equiv> fsub v (fmul GRAVITY d)"
  shows "vy_ok (if flt v' MAX_FALL_SPEED then MAX_FALL_SPEED else v')" and "fval v' \<le> fval v"
proof -
  have d: "bnd d 1" "0 \<le> fval d" and v: "bnd v 15"
    using assms by (simp_all add: dt_ok_def vy_ok_bnd)
  have g: "bnd (fmul GRAVITY d) (30 * 1)"
    using d by (intro bnd_fmul bnd_consts) simp_all
  have "rounds_to (fmul GRAVITY d) (fval GRAVITY * fval d) UNIT"
    using d by (intro rounds_fmul) (auto simp: bnd_def bnd_consts [unfolded bnd_def])
  then have "0 \<le> fval (fmul GRAVITY d)"
    using d(2) by (elim rounds_to_ge [of _ _ _ 0]) (simp_all add: srep_def representable_small const_vals sval_def)
  moreover have v': "bnd v' (15 + 30)"
    unfolding v'_def using v g by (intro bnd_fsub) simp_all
  have "rounds_to v' (fval v - fval (fmul GRAVITY d)) 1"
    unfolding v'_def using v g by (intro rounds_fsub) (simp_all add: bnd_def)
  ultimately show le: "fval v' \<le> fval v"
    using assms(1) wf_fval [of v] by (elim rounds_to_le) (simp_all add: vy_ok_def)
  show "vy_ok (if flt v' MAX_FALL_SPEED then MAX_FALL_SPEED else v')"
    using assms(1) v' le vy_ok_consts(3)
    by (auto simp: vy_ok_def bnd_def flt_def is_fin_not_NaN)
qed

subsection \<open>No undefined behaviour within the world\<close>

text \<open>Positions and ladder faces within \<open>n\<close> of the origin, and an admissible vertical speed.\<close>

definition state_ok :: "int \<Rightarrow> PhysicsState \<Rightarrow> bool" where
  "state_ok n s \<longleftrightarrow> bnd (vecx (pos s)) n \<and> bnd (vecy (pos s)) n \<and> vy_ok (vecy (vel s))
     \<and> bnd (ladderCenterX s) n \<and> bnd (ladderMinY s) n \<and> bnd (ladderMaxY s) n"

lemma state_ok_mono: "state_ok n s \<Longrightarrow> n \<le> k \<Longrightarrow> state_ok k s"
  by (auto simp: state_ok_def intro: bnd_mono)

lemma bnd_fadd_le: "bnd a n \<Longrightarrow> bnd b k \<Longrightarrow> n + k \<le> l \<Longrightarrow> l \<le> 2 ^ 24 \<Longrightarrow> bnd (fadd a b) l"
  by (rule bnd_mono [OF bnd_fadd]) simp_all

lemma bnd_fsub_le: "bnd a n \<Longrightarrow> bnd b k \<Longrightarrow> n + k \<le> l \<Longrightarrow> l \<le> 2 ^ 24 \<Longrightarrow> bnd (fsub a b) l"
  by (rule bnd_mono [OF bnd_fsub]) simp_all

lemma fall_loop_defined:
  assumes "map_ok m" and "bnd d 1" and "8 * (n + 15 * int k + 2) \<le> 2 ^ 23"
    and "state_ok n s"
  shows "\<exists>s'. fall_loop m ig d k s = Some s' \<and> state_ok (n + 15 * int k + 11) s'"
  using assms(3,4)
proof (induction k arbitrary: n s)
  case 0
  then show ?case
    by (simp add: state_ok_mono)
next
  case (Suc k)
  have n: "8 * (n + 15 * int k + 17) \<le> 8388608"
    using Suc.prems(1) by simp
  have s: "bnd (vecx (pos s)) n" "bnd (vecy (pos s)) n" "vy_ok (vecy (vel s))"
    using Suc.prems(2) by (simp_all add: state_ok_def)
  have nn: "0 \<le> n"
    using s(1) by (rule bnd_nonneg)
  have step: "bnd (fmul (vecy (vel s)) d) (15 * 1)"
    using vy_ok_bnd [OF s(3)] assms(2) by (rule bnd_fmul) simp
  have y: "bnd (fadd (vecy (pos s)) (fmul (vecy (vel s)) d)) (n + 15)"
    using n nn by (intro bnd_fadd_le [OF s(2) step]) simp_all
  define s1 where "s1 = set_py (fadd (vecy (pos s)) (fmul (vecy (vel s)) d)) s"
  have s1: "state_ok (n + 15) s1"
    using Suc.prems(2) y by (auto simp: state_ok_def s1_def intro: bnd_mono)
  obtain g where g: "CheckGround m (pos s1) ig = Some g" "bnd (groundY g) (n + 15 + 10)"
    using CheckGround_defined [OF assms(1), of "pos s1" "n + 15" ig] s1 n by (auto simp: state_ok_def)
  show ?case
  proof (cases "groundHit g")
    case True
    have "bnd (fadd (groundY g) PLAYER_HALF_H) (n + 15 * int (Suc k) + 11)"
      using n nn by (intro bnd_fadd_le [OF g(2) bnd_consts(1)]) simp_all
    then show ?thesis
      using True g(1) s1 n nn
      by (auto simp: s1_def [symmetric] Let_def state_ok_def vy_ok_consts intro: bnd_mono)
  next
    case False
    have "8 * (n + 15 + 15 * int k + 2) \<le> 2 ^ 23"
      using Suc.prems(1) by simp
    from Suc.IH [OF this s1] False g(1) show ?thesis
      by (simp add: s1_def [symmetric] Let_def algebra_simps)
  qed
qed

lemma num_steps_defined:
  assumes "bnd a 15"
  shows "\<exists>k. num_steps a = Some k \<and> 1 \<le> k \<and> k \<le> 240"
proof (cases "fgt a fzero")
  case True
  have "bnd (fdiv a sub_step_size) (15 * 16)"
    using assms by (intro bnd_fdiv) (simp_all add: sub_step_size_def const_vals float_eval representable_def)
  from bnd_floor_int(3,4) [OF this] True show ?thesis
    by (simp add: num_steps_def)
next
  case False
  then show ?thesis
    by (simp add: num_steps_def)
qed

lemma move_vertical_defined:
  assumes "map_ok m" and "dt_ok d" and "state_ok n s" and "n \<le> 1040000"
  shows "\<exists>s'. move_vertical m d ig s = Some s' \<and> state_ok (n + 3611) s'"
proof -
  have s: "bnd (vecx (pos s)) n" "bnd (vecy (pos s)) n" "vy_ok (vecy (vel s))"
    using assms(3) by (simp_all add: state_ok_def)
  have nn: "0 \<le> n"
    using s(1) by (rule bnd_nonneg)
  have step: "bnd (fmul (vecy (vel s)) d) (15 * 1)"
    using vy_ok_bnd [OF s(3)] dt_ok_bnd [OF assms(2)] by (rule bnd_fmul) simp
  show ?thesis
  proof (cases "fgt (vecy (vel s)) fzero")
    case True
    have y: "bnd (fadd (vecy (pos s)) (fmul (vecy (vel s)) d)) (n + 15)"
      using assms(4) nn by (intro bnd_fadd_le [OF s(2) step]) simp_all
    define s1 where "s1 = set_py (fadd (vecy (pos s)) (fmul (vecy (vel s)) d)) s"
    have s1: "state_ok (n + 15) s1"
      using assms(3) y by (auto simp: state_ok_def s1_def intro: bnd_mono)
    obtain c where c: "CheckCeiling m (pos s1) = Some c" "bnd (ceilY c) (n + 15 + 10)"
      using CheckCeiling_defined [OF assms(1), of "pos s1" "n + 15"] s1 assms(4) by (auto simp: state_ok_def)
    have "bnd (fsub (ceilY c) PLAYER_HALF_H) (n + 3611)"
      using assms(4) nn by (intro bnd_fsub_le [OF c(2) bnd_consts(1)]) simp_all
    with True c(1) s1 show ?thesis
      by (auto simp: move_vertical_def s1_def [symmetric] Let_def state_ok_def vy_ok_consts intro: bnd_mono)
  next
    case False
    obtain k where k: "num_steps (ffabs (fmul (vecy (vel s)) d)) = Some k" "1 \<le> k" "k \<le> 240"
      using num_steps_defined [of "ffabs (fmul (vecy (vel s)) d)"] step by auto
    have i: "fval (int_to_f32 k) = k * UNIT" "is_fin (int_to_f32 k)" "wf_f32 (int_to_f32 k)"
      using int_to_f32_exact [of k] k by simp_all
    have "bnd (fdiv d (int_to_f32 k)) (1 * 1)"
      using dt_ok_bnd [OF assms(2)] i k by (intro bnd_fdiv) simp_all
    then obtain s' where "fall_loop m ig (fdiv d (int_to_f32 k)) (nat k) s = Some s'"
        and "state_ok (n + 15 * k + 11) s'"
      using fall_loop_defined [OF assms(1) _ _ assms(3), of _ "nat k"] k assms(4) by fastforce
    moreover from this(2) have "state_ok (n + 3611) s'"
      using k by (auto intro: state_ok_mono)
    ultimately show ?thesis
      using False k(1) by (simp add: move_vertical_def Let_def)
  qed
qed

lemma update_drop_timer_frame [simp]:
  "pos (update_drop_timer cmd d s) = pos s" "vel (update_drop_timer cmd d s) = vel s"
  "ladderCenterX (update_drop_timer cmd d s) = ladderCenterX s"
  "ladderMinY (update_drop_timer cmd d s) = ladderMinY s" "ladderMaxY (update_drop_timer cmd d s) = ladderMaxY s"
  "isOnLadder (update_drop_timer cmd d s) = isOnLadder s" "dir (update_drop_timer cmd d s) = dir s"
  "lastInputSeq (update_drop_timer cmd d s) = lastInputSeq s"
  by (simp_all add: update_drop_timer_def)

lemma update_direction_frame [simp]:
  "pos (update_direction cmd mx s) = pos s" "vel (update_direction cmd mx s) = vel s"
  "ladderCenterX (update_direction cmd mx s) = ladderCenterX s"
  "ladderMinY (update_direction cmd mx s) = ladderMinY s" "ladderMaxY (update_direction cmd mx s) = ladderMaxY s"
  "isOnLadder (update_direction cmd mx s) = isOnLadder s"
  "dropThroughTimer (update_direction cmd mx s) = dropThroughTimer s"
  "lastInputSeq (update_direction cmd mx s) = lastInputSeq s"
  by (simp_all add: update_direction_def Let_def)

lemma update_last_seq_frame [simp]:
  "pos (update_last_seq cmd s) = pos s" "vel (update_last_seq cmd s) = vel s"
  "ladderCenterX (update_last_seq cmd s) = ladderCenterX s"
  "ladderMinY (update_last_seq cmd s) = ladderMinY s" "ladderMaxY (update_last_seq cmd s) = ladderMaxY s"
  "isOnLadder (update_last_seq cmd s) = isOnLadder s"
  by (simp_all add: update_last_seq_def)

text \<open>After the ground test the vertical speed is what the jump, the adhesion or gravity make it.\<close>

definition after_ground :: "InputCmd \<Rightarrow> f32 \<Rightarrow> bool \<Rightarrow> PhysicsState \<Rightarrow> PhysicsState" where
  "after_ground cmd d hit s =
     (let s = s\<lparr>isGrounded := hit\<rparr>;
          s = (if isGrounded s \<and> fle (vecy (vel s)) fzero then set_vy (fneg (flit 2 1)) s else s);
          s = (if jump cmd \<and> isGrounded s
               then set_vy JUMP_FORCE (s\<lparr>isJumping := True, isGrounded := False\<rparr>) else s)
      in if \<not> isGrounded s then
           let s = set_vy (fsub (vecy (vel s)) (fmul GRAVITY d)) s
           in if flt (vecy (vel s)) MAX_FALL_SPEED then set_vy MAX_FALL_SPEED s else s
         else s)"

lemma ground_jump_gravity_eq:
  "ground_jump_gravity m cmd d ig s = do {
     g \<leftarrow> CheckGround m (pos s) (ig \<or> fgt (vecy (vel s)) fzero);
     _ \<leftarrow> (if jump cmd \<and> \<not> groundHit g then CheckGround m (pos s) False else Some g);
     Some (after_ground cmd d (groundHit g) s) }"
  unfolding ground_jump_gravity_def after_ground_def Let_def
  by (rule Option.bind_cong [OF refl]) (cases "CheckGround m (pos s) False"; auto)

lemma after_ground_frame [simp]:
  "pos (after_ground cmd d hit s) = pos s" "vecx (vel (after_ground cmd d hit s)) = vecx (vel s)"
  "ladderCenterX (after_ground cmd d hit s) = ladderCenterX s"
  "ladderMinY (after_ground cmd d hit s) = ladderMinY s" "ladderMaxY (after_ground cmd d hit s) = ladderMaxY s"
  "isOnLadder (after_ground cmd d hit s) = isOnLadder s" "dir (after_ground cmd d hit s) = dir s"
  "dropThroughTimer (after_ground cmd d hit s) = dropThroughTimer s"
  "lastInputSeq (after_ground cmd d hit s) = lastInputSeq s"
  by (simp_all add: after_ground_def Let_def)

lemma after_ground_vy:
  "vy_ok (vecy (vel s)) \<Longrightarrow> dt_ok d \<Longrightarrow> vy_ok (vecy (vel (after_ground cmd d hit s)))"
  using gravity_step_ok(1) [of "vecy (vel s)" d] gravity_step_ok(1) [OF vy_ok_consts(2), of d] vy_ok_consts
  by (auto simp: after_ground_def Let_def split: if_splits)

lemma ground_jump_gravity_defined:
  assumes "map_ok m" and "dt_ok d" and "state_ok n s" and "n \<le> 1040000"
  shows "\<exists>s'. ground_jump_gravity m cmd d ig s = Some s' \<and> state_ok n s'"
proof -
  have s: "bnd (vecx (pos s)) n" "bnd (vecy (pos s)) n" "vy_ok (vecy (vel s))"
    using assms(3) by (simp_all add: state_ok_def)
  have "8 * (n + 2) \<le> 2 ^ 23"
    using assms(4) by simp
  note ground = CheckGround_defined [OF assms(1) s(1,2) this]
  obtain g where "CheckGround m (pos s) (ig \<or> fgt (vecy (vel s)) fzero) = Some g"
    by (rule ground)
  moreover obtain g' where "CheckGround m (pos s) False = Some g'"
    by (rule ground)
  ultimately show ?thesis
    using assms(2,3) after_ground_vy by (auto simp: ground_jump_gravity_eq state_ok_def)
qed

lemma bnd_move_x: "bnd (move_x cmd) 1"
  by (simp add: move_x_def Let_def bnd_consts)

lemma move_horizontal_defined:
  assumes "map_ok m" and "dt_ok d" and "state_ok n s" and "n \<le> 1030000"
  shows "\<exists>s'. move_horizontal m (move_x cmd) d s = Some s' \<and> state_ok (n + 16) s'"
proof -
  have s: "bnd (vecx (pos s)) n" "bnd (vecy (pos s)) n"
    using assms(3) by (simp_all add: state_ok_def)
  have nn: "0 \<le> n"
    using s(1) by (rule bnd_nonneg)
  have "bnd (fmul (move_x cmd) MOVE_SPEED) (1 * 5)"
    by (rule bnd_fmul [OF bnd_move_x bnd_consts(4)]) simp
  then have step: "bnd (fmul (fmul (move_x cmd) MOVE_SPEED) d) (1 * 5 * 1)"
    using dt_ok_bnd [OF assms(2)] by (rule bnd_fmul) simp
  have x: "bnd (fadd (vecx (pos s)) (fmul (fmul (move_x cmd) MOVE_SPEED) d)) (n + 5)"
    using assms(4) nn by (intro bnd_fadd_le [OF s(1) step]) simp_all
  define s1 where "s1 = set_px (fadd (vecx (pos s)) (fmul (fmul (move_x cmd) MOVE_SPEED) d)) s"
  have s1: "state_ok (n + 5) s1"
    using assms(3) x by (auto simp: state_ok_def s1_def intro: bnd_mono)
  obtain w where w: "CheckWall m (pos s1) (move_x cmd) = Some w" "bnd (wallX w) (n + 5 + 11)"
    using CheckWall_defined [OF assms(1), of "pos s1" "n + 5"] s1 assms(4) by (auto simp: state_ok_def)
  then show ?thesis
    using s1 by (auto simp: move_horizontal_def s1_def [symmetric] Let_def state_ok_def intro: bnd_mono)
qed

lemma walk_step_defined:
  assumes "map_ok m" and "dt_ok dt" and "wf_f32 (deltaTime cmd)" and "state_ok n s" and "n \<le> 1020000"
  shows "\<exists>s'. walk_step m cmd dt s = Some s' \<and> state_ok (n + 3627) s'"
proof -
  define d where "d = use_dt cmd dt"
  have d: "dt_ok d"
    unfolding d_def using assms(2,3) by (rule use_dt_ok)
  define s1 where "s1 = update_direction cmd (move_x cmd) (update_drop_timer cmd d s)"
  define ig where "ig = fgt (dropThroughTimer (update_drop_timer cmd d s)) fzero"
  have "state_ok n s1"
    using assms(4) by (simp add: s1_def state_ok_def)
  then obtain s2 where s2: "ground_jump_gravity m cmd d ig s1 = Some s2" "state_ok n s2"
    using ground_jump_gravity_defined [OF assms(1) d] assms(5) by fastforce
  then obtain s3 where s3: "move_horizontal m (move_x cmd) d s2 = Some s3" "state_ok (n + 16) s3"
    using move_horizontal_defined [OF assms(1) d s2(2)] assms(5) by fastforce
  then obtain s4 where s4: "move_vertical m d ig s3 = Some s4" "state_ok (n + 16 + 3611) s4"
    using move_vertical_defined [OF assms(1) d s3(2), of ig] assms(5) by fastforce
  have "walk_step m cmd dt s = Some (update_last_seq cmd s4)"
    using s2(1) s3(1) s4(1) by (simp add: walk_step_def Let_def d_def s1_def ig_def)
  with s4(2) show ?thesis
    by (simp add: state_ok_def add.commute)
qed

lemma ladder_climb_speed: "fst (ladder_climb cmd d s) \<in> {fzero, CLIMB_SPEED, fneg CLIMB_SPEED}"
  by (simp add: ladder_climb_def Let_def)

lemma ladder_climb_frame [simp]:
  "vecx (vel (snd (ladder_climb cmd d s))) = fzero"
  "vecy (vel (snd (ladder_climb cmd d s))) = fst (ladder_climb cmd d s)"
  "vecx (pos (snd (ladder_climb cmd d s))) = ladderCenterX s"
  "ladderCenterX (snd (ladder_climb cmd d s)) = ladderCenterX s"
  "ladderMinY (snd (ladder_climb cmd d s)) = ladderMinY s" "ladderMaxY (snd (ladder_climb cmd d s)) = ladderMaxY s"
  "isOnLadder (snd (ladder_climb cmd d s)) = isOnLadder s" "isGrounded (snd (ladder_climb cmd d s)) = isGrounded s"
  "lastInputSeq (snd (ladder_climb cmd d s)) = lastInputSeq s"
  by (simp_all add: ladder_climb_def Let_def)

lemma ladder_climb_ok:
  assumes "dt_ok d" and "state_ok n s" and "n \<le> 1040000"
  shows "state_ok (n + 3) (snd (ladder_climb cmd d s))"
proof -
  let ?v = "fst (ladder_climb cmd d s)" and ?s = "snd (ladder_climb cmd d s)"
  have s: "bnd (vecy (pos s)) n" "bnd (ladderMinY s) n" "bnd (ladderMaxY s) n" "bnd (ladderCenterX s) n"
    using assms(2) by (simp_all add: state_ok_def)
  have nn: "0 \<le> n"
    using s(1) by (rule bnd_nonneg)
  have v: "vy_ok ?v" and v3: "bnd ?v 3"
    using ladder_climb_speed [of cmd d s] by (auto simp: vy_ok_consts bnd_consts)
  have step: "bnd (fmul ?v d) (3 * 1)"
    using v3 dt_ok_bnd [OF assms(1)] by (rule bnd_fmul) simp
  have "bnd (fadd (vecy (pos s)) (fmul ?v d)) (n + 3)"
    using assms(3) nn by (intro bnd_fadd_le [OF s(1) step]) simp_all
  moreover have "bnd (fadd (ladderMaxY s) PLAYER_HALF_H) (n + 3)"
    using assms(3) nn by (intro bnd_fadd_le [OF s(3) bnd_consts(1)]) simp_all
  moreover have "bnd (ladderMinY s) (n + 3)"
    using s(2) by (rule bnd_mono) simp
  ultimately have "bnd (vecy (pos ?s)) (n + 3)"
    by (simp add: ladder_climb_def Let_def)
  with s v show ?thesis
    by (auto simp: state_ok_def intro: bnd_mono)
qed

fun flow_state :: "flow \<Rightarrow> PhysicsState" where
  "flow_state (Return s) = s"
| "flow_state (FallThrough s) = s"

lemma ladder_step_defined:
  assumes "map_ok m" and "dt_ok dt" and "wf_f32 (deltaTime cmd)" and "state_ok n s" and "n \<le> 1000000"
  shows "\<exists>r. ladder_step m cmd dt s = Some r \<and> state_ok (n + 14) (flow_state r)"
proof (cases "jump cmd")
  case True
  then show ?thesis
    using assms(4) by (auto simp: ladder_step_def Let_def state_ok_def vy_ok_consts intro: bnd_mono)
next
  case False
  define d where "d = use_dt cmd dt"
  have d: "dt_ok d"
    unfolding d_def using assms(2,3) by (rule use_dt_ok)
  obtain v s1 where c: "ladder_climb cmd d (s\<lparr>isCrouching := False\<rparr>) = (v, s1)"
    by fastforce
  have "state_ok n (s\<lparr>isCrouching := False\<rparr>)"
    using assms(4) by (simp add: state_ok_def)
  then have s1: "state_ok (n + 3) s1"
    using ladder_climb_ok [OF d, of n "s\<lparr>isCrouching := False\<rparr>" cmd] c assms(5) by simp
  obtain g where g: "CheckGround m (pos s1) True = Some g" "bnd (groundY g) (n + 3 + 10)"
    using CheckGround_defined [OF assms(1), of "pos s1" "n + 3"] s1 assms(5) by (auto simp: state_ok_def)
  have "bnd (fadd (groundY g) PLAYER_HALF_H) (n + 14)"
    using bnd_nonneg [OF g(2)] assms(5) by (intro bnd_fadd_le [OF g(2) bnd_consts(1)]) simp_all
  then have "state_ok (n + 14) (set_vx fzero (set_vy fzero (set_py (fadd (groundY g) PLAYER_HALF_H)
      (s1\<lparr>isOnLadder := False, isGrounded := True\<rparr>))))" (is "state_ok _ ?s2")
    using state_ok_mono [OF s1, of "n + 14"] by (simp add: state_ok_def vy_ok_consts)
  moreover have s1': "state_ok (n + 14) s1"
      "state_ok (n + 14) (set_vx fzero (set_vy fzero (s1\<lparr>isOnLadder := False\<rparr>)))"
    using state_ok_mono [OF s1, of "n + 14"] by (simp_all add: state_ok_def vy_ok_consts)
  moreover have "\<exists>s2\<in>{s1, ?s2}. (if flt v fzero then do {
      gr \<leftarrow> CheckGround m (pos s1) True;
      if groundHit gr then Some (set_vx fzero (set_vy fzero (set_py (fadd (groundY gr) PLAYER_HALF_H)
        (s1\<lparr>isOnLadder := False, isGrounded := True\<rparr>)))) else Some s1 } else Some s1) = Some s2"
    using g(1) by simp
  ultimately show ?thesis
    using False by (auto simp: ladder_step_def Let_def c d_def [symmetric])
qed

lemma SimulatePlayer_total:
  assumes "map_ok m" and "dt_ok dt" and "wf_f32 (deltaTime cmd)" and "state_ok n s" and "n \<le> 1000000"
  shows "\<exists>s'. SimulatePlayer m cmd dt s = Some s' \<and> state_ok (n + 3641) s'"
proof (cases "isOnLadder s")
  case True
  obtain r where r: "ladder_step m cmd dt s = Some r" "state_ok (n + 14) (flow_state r)"
    using ladder_step_defined [OF assms] by blast
  show ?thesis
  proof (cases r)
    case (Return s')
    with r True show ?thesis
      by (auto simp: SimulatePlayer_def intro: state_ok_mono)
  next
    case (FallThrough s1)
    then obtain s' where "walk_step m cmd dt s1 = Some s'" and "state_ok (n + 14 + 3627) s'"
      using walk_step_defined [OF assms(1-3), of "n + 14" s1] r(2) assms(5) by auto
    with r(1) True FallThrough show ?thesis
      by (simp add: SimulatePlayer_def add.commute)
  qed
next
  case False
  then show ?thesis
    using walk_step_defined [OF assms(1-4)] assms(5) state_ok_mono [of "n + 3627" _ "n + 3641"]
    by (fastforce simp: SimulatePlayer_def)
qed

end
