(* ===== verification/Movement.thy ===== *)
theory Movement
  imports Physics
begin

text \<open>
  What a step of \<open>SimulatePlayer\<close> does: the substeps of a fall and the ground it meets, the
  climb on a ladder, the entry onto a ladder, jumps; and the properties of movement.
\<close>

subsection \<open>The substeps of a fall\<close>

lemma sub_step_size_val [const_vals]: "sub_step_size = FFin False 64226143406973963414997852985308595754106880"
  by (simp add: sub_step_size_def float_eval const_vals)

text \<open>The exact arithmetic: the roundings of the product, of the quotient and of the substep's
  duration leave ample room between the substep size and the ground threshold.\<close>

lemma substep_arith:
  fixes P t q N W :: int
  assumes mul: "2 ^ 24 * \<bar>t * UNIT - P\<bar> \<le> max P (2 ^ 23 * UNIT)"
    and quot: "t \<noteq> 0 \<Longrightarrow> 2 ^ 24 * \<bar>q * fval sub_step_size - t * UNIT\<bar>
        \<le> max (t * UNIT) (2 ^ 23 * fval sub_step_size) \<and> q \<le> N * UNIT"
    and dur: "2 ^ 24 * (W - P) \<le> max P (2 ^ 23 * (15 * UNIT * N))"
    and nn: "0 \<le> P" "1 \<le> N" "0 \<le> t"
  shows "W \<le> fval GROUND_THRESHOLD * UNIT * N"
proof -
  note vals = const_vals sval_def
  have P: "2 ^ 24 * P \<le> 2 ^ 24 * (t * UNIT) + P + 2 ^ 23 * UNIT"
    using mul nn(1) by (simp add: max_def abs_if split: if_splits)
  have W: "2 ^ 24 * W \<le> 2 ^ 24 * P + P + 2 ^ 23 * (15 * UNIT * N)"
    using dur nn by (simp add: max_def split: if_splits)
  show ?thesis
  proof (cases "t = 0")
    case True
    with P W nn show ?thesis
      by (simp add: vals)
  next
    case False
    have S: "fval sub_step_size = 64226143406973963414997852985308595754106880"
      by (simp add: vals)
    have "2 ^ 24 * (t * UNIT) \<le> 2 ^ 24 * (q * fval sub_step_size) + t * UNIT + 2 ^ 23 * fval sub_step_size"
      using quot [OF False] nn(3) by (simp add: S max_def abs_if split: if_splits)
    moreover have "q * fval sub_step_size \<le> N * UNIT * fval sub_step_size"
      using quot [OF False] by (intro mult_right_mono) (simp_all add: S)
    ultimately show ?thesis
      using P W nn unfolding S by (simp add: vals)
  qed
qed

lemma rounds_to_error:
  assumes "rounds_to r n d" and "is_fin r" and "0 < d"
  shows "2 ^ 24 * \<bar>\<bar>fval r\<bar> * d - \<bar>n\<bar>\<bar> \<le> max \<bar>n\<bar> (2 ^ 23 * d)"
proof -
  have "fval r = rnds n d"
    using assms by (auto simp: rounds_to_def)
  then have "\<bar>fval r\<bar> = rnd \<bar>n\<bar> d"
    using rnd_nonneg [OF assms(3), of "\<bar>n\<bar>"] by (auto simp: rnds_def abs_if split: if_splits)
  then show ?thesis
    using rnd_error [OF assms(3), of "\<bar>n\<bar>"] by simp
qed

lemma fval_ffabs: "wf_f32 a \<Longrightarrow> fval (ffabs a) = \<bar>fval a\<bar>"
  by (cases a) (auto simp: sval_def representable_nonneg abs_of_nonneg)

lemma num_steps_quotient:
  assumes "bnd a 15" and "0 \<le> fval a"
  shows "0 \<le> fval (fdiv a sub_step_size)" and "bnd (fdiv a sub_step_size) 240"
proof -
  have S: "is_fin sub_step_size" "wf_f32 sub_step_size" "0 < fval sub_step_size" "UNIT \<le> 16 * fval sub_step_size"
    by (simp_all add: const_vals sval_def representable_def float_eval)
  have "bnd (fdiv a sub_step_size) (15 * 16)"
    using assms(1) S by (intro bnd_fdiv) simp_all
  then show "bnd (fdiv a sub_step_size) 240"
    by simp
  have "rounds_to (fdiv a sub_step_size) (fval a * UNIT * sgn (fval sub_step_size)) \<bar>fval sub_step_size\<bar>"
    using assms(1) S by (intro rounds_fdiv) (simp_all add: bnd_def)
  then show "0 \<le> fval (fdiv a sub_step_size)"
    using assms(2) S(3) by (elim rounds_to_ge) (simp_all add: srep_def representable_small)
qed

lemma substep_bnd: "bnd d 1 \<Longrightarrow> 1 \<le> n \<Longrightarrow> n \<le> 240 \<Longrightarrow> bnd (fdiv d (int_to_f32 n)) 1"
  using bnd_fdiv [of d 1 "int_to_f32 n" 1] int_to_f32_exact [of n] by simp

lemma num_steps_covers:
  assumes "bnd a 15" and "num_steps a = Some n" and "0 \<le> fval a"
  shows "1 \<le> n" and "n \<le> 240"
    and "fval a \<noteq> 0 \<Longrightarrow> fval (fdiv a sub_step_size) \<le> n * UNIT"
    and "2 ^ 24 * \<bar>\<bar>fval (fdiv a sub_step_size)\<bar> * fval sub_step_size - fval a * UNIT\<bar>
      \<le> max (fval a * UNIT) (2 ^ 23 * fval sub_step_size)"
proof -
  show "1 \<le> n" and "n \<le> 240"
    using num_steps_defined [OF assms(1)] assms(2) by auto
  have S: "is_fin sub_step_size" "wf_f32 sub_step_size" "0 < fval sub_step_size" "UNIT \<le> 16 * fval sub_step_size"
    by (simp_all add: const_vals sval_def representable_def float_eval)
  have b: "bnd (fdiv a sub_step_size) (15 * 16)"
    using assms(1) S by (intro bnd_fdiv) simp_all
  have r: "rounds_to (fdiv a sub_step_size) (fval a * UNIT * sgn (fval sub_step_size)) \<bar>fval sub_step_size\<bar>"
    using assms(1) S by (intro rounds_fdiv) (simp_all add: bnd_def)
  show "2 ^ 24 * \<bar>\<bar>fval (fdiv a sub_step_size)\<bar> * fval sub_step_size - fval a * UNIT\<bar>
      \<le> max (fval a * UNIT) (2 ^ 23 * fval sub_step_size)"
    using rounds_to_error [OF r bnd_fin [OF b]] S(3) assms(3) by simp
  show "fval (fdiv a sub_step_size) \<le> n * UNIT" if "fval a \<noteq> 0"
  proof -
    have "fgt a fzero"
      using assms(1,3) that by (auto simp: flt_def fzero_def sval_def bnd_def is_fin_not_NaN)
    then have "- (- fval (fdiv a sub_step_size) div UNIT) \<le> n"
      using assms(2) bnd_floor_int(3) [OF b] by (auto simp: num_steps_def)
    then show ?thesis
      using le_div_int_iff [of UNIT "- n" "- fval (fdiv a sub_step_size)"] by simp
  qed
qed

lemma substep_duration:
  assumes "dt_ok d" and "1 \<le> n" and "n \<le> 240" and "0 \<le> v" and "v \<le> 15 * UNIT"
  shows "2 ^ 24 * (v * \<bar>fval (fdiv d (int_to_f32 n))\<bar> * n - v * fval d)
      \<le> max (v * fval d) (2 ^ 23 * (15 * UNIT * n))"
proof -
  let ?w = "\<bar>fval (fdiv d (int_to_f32 n))\<bar>"
  have i: "fval (int_to_f32 n) = n * UNIT" "is_fin (int_to_f32 n)" "wf_f32 (int_to_f32 n)"
    using int_to_f32_exact [of n] assms by simp_all
  have d: "bnd d 1" "0 \<le> fval d"
    using assms(1) by (simp_all add: dt_ok_def)
  have b: "bnd (fdiv d (int_to_f32 n)) (1 * 1)"
    using d i assms(2) by (intro bnd_fdiv) simp_all
  have "rounds_to (fdiv d (int_to_f32 n)) (fval d * UNIT * sgn (n * UNIT)) \<bar>n * UNIT\<bar>"
    using d i assms(2) rounds_fdiv [of d "int_to_f32 n"] by (simp add: bnd_def)
  from rounds_to_error [OF this bnd_fin [OF b]]
  have err: "2 ^ 24 * \<bar>?w * n * UNIT - fval d * UNIT\<bar> \<le> max (fval d * UNIT) (2 ^ 23 * n * UNIT)"
    using d(2) assms(2) by (simp add: mult.assoc)
  define X where "X = ?w * n"
  have "2 ^ 24 * (X - fval d) \<le> max (fval d) (2 ^ 23 * n)"
    using err unfolding X_def [symmetric] by (simp add: max_def abs_if split: if_splits)
  then have "2 ^ 24 * (?w * n - fval d) \<le> max (fval d) (2 ^ 23 * n)"
    by (simp only: X_def)
  then have "v * (2 ^ 24 * (?w * n - fval d)) \<le> v * max (fval d) (2 ^ 23 * n)"
    using assms(4) by (rule mult_left_mono)
  also have "\<dots> = max (v * fval d) (2 ^ 23 * (v * n))"
    using assms(4) by (simp add: max_mult_distrib_left mult_ac)
  also have "\<dots> \<le> max (v * fval d) (2 ^ 23 * (15 * UNIT * n))"
    using mult_right_mono [OF assms(5), of n] assms(2) by (intro max.mono) simp_all
  finally show ?thesis
    by (simp add: algebra_simps)
qed

lemma substep_within_threshold:
  assumes "vy_ok v" and "dt_ok d" and "num_steps (ffabs (fmul v d)) = Some n"
  shows "\<bar>fval (fmul v (fdiv d (int_to_f32 n)))\<bar> \<le> fval GROUND_THRESHOLD"
proof -
  define w where "w = fdiv d (int_to_f32 n)"
  have v: "bnd v 15" and d: "bnd d 1" "0 \<le> fval d"
    using assms(1,2) by (simp_all add: vy_ok_bnd dt_ok_def)
  have m: "bnd (fmul v d) (15 * 1)"
    using v d(1) by (rule bnd_fmul) simp
  define t where "t = fval (ffabs (fmul v d))"
  have t: "t = \<bar>fval (fmul v d)\<bar>"
    using m by (simp add: t_def fval_ffabs bnd_def)
  have a: "bnd (ffabs (fmul v d)) 15" "0 \<le> fval (ffabs (fmul v d))"
    using m t by (simp_all add: t_def)
  note n = num_steps_covers [OF a(1) assms(3) a(2)]
  have "rounds_to (fmul v d) (fval v * fval d) UNIT"
    using v d by (intro rounds_fmul) (simp_all add: bnd_def)
  from rounds_to_error [OF this bnd_fin [OF m]]
  have mul: "2 ^ 24 * \<bar>t * UNIT - \<bar>fval v\<bar> * fval d\<bar> \<le> max (\<bar>fval v\<bar> * fval d) (2 ^ 23 * UNIT)"
    using d(2) by (simp add: t abs_mult)
  let ?q = "\<bar>fval (fdiv (ffabs (fmul v d)) sub_step_size)\<bar>"
  have quot: "2 ^ 24 * \<bar>?q * fval sub_step_size - t * UNIT\<bar>
      \<le> max (t * UNIT) (2 ^ 23 * fval sub_step_size) \<and> ?q \<le> n * UNIT" if "t \<noteq> 0"
    using n(4) num_steps_quotient [OF a] n(3) that by (simp add: t_def)
  have "2 ^ 24 * (\<bar>fval v\<bar> * \<bar>fval w\<bar> * n - \<bar>fval v\<bar> * fval d)
      \<le> max (\<bar>fval v\<bar> * fval d) (2 ^ 23 * (15 * UNIT * n))"
    unfolding w_def using v by (intro substep_duration assms n) (simp_all add: bnd_def)
  from substep_arith [OF mul quot this]
  have "\<bar>fval v\<bar> * \<bar>fval w\<bar> * n \<le> fval GROUND_THRESHOLD * UNIT * n"
    using n(1) d(2) a(2) by (simp add: t_def)
  then have "\<bar>fval v * fval w\<bar> \<le> fval GROUND_THRESHOLD * UNIT"
    using n(1) by (simp add: abs_mult)
  moreover have "rounds_to (fmul v w) (fval v * fval w) UNIT"
    unfolding w_def using v num_steps_quotient(2) [OF a] substep_bnd [OF d(1) n(1,2)]
    by (intro rounds_fmul) (simp_all add: bnd_def)
  moreover have "srep (fval GROUND_THRESHOLD)" "srep (- fval GROUND_THRESHOLD)" "\<bar>fval GROUND_THRESHOLD\<bar> \<le> OVERFLOW"
    by (simp_all add: const_vals srep_def representable_def float_eval)
  ultimately show ?thesis
    unfolding w_def [symmetric] abs_le_iff
    using rounds_to_le [of "fmul v w" _ UNIT "fval GROUND_THRESHOLD"]
      rounds_to_ge [of "fmul v w" _ UNIT "- fval GROUND_THRESHOLD"] by (simp add: minus_le_iff)
qed

subsection \<open>What a fall does\<close>

text \<open>The height after \<open>k\<close> substeps of a fall, and the state that lands on a ground.\<close>

fun fall_height :: "f32 \<Rightarrow> f32 \<Rightarrow> nat \<Rightarrow> f32" where
  "fall_height y step 0 = y"
| "fall_height y step (Suc k) = fall_height (fadd y step) step k"

definition landed :: "GroundResult \<Rightarrow> PhysicsState \<Rightarrow> PhysicsState" where
  "landed g s = set_vy (fneg (flit 2 1)) (set_py (fadd (groundY g) PLAYER_HALF_H)
     (s\<lparr>isGrounded := True, isJumping := False\<rparr>))"

lemma landed_set_py [simp]: "landed g (set_py y s) = landed g s"
  by (simp add: landed_def phys_upd_defs)

lemma set_py_set_py [simp]: "set_py y (set_py z s) = set_py y s"
  by (simp add: phys_upd_defs)

text \<open>The ground test of a fall after \<open>k\<close> substeps of height \<open>step\<close>.\<close>

definition ground_after :: "tilemap \<Rightarrow> bool \<Rightarrow> f32 \<Rightarrow> PhysicsState \<Rightarrow> nat \<Rightarrow> GroundResult option" where
  "ground_after m ig step s k = CheckGround m (pos (set_py (fall_height (vecy (pos s)) step k) s)) ig"

definition no_ground_after :: "tilemap \<Rightarrow> bool \<Rightarrow> f32 \<Rightarrow> PhysicsState \<Rightarrow> nat \<Rightarrow> bool" where
  "no_ground_after m ig step s k \<longleftrightarrow> (\<exists>g. ground_after m ig step s k = Some g \<and> \<not> groundHit g)"

lemma ground_after_Suc:
  "ground_after m ig step (set_py (fadd (vecy (pos s)) step) s) k = ground_after m ig step s (Suc k)"
  by (simp add: ground_after_def)

lemma no_ground_after_Suc:
  "no_ground_after m ig step (set_py (fadd (vecy (pos s)) step) s) k = no_ground_after m ig step s (Suc k)"
  by (simp add: no_ground_after_def ground_after_Suc)

lemma Ball_from_one:
  "Q 1 \<Longrightarrow> \<forall>j\<in>{1..<k}. Q (Suc j) \<Longrightarrow> \<forall>j\<in>{1..<Suc k}. Q j"
  "Q 1 \<Longrightarrow> \<forall>j\<in>{1..k}. Q (Suc j) \<Longrightarrow> \<forall>j\<in>{1..Suc k}. Q j" for k :: nat
  by (auto simp: Ball_def) (metis One_nat_def Suc_le_eq Suc_le_mono Suc_less_eq not0_implies_Suc not_less_eq_eq zero_less_Suc le_zero_eq less_Suc_eq_0_disj le_Suc_eq)+

lemma fall_loop_first_ground:
  assumes "fall_loop m ig d n s = Some s'"
  defines "step \<equiv> fmul (vecy (vel s)) d"
  shows "(\<exists>k\<in>{1..n}. \<exists>g. ground_after m ig step s k = Some g \<and> groundHit g \<and> s' = landed g s
            \<and> (\<forall>j\<in>{1..<k}. no_ground_after m ig step s j))
       \<or> (s' = set_py (fall_height (vecy (pos s)) step n) s \<and> (\<forall>j\<in>{1..n}. no_ground_after m ig step s j))"
  using assms(1) unfolding step_def
proof (induction n arbitrary: s)
  case 0
  then show ?case
    by (simp add: phys_upd_defs)
next
  case (Suc n)
  let ?step = "fmul (vecy (vel s)) d"
  let ?s1 = "set_py (fadd (vecy (pos s)) ?step) s"
  obtain g where g: "CheckGround m (pos ?s1) ig = Some g"
    using Suc.prems by (auto simp: Let_def)
  then have g1: "ground_after m ig ?step s 1 = Some g"
    by (simp add: ground_after_def)
  show ?case
  proof (cases "groundHit g")
    case True
    then have "s' = landed g s"
      using Suc.prems g by (simp add: Let_def landed_def phys_upd_defs)
    with True g1 show ?thesis
      by (intro disjI1 bexI [of _ 1] exI [of _ g]) auto
  next
    case False
    then have "fall_loop m ig d n ?s1 = Some s'"
      using Suc.prems g by (simp add: Let_def)
    note IH = Suc.IH [OF this]
    have free: "no_ground_after m ig ?step s 1"
      using False g1 by (simp add: no_ground_after_def)
    from IH show ?thesis
    proof (elim disjE bexE exE conjE, goal_cases)
      case (1 k g')
      have "\<forall>j\<in>{1..<Suc k}. no_ground_after m ig ?step s j"
        using 1 free by (intro Ball_from_one) (simp_all add: no_ground_after_Suc)
      then show ?case
        using 1 by (intro disjI1 bexI [of _ "Suc k"] exI [of _ g']) (simp_all add: ground_after_Suc)
    next
      case 2
      then have "\<forall>j\<in>{1..Suc n}. no_ground_after m ig ?step s j"
        using free by (intro Ball_from_one) (simp_all add: no_ground_after_Suc)
      then show ?case
        using 2 by (intro disjI2) simp
    qed
  qed
qed

subsection \<open>On a ladder\<close>

lemma walk_step_off_ladder:
  assumes "walk_step m cmd dt s = Some s'"
  shows "isOnLadder s' = isOnLadder s"
    and "lastInputSeq s' = (if inputSeq cmd \<noteq> 0 then inputSeq cmd else lastInputSeq s)"
proof -
  have fall: "isOnLadder t' = isOnLadder t \<and> lastInputSeq t' = lastInputSeq t"
    if "fall_loop m ig d n t = Some t'" for ig d n t t'
    using that by (induction n arbitrary: t) (fastforce simp: Let_def split: if_splits)+
  have vert: "isOnLadder t' = isOnLadder t \<and> lastInputSeq t' = lastInputSeq t"
    if "move_vertical m d ig t = Some t'" for ig d t t'
    using that fall by (auto simp: move_vertical_def Let_def split: if_splits)
  have horiz: "isOnLadder t' = isOnLadder t \<and> lastInputSeq t' = lastInputSeq t"
    if "move_horizontal m mx d t = Some t'" for mx d t t'
    using that by (auto simp: move_horizontal_def Let_def split: if_splits)
  obtain d ig s1 s2 s3 where "ground_jump_gravity m cmd d ig (update_direction cmd (move_x cmd) (update_drop_timer cmd d s)) = Some s1"
      "move_horizontal m (move_x cmd) d s1 = Some s2" "move_vertical m d ig s2 = Some s3"
      "s' = update_last_seq cmd s3"
    using assms by (auto simp: walk_step_def Let_def)
  then have "isOnLadder s3 = isOnLadder s \<and> lastInputSeq s3 = lastInputSeq s \<and> s' = update_last_seq cmd s3"
    using horiz vert by (auto simp: ground_jump_gravity_eq)
  then show "isOnLadder s' = isOnLadder s"
    and "lastInputSeq s' = (if inputSeq cmd \<noteq> 0 then inputSeq cmd else lastInputSeq s)"
    by (auto simp: update_last_seq_def)
qed

lemma SimulatePlayer_on_ladder:
  assumes "SimulatePlayer m cmd dt s = Some s'" and "isOnLadder s" and "isOnLadder s'"
  shows "\<not> jump cmd \<and> s' = snd (ladder_climb cmd (use_dt cmd dt) (s\<lparr>isCrouching := False\<rparr>))"
proof -
  let ?s0 = "s\<lparr>isCrouching := False\<rparr>"
  obtain v s1 where c: "ladder_climb cmd (use_dt cmd dt) ?s0 = (v, s1)"
    by fastforce
  have on: "isOnLadder s1"
    using ladder_climb_frame [of cmd "use_dt cmd dt" ?s0] c assms(2) by simp
  obtain r where r: "ladder_step m cmd dt s = Some r"
      "(case r of Return t \<Rightarrow> Some t | FallThrough t \<Rightarrow> walk_step m cmd dt t) = Some s'"
    using assms(1,2) by (auto simp: SimulatePlayer_def)
  have walk: "\<not> isOnLadder t" if "r = FallThrough t" for t
    using r(1) that by (auto simp: ladder_step_def Let_def c on split: if_splits)
  have "r = Return s'"
    using r(2) walk walk_step_off_ladder(1) assms(3) by (cases r) auto
  with r(1) show ?thesis
    using assms(3) c by (auto simp: ladder_step_def Let_def on split: if_splits)
qed

subsection \<open>No jump in the air\<close>

lemma vy_le_landing: "fval (fneg (flit 2 1)) < 0"
  by (simp add: float_eval)

lemma fall_loop_vy:
  "fall_loop m ig d n s = Some s' \<Longrightarrow> vecy (vel s') \<in> {vecy (vel s), fneg (flit 2 1)}"
  by (induction n arbitrary: s) (fastforce simp: Let_def split: if_splits)+

lemma move_vertical_vy:
  assumes "move_vertical m d ig s = Some s'"
  shows "fval (vecy (vel s')) \<le> max (fval (vecy (vel s))) 0 \<and>
    (\<not> fgt (vecy (vel s)) fzero \<longrightarrow> fval (vecy (vel s')) \<le> max (fval (vecy (vel s))) (fval (fneg (flit 2 1))))"
proof (cases "fgt (vecy (vel s)) fzero")
  case True
  then show ?thesis
    using assms by (auto simp: move_vertical_def Let_def fzero_def sval_def split: if_splits)
next
  case False
  then obtain n where "fall_loop m ig (fdiv d (int_to_f32 n)) (nat n) s = Some s'"
    using assms by (auto simp: move_vertical_def Let_def)
  from fall_loop_vy [OF this] False show ?thesis
    using vy_le_landing by auto
qed

lemma move_horizontal_vel_y: "move_horizontal m mx d s = Some s' \<Longrightarrow> vecy (vel s') = vecy (vel s)"
  by (auto simp: move_horizontal_def Let_def split: if_splits)

lemma ladder_step_lastInputSeq:
  "ladder_step m cmd dt s = Some r \<Longrightarrow> lastInputSeq (flow_state r) = lastInputSeq s"
  using ladder_climb_frame(9) [of cmd "use_dt cmd dt" "s\<lparr>isCrouching := False\<rparr>"]
  by (auto simp: ladder_step_def Let_def simp del: ladder_climb_frame split: if_splits prod.splits)

subsection \<open>Where a ladder can be entered\<close>

lemma ladder_column_gap:
  assumes "finite (ladder m)" and "int (card (ladder m)) < b - a" and "INT_MIN \<le> a" and "b \<le> INT_MAX"
    and "in_i32 cx"
  shows "\<exists>k\<in>{a..<b}. \<not> IsLadder m cx k"
proof (rule ccontr)
  assume no: "\<not> ?thesis"
  have rng: "in_i32 k" if "k \<in> {a..<b}" for k
    using that assms(3,4) by (simp add: in_i32_def)
  have "inj_on (PackCell cx) {a..<b}"
    using rng PackCell_inject assms(5) by (intro inj_onI) blast
  moreover have "PackCell cx ` {a..<b} \<subseteq> ladder m"
    using no by (auto simp: IsLadder_def)
  ultimately have "card {a..<b} \<le> card (ladder m)"
    using assms(1) by (metis card_image card_mono)
  with assms(2) show False by simp
qed

lemma GetLadderExtent_defined:
  assumes "finite (ladder m)" and "card (ladder m) < 1000000"
    and "- 1000000000 \<le> cy" and "cy \<le> 1000000000" and "in_i32 cx"
  shows "\<exists>e. GetLadderExtent m cx cy = Some e"
proof -
  obtain k where "k \<in> {cy - 1000000..<cy}" "\<not> IsLadder m cx k"
    using ladder_column_gap [of m cy "cy - 1000000" cx] assms by auto
  then obtain lo where lo: "ladder_down m cx cy = Some lo"
    using ladder_down_defined [of m cx k cy] assms by auto
  obtain k' where "k' \<in> {cy + 1..<cy + 1 + 1000000}" "\<not> IsLadder m cx k'"
    using ladder_column_gap [of m "cy + 1 + 1000000" "cy + 1" cx] assms by auto
  then obtain hi where hi: "ladder_up m cx cy = Some hi" "hi < k'" "k' \<le> cy + 1000000"
    using ladder_up_defined [of m cx k' cy] assms by auto
  then have "in_i32 (hi + 1)"
    using ladder_up_maximal [OF hi(1)] assms by (simp add: in_i32_def)
  with lo hi(1) show ?thesis
    by (simp add: GetLadderExtent_def i32_def Let_def)
qed


lemma HandleLadderState_defined:
  assumes "map_ok m" and "finite (ladder m)" and "card (ladder m) < 1000000"
    and "bnd x n" and "bnd y n" and "n \<le> 1000000"
  shows "\<exists>s'. HandleLadderState m on x y velx vely s = Some s'"
proof (cases "on \<and> loaded m")
  case True
  then have cs: "cell_size_ok (cellSizeX m)" "cell_size_ok (cellSizeY m)"
    using assms(1) by (simp_all add: map_ok_def)
  have n: "8 * n \<le> 2 ^ 24"
    using assms(6) by simp
  obtain cx where cx: "WorldToCell x (cellSizeX m) = Some cx" "\<bar>cx\<bar> \<le> 8 * n"
    using WorldToCell_defined [OF assms(4) cs(1) n] by auto
  obtain cy where cy: "WorldToCell y (cellSizeY m) = Some cy" "\<bar>cy\<bar> \<le> 8 * n"
    using WorldToCell_defined [OF assms(5) cs(2) n] by auto
  have rng: "in_i32 cx" "in_i32 (cy - 1)" "- 1000000000 \<le> cy - 1" "cy \<le> 1000000000"
    using cx(2) cy(2) assms(6) by (auto simp: in_i32_def)
  then obtain e e' where "GetLadderExtent m cx cy = Some e" "GetLadderExtent m cx (cy - 1) = Some e'"
    using GetLadderExtent_defined [OF assms(2,3), of cy cx]
      GetLadderExtent_defined [OF assms(2,3), of "cy - 1" cx] by auto
  then show ?thesis
    using cx(1) cy(1) rng(2) True
    by (cases e; cases e') (simp add: HandleLadderState_def Let_def i32_in)
qed (simp add: HandleLadderState_def Let_def)

subsection \<open>Properties\<close>

definition flat_map :: tilemap where
  "flat_map = Map_new\<lparr>loaded := True, solid := {PackCell 0 (-1), PackCell (-1) (-1)}\<rparr>"

definition CLIENT_DT :: f32 where "CLIENT_DT = fdiv (flit 1 1) CLIENT_TICK_RATE"

definition falling :: PhysicsState where
  "falling = PhysicsState_new\<lparr>pos := \<lparr>vecx = fzero, vecy = flit 5 1\<rparr>, vel := \<lparr>vecx = fzero, vecy = fneg (flit 10 1)\<rparr>,
     isGrounded := False\<rparr>"

definition climbing :: PhysicsState where
  "climbing = PhysicsState_new\<lparr>isOnLadder := True, ladderCenterX := flit 1 2, ladderMaxY := flit 10 1\<rparr>"

definition climb_cmd :: InputCmd where
  "climb_cmd = zero_input\<lparr>moveUp := True, inputSeq := 7\<rparr>"

lemma flat_map_ok: "map_ok flat_map"
  by (simp add: flat_map_def map_ok_def cell_size_ok_def Map_new_def const_vals float_eval representable_def cong: eval_cong)

lemma CLIENT_DT_val [const_vals]: "CLIENT_DT = FFin False 14272476608044879822203050197581256896544768"
  by (simp add: CLIENT_DT_def const_vals float_eval cong: eval_cong)

lemma CLIENT_DT_ok: "dt_ok CLIENT_DT"
  by (simp add: dt_ok_def bnd_def const_vals float_eval representable_def cong: eval_cong)

lemma falling_ok: "state_ok 10 falling" and falling_vy: "\<not> fgt (vecy (vel falling)) fzero"
  by (simp_all add: falling_def state_ok_def PhysicsState_new_def vy_ok_def bnd_def const_vals float_eval representable_def cong: eval_cong)

lemma climbing_ok: "state_ok 11 climbing"
  by (simp_all add: climbing_def state_ok_def PhysicsState_new_def vy_ok_def bnd_def const_vals float_eval representable_def cong: eval_cong)

lemma climbing_step:
  "ladder_step flat_map climb_cmd CLIENT_DT climbing =
     Some (Return (snd (ladder_climb climb_cmd CLIENT_DT (climbing\<lparr>isCrouching := False\<rparr>))))"
  by (simp add: ladder_step_def ladder_climb_def climbing_def climb_cmd_def zero_input_def PhysicsState_new_def use_dt_def
     phys_upd_defs const_vals float_eval Let_def cong: eval_cong)

lemma climbing_stays:
  "SimulatePlayer flat_map climb_cmd CLIENT_DT climbing =
     Some (snd (ladder_climb climb_cmd CLIENT_DT (climbing\<lparr>isCrouching := False\<rparr>)))"
  and climbing_on: "isOnLadder climbing"
  and climbing_on': "isOnLadder (snd (ladder_climb climb_cmd CLIENT_DT (climbing\<lparr>isCrouching := False\<rparr>)))"
  by (simp_all add: SimulatePlayer_def climbing_step) (simp_all add: climbing_def)

lemma climb_cmd_wf: "wf_f32 (deltaTime climb_cmd)" and climb_cmd_seq: "inputSeq climb_cmd = 7"
  and climbing_centre: "ladderCenterX climbing = flit 1 2"
  and climbing_faces: "fle (ladderMinY climbing) (fadd (ladderMaxY climbing) PLAYER_HALF_H)"
  by (simp_all add: climb_cmd_def zero_input_def climbing_def PhysicsState_new_def const_vals float_eval
    representable_def cong: eval_cong)

text \<open>No step of \<open>SimulatePlayer\<close> is undefined behaviour within the world: on a map whose cells are between 1/8 and 4 units, from a position within a million units of the origin and an admissible vertical speed, for any command at all, every conversion to \<open>int\<close> and every loop of the step is defined, the vertical speed stays between the terminal velocity and the jump speed, and the position moves by a bounded amount.\<close>

lemma simulate_never_undefined:
  assumes "map_ok m" and "dt_ok dt" and "wf_f32 (deltaTime cmd)" and "state_ok n s" and "n \<le> 1000000"
  shows "\<exists>s'. SimulatePlayer m cmd dt s = Some s' \<and> state_ok (n + 3641) s'"
  using assms by (rule SimulatePlayer_total)

lemma simulate_never_undefined_witness:
  "\<exists>s'. SimulatePlayer flat_map (zero_input\<lparr>jump := True\<rparr>) (fdiv (flit 1 1) CLIENT_TICK_RATE) PhysicsState_new
     = Some s' \<and> state_ok (1 + 3641) s'"
  by (rule simulate_never_undefined)
    (simp_all add: flat_map_def map_ok_def cell_size_ok_def Map_new_def dt_ok_def bnd_def zero_input_def
      state_ok_def PhysicsState_new_def vy_ok_def const_vals float_eval representable_def cong: eval_cong)

text \<open>C8: A fall cannot tunnel through a platform: \<open>SimulatePlayer\<close> splits it into between 1 and 240 substeps, each no longer than \<open>GROUND_THRESHOLD\<close>, tests the ground after every one of them, and lands at the first that finds ground (feet on its top, grounded, no longer jumping); if none does it ends below all of them.\<close>

lemma fall_meets_first_ground:
  assumes "vy_ok (vecy (vel s))" and "\<not> fgt (vecy (vel s)) fzero" and "dt_ok d"
    and "move_vertical m d ig s = Some s'"
  shows "\<exists>n step. num_steps (ffabs (fmul (vecy (vel s)) d)) = Some n
    \<and> 1 \<le> n \<and> n \<le> 240 \<and> step = fmul (vecy (vel s)) (fdiv d (int_to_f32 n))
    \<and> \<bar>fval step\<bar> \<le> fval GROUND_THRESHOLD
    \<and> ((\<exists>k\<in>{1..nat n}. \<exists>g. ground_after m ig step s k = Some g \<and> groundHit g \<and> s' = landed g s
           \<and> (\<forall>j\<in>{1..<k}. no_ground_after m ig step s j))
       \<or> (s' = set_py (fall_height (vecy (pos s)) step (nat n)) s
           \<and> (\<forall>j\<in>{1..nat n}. no_ground_after m ig step s j)))"
proof -
  obtain n where n: "num_steps (ffabs (fmul (vecy (vel s)) d)) = Some n"
    "fall_loop m ig (fdiv d (int_to_f32 n)) (nat n) s = Some s'"
    using assms(2,4) by (auto simp: move_vertical_def Let_def)
  have "bnd (fmul (vecy (vel s)) d) (15 * 1)"
    using assms(1,3) by (intro bnd_fmul) (simp_all add: vy_ok_bnd dt_ok_bnd)
  then have "1 \<le> n \<and> n \<le> 240"
    using num_steps_defined [of "ffabs (fmul (vecy (vel s)) d)"] n(1) by auto
  then show ?thesis
    using n(1) substep_within_threshold [OF assms(1,3) n(1)] fall_loop_first_ground [OF n(2)] by blast
qed

lemma fall_meets_first_ground_witness:
  "\<exists>s' n step. move_vertical flat_map CLIENT_DT False falling = Some s'
    \<and> num_steps (ffabs (fmul (vecy (vel falling)) CLIENT_DT)) = Some n
    \<and> \<bar>fval step\<bar> \<le> fval GROUND_THRESHOLD"
proof -
  obtain s' where "move_vertical flat_map CLIENT_DT False falling = Some s'"
    using move_vertical_defined [OF flat_map_ok CLIENT_DT_ok falling_ok] by auto
  with fall_meets_first_ground [of falling CLIENT_DT flat_map False s'] show ?thesis
    using falling_ok CLIENT_DT_ok by (fastforce simp: falling_vy state_ok_def)
qed

text \<open>C22: A player who stays on a ladder is on its centre line, does not move sideways, and stands between its bottom and half a body above its top.\<close>

lemma ladder_confines:
  assumes "SimulatePlayer m cmd dt s = Some s'" and "isOnLadder s" and "isOnLadder s'"
    and "dt_ok dt" and "wf_f32 (deltaTime cmd)" and "state_ok n s" and "n \<le> 1000000"
    and "fle (ladderMinY s) (fadd (ladderMaxY s) PLAYER_HALF_H)"
  shows "vecx (pos s') = ladderCenterX s \<and> vecx (vel s') = fzero
    \<and> fle (ladderMinY s) (vecy (pos s')) \<and> fle (vecy (pos s')) (fadd (ladderMaxY s) PLAYER_HALF_H)"
proof -
  let ?d = "use_dt cmd dt" and ?s = "s\<lparr>isCrouching := False\<rparr>"
  have s': "s' = snd (ladder_climb cmd ?d ?s)"
    using SimulatePlayer_on_ladder [OF assms(1-3)] by simp
  have "state_ok (n + 3) (snd (ladder_climb cmd ?d ?s))"
    using assms by (intro ladder_climb_ok use_dt_ok) (auto simp: state_ok_def)
  then have "vecy (pos s') \<noteq> FNaN"
    by (auto simp: s' state_ok_def bnd_def)
  moreover have "ladderMinY s \<noteq> FNaN" "fadd (ladderMaxY s) PLAYER_HALF_H \<noteq> FNaN"
    using assms(8) by (auto simp: fle_def)
  ultimately show ?thesis
    using assms(8)
    by (auto simp: s' ladder_climb_def Let_def fle_def flt_def)
qed

lemma ladder_confines_witness:
  "vecx (pos (snd (ladder_climb climb_cmd CLIENT_DT (climbing\<lparr>isCrouching := False\<rparr>)))) = flit 1 2"
  using ladder_confines [OF climbing_stays climbing_on climbing_on' CLIENT_DT_ok climb_cmd_wf climbing_ok]
  by (simp add: climbing_faces climbing_centre)

text \<open>C23: A processed command's sequence number becomes the acknowledged one, except while the ladder block returns early: then the player has moved by the command and \<open>lastInputSeq\<close> still names an earlier one.\<close>

lemma input_seq_acknowledged:
  assumes "SimulatePlayer m cmd dt s = Some s'" and "inputSeq cmd \<noteq> 0"
  shows "lastInputSeq s' =
    (if isOnLadder s \<and> (\<exists>t. ladder_step m cmd dt s = Some (Return t)) then lastInputSeq s else inputSeq cmd)"
proof (cases "isOnLadder s")
  case True
  then obtain r where r: "ladder_step m cmd dt s = Some r"
      "(case r of Return t \<Rightarrow> Some t | FallThrough t \<Rightarrow> walk_step m cmd dt t) = Some s'"
    using assms(1) by (auto simp: SimulatePlayer_def)
  show ?thesis
    using r True ladder_step_lastInputSeq [OF r(1)] walk_step_off_ladder(2) assms(2)
    by (cases r) simp_all
next
  case False
  then show ?thesis
    using assms walk_step_off_ladder(2) by (simp add: SimulatePlayer_def)
qed

lemma input_seq_acknowledged_witness:
  "lastInputSeq (snd (ladder_climb climb_cmd CLIENT_DT (climbing\<lparr>isCrouching := False\<rparr>))) = lastInputSeq climbing
     \<and> inputSeq climb_cmd = 7"
  using input_seq_acknowledged [OF climbing_stays] climbing_on climbing_step climb_cmd_seq by simp

text \<open>There is no jump in the air: with no ground under the feet, whatever the command, a step never raises the vertical speed (a landing sets it to -2).\<close>

lemma no_jump_in_air:
  assumes "SimulatePlayer m cmd dt s = Some s'" and "\<not> isOnLadder s"
    and "vy_ok (vecy (vel s))" and "dt_ok dt" and "wf_f32 (deltaTime cmd)"
    and "\<And>ig. \<exists>g. CheckGround m (pos s) ig = Some g \<and> \<not> groundHit g"
  shows "fval (vecy (vel s')) \<le> max (fval (vecy (vel s))) (fval (fneg (flit 2 1)))"
proof -
  let ?d = "use_dt cmd dt"
  let ?s0 = "update_direction cmd (move_x cmd) (update_drop_timer cmd ?d s)"
  let ?ig = "fgt (dropThroughTimer (update_drop_timer cmd ?d s)) fzero"
  obtain s1 s2 s3 where s1: "ground_jump_gravity m cmd ?d ?ig ?s0 = Some s1"
      and s2: "move_horizontal m (move_x cmd) ?d s1 = Some s2" and s3: "move_vertical m ?d ?ig s2 = Some s3"
      and s': "s' = update_last_seq cmd s3"
    using assms(1,2) by (auto simp: SimulatePlayer_def walk_step_def Let_def)
  obtain g where "CheckGround m (pos s) (?ig \<or> fgt (vecy (vel s)) fzero) = Some g" "\<not> groundHit g"
    using assms(6) by blast
  then have "s1 = after_ground cmd ?d False ?s0"
    using s1 by (auto simp: ground_jump_gravity_eq)
  moreover have "fval (vecy (vel (after_ground cmd ?d False ?s0))) \<le> fval (vecy (vel s))"
    using gravity_step_ok [OF assms(3) use_dt_ok [OF assms(4,5), of]] assms(3)
    by (auto simp: after_ground_def Let_def vy_ok_def)
  ultimately have "fval (vecy (vel s2)) \<le> fval (vecy (vel s))"
    using move_horizontal_vel_y [OF s2] by simp
  moreover have "0 \<le> fval (vecy (vel s2))" if "fgt (vecy (vel s2)) fzero"
    using that by (auto simp: flt_def fzero_def sval_def)
  ultimately show ?thesis
    using move_vertical_vy [OF s3] by (auto simp: s')
qed

lemma no_jump_in_air_witness:
  "\<exists>s'. SimulatePlayer Map_new (zero_input\<lparr>jump := True\<rparr>) CLIENT_DT falling = Some s'
     \<and> fval (vecy (vel s')) < 0"
proof -
  have wf: "wf_f32 (deltaTime (zero_input\<lparr>jump := True\<rparr>))"
    by (simp add: zero_input_def float_eval representable_def)
  have m: "map_ok Map_new" and off: "\<not> isOnLadder falling" and vy: "vy_ok (vecy (vel falling))"
    using falling_ok by (simp_all add: map_ok_def Map_new_def falling_def PhysicsState_new_def
      state_ok_def)
  obtain s' where s': "SimulatePlayer Map_new (zero_input\<lparr>jump := True\<rparr>) CLIENT_DT falling = Some s'"
    using SimulatePlayer_total [OF m CLIENT_DT_ok wf falling_ok] by auto
  have air: "\<exists>g. CheckGround Map_new (pos falling) ig = Some g \<and> \<not> groundHit g" for ig
    by (simp add: CheckGround_def Map_new_def falling_def const_vals float_eval Let_def cong: eval_cong)
  have "fval (vecy (vel falling)) < 0"
    by (simp add: falling_def float_eval)
  then show ?thesis
    using s' no_jump_in_air [OF s' off vy CLIENT_DT_ok wf air] vy_le_landing by auto
qed

text \<open>\<open>HandleLadderState\<close> trusts the position of the client: on a loaded map a NaN coordinate reaches the conversion to \<open>int\<close>, which is undefined behaviour.\<close>

lemma nan_ladder_state_undefined:
  assumes "loaded m"
  shows "HandleLadderState m True FNaN y velx vely s = None"
  using assms by (simp add: HandleLadderState_def WorldToCell_def Let_def)

lemma nan_ladder_state_undefined_witness:
  "HandleLadderState flat_map True FNaN fzero fzero fzero PhysicsState_new = None"
  by (rule nan_ladder_state_undefined) (simp add: flat_map_def)

text \<open>Away from such coordinates entering a ladder is defined: with both coordinates within a million units, whatever the tiles (fewer than a million ladder cells), \<open>HandleLadderState\<close> finishes, its scans for the ends of the ladder terminate inside \<open>int\<close>, and on the ladder the player is at the position the client named, at rest, off the ground.\<close>

lemma ladder_entry_defined:
  assumes "map_ok m" and "finite (ladder m)" and "card (ladder m) < 1000000"
    and "bnd x n" and "bnd y n" and "n \<le> 1000000"
  shows "\<exists>s'. HandleLadderState m on x y velx vely s = Some s'
    \<and> (if on then isOnLadder s' \<and> pos s' = \<lparr>vecx = x, vecy = y\<rparr> \<and> vel s' = \<lparr>vecx = fzero, vecy = fzero\<rparr>
          \<and> \<not> isGrounded s' \<and> \<not> isJumping s' else s' = s)"
proof -
  obtain s' where s': "HandleLadderState m on x y velx vely s = Some s'"
    using HandleLadderState_defined [OF assms] by blast
  then show ?thesis
    by (auto simp: HandleLadderState_def Let_def split: if_splits)
qed

lemma ladder_entry_defined_witness:
  "\<exists>s'. HandleLadderState flat_map True (flit 1 2) (flit 3 1) fzero fzero PhysicsState_new = Some s' \<and> isOnLadder s'"
  using ladder_entry_defined [OF flat_map_ok, of "flit 1 2" 10 "flit 3 1" True fzero fzero PhysicsState_new]
  by (auto simp: flat_map_def Map_new_def bnd_def float_eval representable_def cong: eval_cong)

end
