(* ===== verification/Messages.thy ===== *)
theory Messages
  imports Packet Player
begin

text \<open>
  The messages the server and the dummy client build and read (\<open>Proto/game.proto\<close>), and
  \<open>ServerCore/ProtoUtil.cpp\<close>. Only the fields the sources set or read are kept. The protobuf
  runtime is not part of the repository, and its generated classes only call it: serialising and
  parsing are the fields of \<open>proto_api\<close>.
\<close>

subsection \<open>Messages\<close>

text \<open>Protobuf enums are open: any \<open>int\<close> may arrive.\<close>

record PlayerInfo =
  info_player_id :: u64
  info_name :: string
  info_position :: Vec2
  info_dir :: int
  info_is_moving :: bool
  info_is_jumping :: bool

record S_PlayerState =
  ps_player_id :: u64
  ps_last_processed_input_seq :: u32
  ps_position :: Vec2
  ps_velocity :: Vec2
  ps_is_grounded :: bool
  ps_dir :: int
  ps_is_moving :: bool
  ps_is_jumping :: bool
  ps_is_on_ladder :: bool

record S_BroadcastMove =
  bm_player_id :: u64
  bm_position :: Vec2
  bm_velocity :: Vec2
  bm_dir :: int
  bm_is_grounded :: bool
  bm_is_moving :: bool
  bm_is_jumping :: bool
  bm_is_crouching :: bool
  bm_is_on_ladder :: bool
  bm_server_tick :: u32

record S_AttackResult =
  ar_attacker_id :: u64
  ar_skill_id :: u32
  ar_attack_type :: int
  ar_origin :: Vec2
  ar_aim_dir :: Vec2

record S_Chat =
  sc_player_id :: u64
  sc_name :: string
  sc_type :: int
  sc_message :: string

record C_InputCmd =
  ic_input_seq :: u32
  ic_delta_time :: f32
  ic_move_left :: bool
  ic_move_right :: bool
  ic_jump :: bool
  ic_drop_through :: bool
  ic_face_dir :: int
  ic_move_up :: bool
  ic_move_down :: bool

record C_Chat =
  cc_type :: int
  cc_message :: string

record C_Attack =
  ca_attack_type :: int
  ca_skill_id :: u32
  ca_aim_dir :: "Vec2 option"

record C_LadderState =
  cl_on_ladder :: bool
  cl_pos_x :: f32
  cl_pos_y :: f32
  cl_vel_x :: f32
  cl_vel_y :: f32

text \<open>The messages the sources serialise.\<close>

datatype message =
    S_EnterGame bool PlayerInfo
  | S_PlayerList "PlayerInfo list"
  | S_Spawn "PlayerInfo list"
  | S_Despawn "u64 list"
  | S_PlayerState_msg S_PlayerState
  | S_BroadcastMove_msg S_BroadcastMove
  | S_AttackResult_msg S_AttackResult
  | S_Chat_msg S_Chat
  | S_Pong u64 u64
  | C_EnterGame string
  | C_Chat_msg C_Chat

text \<open>
  \<open>SerializeToString\<close> and \<open>ParseFromArray\<close>; \<^term>\<open>None\<close> is the result \<open>false\<close>. Of the
  client messages the server parses without reading a field, only the result matters, and of
  the server messages the dummy client logs the same holds.
\<close>

record proto_api =
  serialize :: "message \<Rightarrow> byte list option"
  parse_C_EnterGame :: "byte list \<Rightarrow> string option"
  parse_C_InputCmd :: "byte list \<Rightarrow> C_InputCmd option"
  parse_C_Chat :: "byte list \<Rightarrow> C_Chat option"
  parse_C_Attack :: "byte list \<Rightarrow> C_Attack option"
  parse_C_UseItem :: "byte list \<Rightarrow> bool"
  parse_C_EnterZone :: "byte list \<Rightarrow> bool"
  parse_C_LadderState :: "byte list \<Rightarrow> C_LadderState option"
  parse_C_Ping :: "byte list \<Rightarrow> u64 option"
  parse_S_EnterGame :: "byte list \<Rightarrow> bool"
  parse_S_Spawn :: "byte list \<Rightarrow> bool"
  parse_S_Despawn :: "byte list \<Rightarrow> bool"
  parse_S_Chat :: "byte list \<Rightarrow> bool"
  parse_S_PlayerList :: "byte list \<Rightarrow> bool"

subsection \<open>\<open>MakePacketFromProto\<close>\<close>

text \<open>\<open>{}\<close> is the empty vector; \<^term>\<open>None\<close> is undefined behaviour in \<open>MakePacket\<close>.\<close>

definition MakePacketFromProto :: "proto_api \<Rightarrow> u16 \<Rightarrow> message \<Rightarrow> byte list option" where
  "MakePacketFromProto P opcode msg =
     (case serialize P msg of None \<Rightarrow> Some []
      | Some serialized \<Rightarrow>
          if length serialized > unat MAX_PACKET_SIZE - HEADER_SIZE then Some []
          else if serialized = [] then Some []
          else MakePacket opcode (Some serialized) (of_nat (length serialized)))"

text \<open>\<open>MakeSendBuffer (MakePacketFromProto (\<dots>))\<close>, as the game room calls it.\<close>

definition proto_buffer :: "proto_api \<Rightarrow> u16 \<Rightarrow> message \<Rightarrow> SendBufferRef option" where
  "proto_buffer P opcode msg = do { packet \<leftarrow> MakePacketFromProto P opcode msg; MakeSendBuffer packet }"

text \<open>The payload that can be sent: a serialisation that is neither empty nor too long.\<close>

definition sendable :: "proto_api \<Rightarrow> message \<Rightarrow> byte list option" where
  "sendable P msg = (case serialize P msg of None \<Rightarrow> None
     | Some s \<Rightarrow> if s \<noteq> [] \<and> length s + HEADER_SIZE \<le> unat MAX_PACKET_SIZE then Some s else None)"

lemma MakePacketFromProto_sendable:
  "MakePacketFromProto P opcode msg =
     Some (case sendable P msg of None \<Rightarrow> [] | Some s \<Rightarrow> packet_bytes (packet_of opcode s))"
  by (auto simp: MakePacketFromProto_def sendable_def MakePacket_of_nat split: option.split)

lemma packet_bytes_not_Nil [simp]: "packet_bytes p \<noteq> []"
  by (simp add: packet_bytes_def header_bytes_def)

definition buffer_of :: "byte list \<Rightarrow> SendBuffer" where
  "buffer_of bs = \<lparr>buffer = bs, writeSize = int (length bs)\<rparr>"

lemma buffer_of_simps [simp]: "sb_bytes (buffer_of bs) = bs" "writeSize (buffer_of bs) = int (length bs)"
  by (simp_all add: buffer_of_def sb_bytes_def)

lemma proto_buffer_sendable:
  "proto_buffer P opcode msg =
     Some (map_option (\<lambda>s. buffer_of (packet_bytes (packet_of opcode s))) (sendable P msg))"
proof (cases "sendable P msg")
  case (Some s)
  then have "length (packet_bytes (packet_of opcode s)) < 2147483648"
    by (auto simp: sendable_def packet_bytes_def packet_of_def split: option.splits if_splits)
  with Some show ?thesis
    by (simp add: proto_buffer_def MakePacketFromProto_sendable MakeSendBuffer_small buffer_of_def)
qed (simp add: proto_buffer_def MakePacketFromProto_sendable MakeSendBuffer_def)

text \<open>A runtime to compute examples with: empty lists serialise to nothing, all else to two bytes.\<close>

definition demo_proto :: proto_api where
  "demo_proto = \<lparr>serialize = \<lambda>m. Some (case m of S_PlayerList [] \<Rightarrow> [] | _ \<Rightarrow> [10, 0]),
     parse_C_EnterGame = \<lambda>_. Some ''bot'', parse_C_InputCmd = \<lambda>_. None,
     parse_C_Chat = \<lambda>_. Some \<lparr>cc_type = 0, cc_message = ''hi''\<rparr>, parse_C_Attack = \<lambda>_. None,
     parse_C_UseItem = \<lambda>_. True, parse_C_EnterZone = \<lambda>_. True, parse_C_LadderState = \<lambda>_. None,
     parse_C_Ping = \<lambda>_. Some 1, parse_S_EnterGame = \<lambda>_. True, parse_S_Spawn = \<lambda>_. True,
     parse_S_Despawn = \<lambda>_. True, parse_S_Chat = \<lambda>_. True, parse_S_PlayerList = \<lambda>_. True\<rparr>"

subsection \<open>Properties\<close>

text \<open>A message becomes a buffer or nothing, never a malformed packet: \<open>MakeSendBuffer (MakePacketFromProto (opcode, msg))\<close> never fails, is null exactly when serialising fails, is empty or is too long, and otherwise is a buffer whose bytes the parser of the other side reads back as one packet with that opcode and the serialised message as payload.\<close>

lemma message_becomes_one_packet:
  assumes "IsValidOpcode opcode"
  shows "\<exists>buf. proto_buffer P opcode msg = Some buf
    \<and> (buf = None \<longleftrightarrow> (case serialize P msg of None \<Rightarrow> True
          | Some s \<Rightarrow> s = [] \<or> length s + HEADER_SIZE > unat MAX_PACKET_SIZE))
    \<and> (\<forall>sb. buf = Some sb \<longrightarrow> TryGetPacket (sb_bytes sb @ rest) Packet_new
          = (Success, rest, packet_of opcode (the (serialize P msg))))"
  using TryGetPacket_encode [OF wf_packet_of [OF assms]]
  by (auto simp: proto_buffer_sendable sendable_def split: option.splits)

lemma message_becomes_one_packet_witness:
  "\<exists>buf. proto_buffer demo_proto OP_S_PLAYER_LIST (S_PlayerList []) = Some buf \<and> buf = None"
proof -
  have "IsValidOpcode OP_S_PLAYER_LIST"
    by (simp add: IsValidOpcode_def opcode_defs)
  from message_becomes_one_packet [OF this, of demo_proto "S_PlayerList []" "[]"] show ?thesis
    by (auto simp: demo_proto_def)
qed

end
