(* ===== verification/GameRoom.thy ===== *)
theory GameRoom
  imports NetService Movement Messages "HOL-Library.AList"
begin

text \<open>
  \<open>SimpleServer/GameRoom.cpp\<close> without the physics, \<open>ClientSession.h\<close>, and the two callbacks
  \<open>ServerMain.cpp\<close> installs. Players are shared objects: \<open>store\<close> maps their addresses to them, and
  the room, the sessions and the queued tasks hold addresses. The table of players is an
  association list in the order of iteration. A task is the closure that was queued, by its
  constructor and captured values. Log output is left out.
\<close>

subsection \<open>State\<close>

type_synonym pref = nat

record ClientSession = Session +
  csPlayer :: "pref option"

datatype task =
    Task_Enter pref
  | Task_Leave u64
  | Task_EnterGame pref string
  | Task_Chat pref string int
  | Task_BroadcastAttack pref u32 int f32 f32
  | Task_HandleLadderState pref bool f32 f32 f32 f32

record room =
  store :: "pref \<Rightarrow> Player option"
  players :: "(u64 \<times> pref) list"
  tmap :: tilemap
  serverTick :: u32
  taskQueue :: "task list"
  loopRunning :: bool
  nextPlayerId :: u64
  nextRef :: pref
  handlerRoom :: bool

type_synonym server = "(unit ClientSession_ext, room) net"

text \<open>Writing to a player; a dangling address is undefined.\<close>

definition put_player :: "pref \<Rightarrow> Player \<Rightarrow> server \<Rightarrow> server" where
  "put_player p pl w = w\<lparr>app := (app w)\<lparr>store := (store (app w))(p \<mapsto> pl)\<rparr>\<rparr>"

subsection \<open>Tasks and callbacks\<close>

definition PostTask :: "task \<Rightarrow> server \<Rightarrow> server" where
  "PostTask t w = w\<lparr>app := (app w)\<lparr>taskQueue := taskQueue (app w) @ [t]\<rparr>\<rparr>"

text \<open>The lambda given to \<open>SetOnConnected\<close>.\<close>

definition OnConnected :: "sref \<Rightarrow> server \<Rightarrow> server option" where
  "OnConnected s w = do {
     let id = nextPlayerId (app w);
     let p = nextRef (app w);
     let w = w\<lparr>app := (app w)\<lparr>nextPlayerId := id + 1, nextRef := p + 1\<rparr>\<rparr>;
     let w = put_player p (SetSession (Some s) (Player_new id '''')) w;
     w \<leftarrow> on_session s (\<lambda>x. x\<lparr>csPlayer := Some p\<rparr>) w;
     Some (PostTask (Task_Enter p) w)
   }"

text \<open>The lambda given to \<open>SetOnDisconnected\<close>.\<close>

definition OnDisconnected :: "sref \<Rightarrow> server \<Rightarrow> server option" where
  "OnDisconnected s w = do {
     x \<leftarrow> heap w s;
     (case csPlayer x of
        None \<Rightarrow> Some w
      | Some p \<Rightarrow> do {
          pl \<leftarrow> store (app w) p;
          Some (PostTask (Task_Leave (playerId pl)) (put_player p (SetSession None pl) w))
        })
   }"

subsection \<open>Sending\<close>

definition RoomSend :: "os_api \<Rightarrow> pref \<Rightarrow> SendBufferRef \<Rightarrow> server \<Rightarrow> server option" where
  "RoomSend os p buf w = do {
     pl \<leftarrow> store (app w) p;
     (case session pl of None \<Rightarrow> Some w | Some s \<Rightarrow> EnqueueSend os OnDisconnected s buf w)
   }"

definition RoomBroadcast :: "os_api \<Rightarrow> SendBufferRef \<Rightarrow> pref option \<Rightarrow> server \<Rightarrow> server option" where
  "RoomBroadcast os buf except w =
     for_each (\<lambda>p w. if Some p = except then Some w else RoomSend os p buf w) (map snd (players (app w))) w"

subsection \<open>Entering and leaving\<close>

definition Enter :: "pref \<Rightarrow> server \<Rightarrow> server option" where
  "Enter p w = do {
     pl \<leftarrow> store (app w) p;
     Some (w\<lparr>app := (app w)\<lparr>players := AList.update (playerId pl) p (players (app w))\<rparr>\<rparr>)
   }"

definition Leave :: "os_api \<Rightarrow> proto_api \<Rightarrow> u64 \<Rightarrow> server \<Rightarrow> server option" where
  "Leave os P pid w =
     (case map_of (players (app w)) pid of
        None \<Rightarrow> Some w
      | Some _ \<Rightarrow> do {
          buf \<leftarrow> proto_buffer P OP_S_DESPAWN (S_Despawn [pid]);
          w \<leftarrow> RoomBroadcast os buf None w;
          Some (w\<lparr>app := (app w)\<lparr>players := AList.delete pid (players (app w))\<rparr>\<rparr>)
        })"

definition FillPlayerInfo :: "Player \<Rightarrow> PlayerInfo" where
  "FillPlayerInfo pl =
     (let ps = physState pl in
      \<lparr>info_player_id = playerId pl, info_name = playerName pl, info_position = pos ps,
       info_dir = uint (dir ps), info_is_moving = isMoving ps, info_is_jumping = isJumping ps\<rparr>)"

definition EnterGame :: "os_api \<Rightarrow> proto_api \<Rightarrow> pref \<Rightarrow> string \<Rightarrow> server \<Rightarrow> server option" where
  "EnterGame os P p nm w =
     (if nm = [] \<or> length nm > 20 then Some w
      else do {
        pl \<leftarrow> store (app w) p;
        if entered pl then Some w
        else do {
          let pl = SetName nm pl;
          let w = put_player p pl w;
          let others = filter (\<lambda>q. q \<noteq> p) (map snd (players (app w)));
          buf \<leftarrow> proto_buffer P OP_S_ENTER_GAME (S_EnterGame True (FillPlayerInfo pl));
          w \<leftarrow> RoomSend os p buf w;
          infos \<leftarrow> those (map (\<lambda>q. map_option FillPlayerInfo (store (app w) q)) others);
          buf \<leftarrow> proto_buffer P OP_S_PLAYER_LIST (S_PlayerList infos);
          w \<leftarrow> RoomSend os p buf w;
          buf \<leftarrow> proto_buffer P OP_S_SPAWN (S_Spawn [FillPlayerInfo pl]);
          for_each (\<lambda>q w. RoomSend os q buf w) others w
        }
      })"

subsection \<open>Attacks and chat\<close>

definition BroadcastAttack ::
  "os_api \<Rightarrow> proto_api \<Rightarrow> pref \<Rightarrow> u32 \<Rightarrow> int \<Rightarrow> f32 \<Rightarrow> f32 \<Rightarrow> server \<Rightarrow> server option" where
  "BroadcastAttack os P attacker skillId attackType aimX aimY w = do {
     pl \<leftarrow> store (app w) attacker;
     buf \<leftarrow> proto_buffer P OP_S_ATTACK_RESULT (S_AttackResult_msg
       \<lparr>ar_attacker_id = playerId pl, ar_skill_id = skillId, ar_attack_type = attackType,
        ar_origin = pos (physState pl), ar_aim_dir = \<lparr>vecx = aimX, vecy = aimY\<rparr>\<rparr>);
     RoomBroadcast os buf None w
   }"

definition Chat :: "os_api \<Rightarrow> proto_api \<Rightarrow> pref \<Rightarrow> string \<Rightarrow> int \<Rightarrow> server \<Rightarrow> server option" where
  "Chat os P p message type w = do {
     pl \<leftarrow> store (app w) p;
     buf \<leftarrow> proto_buffer P OP_S_CHAT (S_Chat_msg
       \<lparr>sc_player_id = playerId pl, sc_name = playerName pl, sc_type = type, sc_message = message\<rparr>);
     RoomBroadcast os buf None w
   }"

subsection \<open>The task queue\<close>

definition run_task :: "os_api \<Rightarrow> proto_api \<Rightarrow> task \<Rightarrow> server \<Rightarrow> server option" where
  "run_task os P t w = (case t of
     Task_Enter p \<Rightarrow> Enter p w
   | Task_Leave pid \<Rightarrow> Leave os P pid w
   | Task_EnterGame p nm \<Rightarrow> EnterGame os P p nm w
   | Task_Chat p message type \<Rightarrow> Chat os P p message type w
   | Task_BroadcastAttack p skillId attackType aimX aimY \<Rightarrow>
       BroadcastAttack os P p skillId attackType aimX aimY w
   | Task_HandleLadderState p onLadder x y velx vely \<Rightarrow> do {
       pl \<leftarrow> store (app w) p;
       st \<leftarrow> HandleLadderState (tmap (app w)) onLadder x y velx vely (physState pl);
       Some (put_player p (pl\<lparr>physState := st\<rparr>) w)
     })"

text \<open>The queue is swapped out first: tasks posted while it drains wait for the next round.\<close>

definition DrainTasks :: "os_api \<Rightarrow> proto_api \<Rightarrow> server \<Rightarrow> server option" where
  "DrainTasks os P w =
     for_each (run_task os P) (taskQueue (app w)) (w\<lparr>app := (app w)\<lparr>taskQueue := []\<rparr>\<rparr>)"

subsection \<open>The tick\<close>

definition MAX_STEPS_PER_TICK :: nat where "MAX_STEPS_PER_TICK = 8"

text \<open>The loop over the waiting inputs, at most \<open>n\<close> of them; how many there were.\<close>

fun run_inputs :: "tilemap \<Rightarrow> nat \<Rightarrow> Player \<Rightarrow> (nat \<times> Player) option" where
  "run_inputs m 0 pl = Some (0, pl)"
| "run_inputs m (Suc n) pl =
     (if HasInput pl then do {
        let (cmd, pl) = DequeueInput pl;
        st \<leftarrow> SimulatePlayer m cmd CLIENT_DT (physState pl);
        (steps, pl) \<leftarrow> run_inputs m n (pl\<lparr>physState := st\<rparr>);
        Some (Suc steps, pl)
      }
      else Some (0, pl))"

text \<open>The steps without input.\<close>

fun run_idle :: "tilemap \<Rightarrow> nat \<Rightarrow> Player \<Rightarrow> Player option" where
  "run_idle m 0 pl = Some pl"
| "run_idle m (Suc n) pl = do {
     st \<leftarrow> SimulatePlayer m zero_input CLIENT_DT (physState pl);
     run_idle m n (pl\<lparr>physState := st\<rparr>)
   }"

definition simulate_tick :: "tilemap \<Rightarrow> Player \<Rightarrow> Player option" where
  "simulate_tick m pl = do {
     (steps, pl) \<leftarrow> run_inputs m MAX_STEPS_PER_TICK pl;
     if steps = 0 then run_idle m 3 pl else Some pl
   }"

definition player_state_msg :: "Player \<Rightarrow> S_PlayerState" where
  "player_state_msg pl =
     (let st = physState pl in
      \<lparr>ps_player_id = playerId pl, ps_last_processed_input_seq = lastInputSeq st, ps_position = pos st,
       ps_velocity = \<lparr>vecx = vecx (vel st), vecy = (if isGrounded st then fzero else vecy (vel st))\<rparr>,
       ps_is_grounded = isGrounded st, ps_dir = uint (dir st), ps_is_moving = isMoving st,
       ps_is_jumping = isJumping st, ps_is_on_ladder = isOnLadder st\<rparr>)"

definition broadcast_move_msg :: "u32 \<Rightarrow> Player \<Rightarrow> S_BroadcastMove" where
  "broadcast_move_msg tick pl =
     (let st = physState pl in
      \<lparr>bm_player_id = playerId pl, bm_position = pos st,
       bm_velocity = \<lparr>vecx = vecx (vel st), vecy = (if isGrounded st then fzero else vecy (vel st))\<rparr>,
       bm_dir = uint (dir st), bm_is_grounded = isGrounded st, bm_is_moving = isMoving st,
       bm_is_jumping = isJumping st, bm_is_crouching = isCrouching st,
       bm_is_on_ladder = isOnLadder st, bm_server_tick = tick\<rparr>)"

definition tick_player :: "os_api \<Rightarrow> proto_api \<Rightarrow> pref \<Rightarrow> server \<Rightarrow> server option" where
  "tick_player os P p w = do {
     pl \<leftarrow> store (app w) p;
     if \<not> entered pl then Some w
     else do {
       pl \<leftarrow> simulate_tick (tmap (app w)) pl;
       let w = put_player p pl w;
       buf \<leftarrow> proto_buffer P OP_S_PLAYER_STATE (S_PlayerState_msg (player_state_msg pl));
       w \<leftarrow> RoomSend os p buf w;
       buf \<leftarrow> proto_buffer P OP_S_BROADCAST_MOVE
         (S_BroadcastMove_msg (broadcast_move_msg (serverTick (app w)) pl));
       RoomBroadcast os buf (Some p) w
     }
   }"

definition TickAll :: "os_api \<Rightarrow> proto_api \<Rightarrow> server \<Rightarrow> server option" where
  "TickAll os P w = do {
     w \<leftarrow> for_each (tick_player os P) (map snd (players (app w))) w;
     Some (w\<lparr>app := (app w)\<lparr>serverTick := serverTick (app w) + 1\<rparr>\<rparr>)
   }"

subsection \<open>The game loop\<close>

definition StartGameLoop :: "server \<Rightarrow> server" where
  "StartGameLoop w = w\<lparr>app := (app w)\<lparr>loopRunning := True\<rparr>\<rparr>"

definition StopGameLoop :: "server \<Rightarrow> server" where
  "StopGameLoop w = w\<lparr>app := (app w)\<lparr>loopRunning := False\<rparr>\<rparr>"

text \<open>One round of \<open>GameLoopThread\<close>.\<close>

definition game_loop_round :: "os_api \<Rightarrow> proto_api \<Rightarrow> server \<Rightarrow> server option" where
  "game_loop_round os P w =
     (if loopRunning (app w) then do { w \<leftarrow> DrainTasks os P w; TickAll os P w } else Some w)"

definition LoadMap :: "'j json_api \<Rightarrow> byte list option \<Rightarrow> server \<Rightarrow> (bool \<times> server) option" where
  "LoadMap J file w = do {
     (result, m) \<leftarrow> Load J file (tmap (app w));
     Some (result, w\<lparr>app := (app w)\<lparr>tmap := m\<rparr>\<rparr>)
   }"

end
