(* ===== verification/ServerPacketHandler.thy ===== *)
theory ServerPacketHandler
  imports GameRoom
begin

text \<open>
  \<open>SimpleServer/ServerPacketHandler.cpp\<close>: one function per opcode a client may send. Each gives
  its result and the server afterwards; the result \<open>False\<close> makes the session close. A session that
  has been freed is undefined, as everywhere.
\<close>

text \<open>\<open>cs.GetPlayer ()\<close>\<close>

definition GetPlayer :: "sref \<Rightarrow> server \<Rightarrow> pref option option" where
  "GetPlayer s w = map_option csPlayer (heap w s)"

text \<open>\<open>player && player->IsEntered ()\<close>\<close>

definition player_entered :: "pref option \<Rightarrow> server \<Rightarrow> bool option" where
  "player_entered player w =
     (case player of None \<Rightarrow> Some False | Some p \<Rightarrow> map_option entered (store (app w) p))"

definition HandleEnterGame :: "proto_api \<Rightarrow> sref \<Rightarrow> Packet \<Rightarrow> server \<Rightarrow> (bool \<times> server) option" where
  "HandleEnterGame P s pkt w =
     (if \<not> handlerRoom (app w) then Some (False, w)
      else case parse_C_EnterGame P (payload pkt) of
        None \<Rightarrow> Some (False, w)
      | Some nm \<Rightarrow> do {
          player \<leftarrow> GetPlayer s w;
          (case player of
             None \<Rightarrow> Some (False, w)
           | Some p \<Rightarrow> Some (True, PostTask (Task_EnterGame p nm) w))
        })"

definition input_of :: "C_InputCmd \<Rightarrow> InputCmd" where
  "input_of req = \<lparr>inputSeq = ic_input_seq req, deltaTime = ic_delta_time req,
     moveLeft = ic_move_left req, moveRight = ic_move_right req, jump = ic_jump req,
     dropThrough = ic_drop_through req, faceDir = word_of_int (ic_face_dir req),
     moveUp = ic_move_up req, moveDown = ic_move_down req\<rparr>"

definition HandleInputCmd :: "proto_api \<Rightarrow> sref \<Rightarrow> Packet \<Rightarrow> server \<Rightarrow> (bool \<times> server) option" where
  "HandleInputCmd P s pkt w =
     (if \<not> handlerRoom (app w) then Some (False, w)
      else case parse_C_InputCmd P (payload pkt) of
        None \<Rightarrow> Some (False, w)
      | Some req \<Rightarrow> do {
          player \<leftarrow> GetPlayer s w;
          (case player of
             None \<Rightarrow> Some (False, w)
           | Some p \<Rightarrow> do {
               pl \<leftarrow> store (app w) p;
               if \<not> entered pl then Some (True, w)
               else Some (True, put_player p (EnqueueInput (input_of req) pl) w)
             })
        })"

definition HandleChat :: "proto_api \<Rightarrow> sref \<Rightarrow> Packet \<Rightarrow> server \<Rightarrow> (bool \<times> server) option" where
  "HandleChat P s pkt w =
     (if \<not> handlerRoom (app w) then Some (False, w)
      else case parse_C_Chat P (payload pkt) of
        None \<Rightarrow> Some (False, w)
      | Some req \<Rightarrow> do {
          player \<leftarrow> GetPlayer s w;
          (case player of
             None \<Rightarrow> Some (False, w)
           | Some p \<Rightarrow> Some (True, PostTask (Task_Chat p (cc_message req) (cc_type req)) w))
        })"

definition HandleAttack :: "proto_api \<Rightarrow> sref \<Rightarrow> Packet \<Rightarrow> server \<Rightarrow> (bool \<times> server) option" where
  "HandleAttack P s pkt w =
     (if \<not> handlerRoom (app w) then Some (False, w)
      else case parse_C_Attack P (payload pkt) of
        None \<Rightarrow> Some (False, w)
      | Some req \<Rightarrow> do {
          player \<leftarrow> GetPlayer s w;
          (case player of
             None \<Rightarrow> Some (True, w)
           | Some p \<Rightarrow> do {
               pl \<leftarrow> store (app w) p;
               if \<not> entered pl then Some (True, w)
               else do {
                 let aimX = (case ca_aim_dir req of Some v \<Rightarrow> vecx v | None \<Rightarrow> fzero);
                 let aimY = (case ca_aim_dir req of Some v \<Rightarrow> vecy v | None \<Rightarrow> fzero);
                 Some (True, PostTask (Task_BroadcastAttack p (ca_skill_id req) (ca_attack_type req) aimX aimY) w)
               }
             })
        })"

definition HandleResurrect :: "sref \<Rightarrow> Packet \<Rightarrow> server \<Rightarrow> (bool \<times> server) option" where
  "HandleResurrect s pkt w =
     (if \<not> handlerRoom (app w) then Some (False, w)
      else do {
        player \<leftarrow> GetPlayer s w;
        e \<leftarrow> player_entered player w;
        Some (True, w)
      })"

definition HandleUseItem :: "proto_api \<Rightarrow> sref \<Rightarrow> Packet \<Rightarrow> server \<Rightarrow> (bool \<times> server) option" where
  "HandleUseItem P s pkt w =
     (if \<not> handlerRoom (app w) then Some (False, w)
      else if \<not> parse_C_UseItem P (payload pkt) then Some (False, w)
      else do {
        player \<leftarrow> GetPlayer s w;
        e \<leftarrow> player_entered player w;
        Some (True, w)
      })"

definition HandleEnterZone :: "proto_api \<Rightarrow> sref \<Rightarrow> Packet \<Rightarrow> server \<Rightarrow> (bool \<times> server) option" where
  "HandleEnterZone P s pkt w =
     (if \<not> handlerRoom (app w) then Some (False, w)
      else if \<not> parse_C_EnterZone P (payload pkt) then Some (False, w)
      else do {
        player \<leftarrow> GetPlayer s w;
        e \<leftarrow> player_entered player w;
        Some (True, w)
      })"

definition HandleLadderState_packet :: "proto_api \<Rightarrow> sref \<Rightarrow> Packet \<Rightarrow> server \<Rightarrow> (bool \<times> server) option" where
  "HandleLadderState_packet P s pkt w =
     (if \<not> handlerRoom (app w) then Some (False, w)
      else case parse_C_LadderState P (payload pkt) of
        None \<Rightarrow> Some (False, w)
      | Some req \<Rightarrow> do {
          player \<leftarrow> GetPlayer s w;
          e \<leftarrow> player_entered player w;
          (case player of
             None \<Rightarrow> Some (True, w)
           | Some p \<Rightarrow>
               if \<not> e then Some (True, w)
               else Some (True, PostTask (Task_HandleLadderState p (cl_on_ladder req)
                      (cl_pos_x req) (cl_pos_y req) (cl_vel_x req) (cl_vel_y req)) w))
        })"

definition HandlePing :: "os_api \<Rightarrow> proto_api \<Rightarrow> sref \<Rightarrow> Packet \<Rightarrow> server \<Rightarrow> (bool \<times> server) option" where
  "HandlePing os P s pkt w =
     (case parse_C_Ping P (payload pkt) of
        None \<Rightarrow> Some (False, w)
      | Some client_time \<Rightarrow> do {
          packet \<leftarrow> MakePacketFromProto P OP_S_PONG (S_Pong client_time (clock os (calls w)));
          w \<leftarrow> EnqueueSend_packet os OnDisconnected s packet w;
          Some (True, w)
        })"

definition HandlePacket :: "os_api \<Rightarrow> proto_api \<Rightarrow> sref \<Rightarrow> Packet \<Rightarrow> server \<Rightarrow> (bool \<times> server) option" where
  "HandlePacket os P s pkt w =
     (let opcode = hopcode (pheader pkt) in
      if opcode = OP_C_ENTER_GAME then HandleEnterGame P s pkt w
      else if opcode = OP_C_INPUT_CMD then HandleInputCmd P s pkt w
      else if opcode = OP_C_CHAT then HandleChat P s pkt w
      else if opcode = OP_C_ATTACK then HandleAttack P s pkt w
      else if opcode = OP_C_RESURRECT then HandleResurrect s pkt w
      else if opcode = OP_C_USE_ITEM then HandleUseItem P s pkt w
      else if opcode = OP_C_ENTER_ZONE then HandleEnterZone P s pkt w
      else if opcode = OP_C_LADDER_STATE then HandleLadderState_packet P s pkt w
      else if opcode = OP_C_PING then HandlePing os P s pkt w
      else Some (False, w))"

subsection \<open>What a handler can do\<close>

text \<open>The tasks that packets request; entering and leaving the table is not among them.\<close>

fun request :: "task \<Rightarrow> bool" where
  "request (Task_Enter p) = False"
| "request (Task_Leave pid) = False"
| "request _ = True"

text \<open>It leaves the server alone, queues a request or a command, or sends one packet.\<close>

lemma HandlePacket_effect:
  assumes "HandlePacket os P s pkt w = Some (b, w')"
  obtains "w' = w"
  | t where "request t" and "w' = PostTask t w"
  | p pl cmd where "store (app w) p = Some pl" and "w' = put_player p (EnqueueInput cmd pl) w"
  | packet where "EnqueueSend_packet os OnDisconnected s packet w = Some w'"
proof -
  have tasks: "HandleEnterGame P s pkt w = Some (b, w') \<Longrightarrow> w' = w \<or> (\<exists>t. request t \<and> w' = PostTask t w)"
    "HandleChat P s pkt w = Some (b, w') \<Longrightarrow> w' = w \<or> (\<exists>t. request t \<and> w' = PostTask t w)"
    "HandleAttack P s pkt w = Some (b, w') \<Longrightarrow> w' = w \<or> (\<exists>t. request t \<and> w' = PostTask t w)"
    "HandleLadderState_packet P s pkt w = Some (b, w') \<Longrightarrow> w' = w \<or> (\<exists>t. request t \<and> w' = PostTask t w)"
    by (auto simp: HandleEnterGame_def HandleChat_def HandleAttack_def HandleLadderState_packet_def Let_def
        split: if_splits option.splits bind_splits intro: exI [of _ "Task_EnterGame _ _"] exI [of _ "Task_Chat _ _ _"]
          exI [of _ "Task_BroadcastAttack _ _ _ _ _"] exI [of _ "Task_HandleLadderState _ _ _ _ _ _"])
  have same: "HandleResurrect s pkt w = Some (b, w') \<Longrightarrow> w' = w" "HandleUseItem P s pkt w = Some (b, w') \<Longrightarrow> w' = w"
    "HandleEnterZone P s pkt w = Some (b, w') \<Longrightarrow> w' = w"
    by (auto simp: HandleResurrect_def HandleUseItem_def HandleEnterZone_def split: if_splits bind_splits)
  have input: "HandleInputCmd P s pkt w = Some (b, w') \<Longrightarrow>
      w' = w \<or> (\<exists>p pl cmd. store (app w) p = Some pl \<and> w' = put_player p (EnqueueInput cmd pl) w)"
    by (auto simp: HandleInputCmd_def split: if_splits option.splits bind_splits)
  have ping: "HandlePing os P s pkt w = Some (b, w') \<Longrightarrow>
      w' = w \<or> (\<exists>packet. EnqueueSend_packet os OnDisconnected s packet w = Some w')"
    by (auto simp: HandlePing_def split: option.splits bind_splits)
  have "w' = w \<or> (\<exists>t. request t \<and> w' = PostTask t w)
      \<or> (\<exists>p pl cmd. store (app w) p = Some pl \<and> w' = put_player p (EnqueueInput cmd pl) w)
      \<or> (\<exists>packet. EnqueueSend_packet os OnDisconnected s packet w = Some w')"
    using assms unfolding HandlePacket_def Let_def by (auto dest!: tasks same input ping split: if_splits)
  then show thesis
    using that by blast
qed

end
