(* ===== verification/ServerInv.thy ===== *)
theory ServerInv
  imports ServerPacketHandler
begin

text \<open>
  The invariant of the running server: the sessions are well-formed (\<open>SessionInv\<close>), and the room
  and the open sessions refer to each other consistently. The callbacks of \<open>ServerMain.cpp\<close> and
  the packet handler meet the contracts of \<open>SessionInv\<close> and \<open>NetService\<close>.
\<close>


subsection \<open>The invariant of the game room\<close>

text \<open>
  What the room relies on of the physics: an invariant \<open>Q\<close> of physics states that makes every
  step defined, for ladder positions satisfying \<open>L\<close>.
\<close>

definition phys_safe :: "tilemap \<Rightarrow> (f32 \<Rightarrow> f32 \<Rightarrow> bool) \<Rightarrow> (PhysicsState \<Rightarrow> bool) \<Rightarrow> bool" where
  "phys_safe m L Q \<longleftrightarrow> Q PhysicsState_new
     \<and> (\<forall>st cmd. Q st \<and> wf_f32 (deltaTime cmd) \<longrightarrow> (\<exists>st'. SimulatePlayer m cmd CLIENT_DT st = Some st' \<and> Q st'))
     \<and> (\<forall>st on x y velx vely. Q st \<and> L x y \<longrightarrow>
          (\<exists>st'. HandleLadderState m on x y velx vely st = Some st' \<and> Q st'))"

text \<open>What the room relies on of the protocol runtime: floats are floats, ladder positions are in \<open>L\<close>.\<close>

definition proto_ok :: "(f32 \<Rightarrow> f32 \<Rightarrow> bool) \<Rightarrow> proto_api \<Rightarrow> bool" where
  "proto_ok L P \<longleftrightarrow>
     (\<forall>bs req. parse_C_InputCmd P bs = Some req \<longrightarrow> wf_f32 (ic_delta_time req))
     \<and> (\<forall>bs req. parse_C_LadderState P bs = Some req \<longrightarrow> L (cl_pos_x req) (cl_pos_y req))"

text \<open>The players a task holds, and its ladder position.\<close>

fun task_ok :: "(f32 \<Rightarrow> f32 \<Rightarrow> bool) \<Rightarrow> pref set \<Rightarrow> task \<Rightarrow> bool" where
  "task_ok L D (Task_Enter p) = (p \<in> D)"
| "task_ok L D (Task_Leave pid) = True"
| "task_ok L D (Task_EnterGame p nm) = (p \<in> D)"
| "task_ok L D (Task_Chat p message type) = (p \<in> D)"
| "task_ok L D (Task_BroadcastAttack p k t x y) = (p \<in> D)"
| "task_ok L D (Task_HandleLadderState p on x y velx vely) = (p \<in> D \<and> L x y)"

lemma task_ok_mono: "task_ok L D t \<Longrightarrow> D \<subseteq> E \<Longrightarrow> task_ok L E t"
  by (cases t) auto

definition player_ok :: "(PhysicsState \<Rightarrow> bool) \<Rightarrow> Player \<Rightarrow> bool" where
  "player_ok Q pl \<longleftrightarrow> Q (physState pl) \<and> length (inputBuffer pl) \<le> MAX_INPUT_BUFFER
     \<and> (\<forall>cmd\<in>set (inputBuffer pl). wf_f32 (deltaTime cmd))"

text \<open>
  The room together with the open sessions: a session's player exists and points back to it, a
  player's session pointer is null or an open session of his, and the table and the queue hold
  existing players. \<open>D\<close> is a set of players that stay allocated.
\<close>

definition room_inv :: "tilemap \<Rightarrow> (f32 \<Rightarrow> f32 \<Rightarrow> bool) \<Rightarrow> (PhysicsState \<Rightarrow> bool) \<Rightarrow> pref set
    \<Rightarrow> (sref \<Rightarrow> unit ClientSession_ext option) \<Rightarrow> room \<Rightarrow> bool" where
  "room_inv m L Q D lv r \<longleftrightarrow>
     tmap r = m \<and> D \<subseteq> dom (store r) \<and> (\<forall>p\<in>dom (store r). p < nextRef r)
     \<and> (\<forall>s p. lv s = Some (ClientSession.fields (Some p)) \<longrightarrow>
          (\<exists>pl. store r p = Some pl \<and> session pl = Some s))
     \<and> (\<forall>p pl s. store r p = Some pl \<and> session pl = Some s \<longrightarrow>
          lv s = Some (ClientSession.fields (Some p)))
     \<and> (\<forall>pid p. (pid, p) \<in> set (players r) \<longrightarrow> (\<exists>pl. store r p = Some pl \<and> playerId pl = pid))
     \<and> distinct (map fst (players r))
     \<and> (\<forall>t\<in>set (taskQueue r). task_ok L (dom (store r)) t)
     \<and> (\<forall>pl\<in>ran (store r). player_ok Q pl)"

lemma room_invD:
  assumes "room_inv m L Q D lv r"
  shows "tmap r = m" and "D \<subseteq> dom (store r)" and "\<And>p. p \<in> dom (store r) \<Longrightarrow> p < nextRef r"
    and "\<And>s p. lv s = Some (ClientSession.fields (Some p)) \<Longrightarrow> \<exists>pl. store r p = Some pl \<and> session pl = Some s"
    and "\<And>p pl s. store r p = Some pl \<Longrightarrow> session pl = Some s \<Longrightarrow> lv s = Some (ClientSession.fields (Some p))"
    and "\<And>pid p. (pid, p) \<in> set (players r) \<Longrightarrow> \<exists>pl. store r p = Some pl \<and> playerId pl = pid"
    and "distinct (map fst (players r))"
    and "\<And>t. t \<in> set (taskQueue r) \<Longrightarrow> task_ok L (dom (store r)) t"
    and "\<And>p pl. store r p = Some pl \<Longrightarrow> player_ok Q pl"
  using assms by (auto simp: room_inv_def intro: ranI)

lemma room_invI:
  assumes "tmap r = m" and "D \<subseteq> dom (store r)" and "\<And>p. p \<in> dom (store r) \<Longrightarrow> p < nextRef r"
    and "\<And>s p. lv s = Some (ClientSession.fields (Some p)) \<Longrightarrow> \<exists>pl. store r p = Some pl \<and> session pl = Some s"
    and "\<And>p pl s. store r p = Some pl \<Longrightarrow> session pl = Some s \<Longrightarrow> lv s = Some (ClientSession.fields (Some p))"
    and "\<And>pid p. (pid, p) \<in> set (players r) \<Longrightarrow> \<exists>pl. store r p = Some pl \<and> playerId pl = pid"
    and "distinct (map fst (players r))"
    and "\<And>t. t \<in> set (taskQueue r) \<Longrightarrow> task_ok L (dom (store r)) t"
    and "\<And>p pl. store r p = Some pl \<Longrightarrow> player_ok Q pl"
  shows "room_inv m L Q D lv r"
  unfolding room_inv_def using assms by (auto simp: ran_def)

lemma fields_inject [simp]:
  "ClientSession.fields a = ClientSession.fields b \<longleftrightarrow> a = b"
  by (simp add: ClientSession.fields_def)

lemma more_csPlayer: "Session.more x = ClientSession.fields (csPlayer x)"
  for x :: "unit ClientSession_ext Session_scheme"
  by (cases x) (simp add: ClientSession.fields_def)

text \<open>Rewriting one player: his identity and session stay, what else is admissible may change.\<close>

lemma room_inv_put:
  assumes "room_inv m L Q D lv r" and "store r p = Some pl"
    and "playerId pl' = playerId pl" and "session pl' = session pl" and "player_ok Q pl'"
  shows "room_inv m L Q D lv (r\<lparr>store := (store r)(p \<mapsto> pl')\<rparr>)"
proof (rule room_invI)
  note inv = room_invD [OF assms(1)]
  let ?r = "r\<lparr>store := (store r)(p \<mapsto> pl')\<rparr>"
  have dom: "dom (store ?r) = dom (store r)"
    using assms(2) by auto
  show "tmap ?r = m" "distinct (map fst (players ?r))" "D \<subseteq> dom (store ?r)"
    using inv(1,2,7) dom by simp_all
  show "q < nextRef ?r" if "q \<in> dom (store ?r)" for q
    using inv(3) [of q] that unfolding dom by simp
  show "task_ok L (dom (store ?r)) t" if "t \<in> set (taskQueue ?r)" for t
    using inv(8) [of t] that unfolding dom by simp
  show "\<exists>pl. store ?r q = Some pl \<and> session pl = Some s" if "lv s = Some (ClientSession.fields (Some q))" for s q
    using inv(4) [OF that] assms(2,4) by auto
  show "lv s = Some (ClientSession.fields (Some q))" if "store ?r q = Some ql" "session ql = Some s" for q ql s
    using inv(5) that assms(2,4) by (auto split: if_splits)
  show "\<exists>pl. store ?r q = Some pl \<and> playerId pl = pid" if "(pid, q) \<in> set (players ?r)" for pid q
    using inv(6) [of pid q] that assms(2,3) by auto
  show "player_ok Q ql" if "store ?r q = Some ql" for q ql
    using inv(9) that assms(5) by (auto split: if_splits)
qed

lemma room_inv_task:
  assumes "room_inv m L Q D lv r" and "task_ok L (dom (store r)) t"
  shows "room_inv m L Q D lv (r\<lparr>taskQueue := taskQueue r @ [t]\<rparr>)"
  using assms by (auto simp: room_inv_def)

lemma OnDisconnected_ok:
  assumes "room_inv m L Q D (live w) (app w)" and "heap w s = Some x" and "\<not> closing x"
  shows "\<exists>r. OnDisconnected s (disconnecting s w) = Some (app_update (\<lambda>_. r) (disconnecting s w))
    \<and> room_inv m L Q D ((live w)(s := None)) r"
proof -
  have h: "heap (disconnecting s w) s = Some (closed_session x)" and a: "app (disconnecting s w) = app w"
    using assms(2) by (simp_all add: disconnecting_def emit_def RemoveSession_def)
  have cs: "csPlayer (closed_session x) = csPlayer x"
    by (simp add: closed_session_def)
  have lv: "live w s = Some (ClientSession.fields (csPlayer x))"
    using assms(2,3) by (simp add: live_def more_csPlayer)
  note inv = room_invD [OF assms(1)]
  show ?thesis
  proof (cases "csPlayer x")
    case None
    have "room_inv m L Q D ((live w)(s := None)) (app w)"
      using assms(1) inv(5) lv None by (auto simp: room_inv_def)
    moreover have "app_update (\<lambda>_. app w) (disconnecting s w) = disconnecting s w"
      using a by (simp flip: a)
    moreover have "OnDisconnected s (disconnecting s w) = Some (disconnecting s w)"
      using h cs None by (simp add: OnDisconnected_def)
    ultimately show ?thesis
      by (intro exI [of _ "app w"]) simp
  next
    case (Some p)
    obtain pl where pl: "store (app w) p = Some pl" "session pl = Some s"
      using inv(4) lv Some by auto
    let ?r = "(app w)\<lparr>store := (store (app w))(p \<mapsto> SetSession None pl),
        taskQueue := taskQueue (app w) @ [Task_Leave (playerId pl)]\<rparr>"
    have "OnDisconnected s (disconnecting s w) = Some (app_update (\<lambda>_. ?r) (disconnecting s w))"
      using h cs Some pl a by (simp add: OnDisconnected_def PostTask_def put_player_def)
    moreover have "room_inv m L Q D ((live w)(s := None)) ?r"
    proof (rule room_invI)
      have dom: "dom (store ?r) = dom (store (app w))"
        using pl by auto
      show "tmap ?r = m" "distinct (map fst (players ?r))" "D \<subseteq> dom (store ?r)"
        using inv(1,2,7) dom by simp_all
      show "q < nextRef ?r" if "q \<in> dom (store ?r)" for q
        using inv(3) [of q] that unfolding dom by simp
      show "task_ok L (dom (store ?r)) t" if "t \<in> set (taskQueue ?r)" for t
        using inv(8) [of t] that unfolding dom by auto
      show "\<exists>pl. store ?r q = Some pl \<and> session pl = Some t"
        if "((live w)(s := None)) t = Some (ClientSession.fields (Some q))" for t q
      proof -
        from that have "t \<noteq> s" and "live w t = Some (ClientSession.fields (Some q))"
          by (auto split: if_splits)
        with inv(4) [of t q] pl show ?thesis
          by auto
      qed
      show "((live w)(s := None)) t = Some (ClientSession.fields (Some q))"
        if "store ?r q = Some ql" "session ql = Some t" for q ql t
      proof -
        have q: "q \<noteq> p" "store (app w) q = Some ql"
          using that by (auto simp: SetSession_def split: if_splits)
        then have "live w t = Some (ClientSession.fields (Some q))"
          using inv(5) that(2) by blast
        moreover from this have "t \<noteq> s"
          using q(1) lv Some by auto
        ultimately show ?thesis by simp
      qed
      show "\<exists>pl. store ?r q = Some pl \<and> playerId pl = pid" if "(pid, q) \<in> set (players ?r)" for pid q
        using inv(6) [of pid q] that pl by (auto simp: SetSession_def)
      show "player_ok Q ql" if "store ?r q = Some ql" for q ql
        using inv(9) that pl(1) by (auto simp: player_ok_def SetSession_def split: if_splits)
    qed
    ultimately show ?thesis by blast
  qed
qed

text \<open>With what it relies on of the physics and of the protocol runtime.\<close>

definition server_inv :: "tilemap \<Rightarrow> (f32 \<Rightarrow> f32 \<Rightarrow> bool) \<Rightarrow> (PhysicsState \<Rightarrow> bool) \<Rightarrow> proto_api \<Rightarrow> pref set
    \<Rightarrow> (sref \<Rightarrow> unit ClientSession_ext option) \<Rightarrow> room \<Rightarrow> bool" where
  "server_inv m L Q P D lv r \<longleftrightarrow> phys_safe m L Q \<and> proto_ok L P \<and> room_inv m L Q D lv r"

interpretation disc: disconnect_callback OnDisconnected "server_inv m L Q P D" for m L Q P D
  by unfold_locales (unfold server_inv_def, use OnDisconnected_ok in blast)

lemma app_update_view [simp]: "view t (w\<lparr>app := r\<rparr>) = view t w" "live (w\<lparr>app := r\<rparr>) = live w"
    "held_ok H (w\<lparr>app := r\<rparr>) \<longleftrightarrow> held_ok H w" "only s w (w\<lparr>app := r\<rparr>)"
  by (simp_all add: view_def live_def fun_eq_iff held_ok_def only_def)

lemma OnConnected_ok:
  assumes "ok 0 False True (view s w)" and "live w s = Some (ClientSession.fields None)"
    and "room_inv m L Q D ((live w)(s := None)) (app w)" and "Q PhysicsState_new"
  shows "\<exists>w'. OnConnected s w = Some w' \<and> only s w w' \<and> ok 0 False True (view s w') \<and> heap w' s \<noteq> None
      \<and> room_inv m L Q D (live w') (app w')"
proof -
  obtain x where x: "heap w s = Some x" "\<not> closing x" "csPlayer x = None"
    using assms(2) by (auto simp: live_Some_iff more_csPlayer)
  note inv = room_invD [OF assms(3)]
  define p where "p = nextRef (app w)"
  define pl where "pl = SetSession (Some s) (Player_new (nextPlayerId (app w)) '''')"
  define r where "r = (app w)\<lparr>nextPlayerId := nextPlayerId (app w) + 1, nextRef := p + 1,
      store := (store (app w))(p \<mapsto> pl), taskQueue := taskQueue (app w) @ [Task_Enter p]\<rparr>"
  let ?w' = "w\<lparr>heap := (heap w)(s \<mapsto> x\<lparr>csPlayer := Some p\<rparr>), app := r\<rparr>"
  have new: "store (app w) p = None"
    using inv(3) by (fastforce simp: p_def)
  have pl: "session pl = Some s" "player_ok Q pl"
    using assms(4) by (simp_all add: pl_def SetSession_def Player_new_def player_ok_def)
  have res: "OnConnected s w = Some ?w'"
    using x(1) by (simp add: OnConnected_def put_player_def on_session_def PostTask_def Let_def r_def p_def pl_def)
  have "only s w ?w'"
    by (simp add: only_def view_def)
  moreover have "ok 0 False True (view s ?w')"
    using assms(1) x by (simp add: ok_def view_def)
  moreover have lv: "live ?w' = (live w)(s \<mapsto> ClientSession.fields (Some p))"
    using x by (simp add: live_def fun_eq_iff more_csPlayer)
  moreover have "room_inv m L Q D (live ?w') r"
  proof (rule room_invI)
    have dom: "dom (store r) = insert p (dom (store (app w)))"
      by (simp add: r_def)
    show "tmap r = m" "distinct (map fst (players r))"
      using inv(1,7) by (simp_all add: r_def)
    show "D \<subseteq> dom (store r)"
      using inv(2) dom by auto
    show "q < nextRef r" if "q \<in> dom (store r)" for q
      using inv(3) [of q] that unfolding dom by (auto simp: r_def p_def intro: less_SucI)
    show "task_ok L (dom (store r)) t" if "t \<in> set (taskQueue r)" for t
      using inv(8) [of t] that task_ok_mono [of L "dom (store (app w))" t "insert p (dom (store (app w)))"]
      unfolding dom by (auto simp: r_def)
    show "\<exists>pl. store r q = Some pl \<and> session pl = Some t"
      if "live ?w' t = Some (ClientSession.fields (Some q))" for t q
    proof (cases "t = s")
      case True
      then show ?thesis
        using that pl(1) unfolding lv by (simp add: r_def)
    next
      case False
      then show ?thesis
        using that inv(4) [of t q] new unfolding lv by (auto simp: r_def)
    qed
    show "live ?w' t = Some (ClientSession.fields (Some q))" if "store r q = Some ql" "session ql = Some t" for q ql t
    proof (cases "q = p")
      case True
      then show ?thesis
        using that pl(1) unfolding lv by (auto simp: r_def)
    next
      case False
      then have "((live w)(s := None)) t = Some (ClientSession.fields (Some q))"
        using inv(5) that by (simp add: r_def)
      then show ?thesis
        unfolding lv by (auto split: if_splits)
    qed
    show "\<exists>pl. store r q = Some pl \<and> playerId pl = pid" if "(pid, q) \<in> set (players r)" for pid q
      using inv(6) [of pid q] that new by (auto simp: r_def)
    show "player_ok Q ql" if "store r q = Some ql" for q ql
      using inv(9) that pl(2) by (auto simp: r_def split: if_splits)
  qed
  ultimately show ?thesis
    using res by auto
qed

subsection \<open>The packet handler\<close>

lemma player_of_session:
  assumes "room_inv m L Q D (live w) (app w)" and "heap w s = Some x" and "\<not> closing x"
    and "csPlayer x = Some p"
  shows "\<exists>pl. store (app w) p = Some pl \<and> session pl = Some s \<and> player_ok Q pl"
proof -
  have "live w s = Some (ClientSession.fields (Some p))"
    using assms(2-4) by (simp add: live_Some_iff more_csPlayer)
  from room_invD(4) [OF assms(1) this] show ?thesis
    using room_invD(9) [OF assms(1)] by blast
qed

lemma player_ok_EnqueueInput:
  "player_ok Q pl \<Longrightarrow> wf_f32 (deltaTime cmd) \<Longrightarrow> player_ok Q (EnqueueInput cmd pl)"
  using input_fifo.enq_bounded [of pl cmd]
  by (cases "inputBuffer pl") (auto simp: player_ok_def EnqueueInput_def Let_def split: if_splits)

text \<open>What a handler does that answers from the room alone.\<close>

definition room_reply :: "tilemap \<Rightarrow> (f32 \<Rightarrow> f32 \<Rightarrow> bool) \<Rightarrow> (PhysicsState \<Rightarrow> bool) \<Rightarrow> pref set \<Rightarrow> server
    \<Rightarrow> (bool \<times> server) option \<Rightarrow> bool" where
  "room_reply m L Q D w res \<longleftrightarrow> (\<exists>b r. res = Some (b, w\<lparr>app := r\<rparr>) \<and> room_inv m L Q D (live w) r)"

lemma room_reply_same: "room_inv m L Q D (live w) (app w) \<Longrightarrow> room_reply m L Q D w (Some (b, w))"
  by (auto simp: room_reply_def intro!: exI [of _ "app w"])

lemma room_reply_task:
  "room_inv m L Q D (live w) (app w) \<Longrightarrow> task_ok L (dom (store (app w))) t \<Longrightarrow>
     room_reply m L Q D w (Some (b, PostTask t w))"
  using room_inv_task [of m L Q D "live w" "app w" t] by (auto simp: room_reply_def PostTask_def)

lemma room_handlers_ok:
  assumes "room_inv m L Q D (live w) (app w)" and "heap w s = Some x"
    and "\<forall>p. csPlayer x = Some p \<longrightarrow> p \<in> dom (store (app w))" and "proto_ok L P"
  shows "room_reply m L Q D w (HandleEnterGame P s pkt w)"
    and "room_reply m L Q D w (HandleInputCmd P s pkt w)"
    and "room_reply m L Q D w (HandleChat P s pkt w)"
    and "room_reply m L Q D w (HandleAttack P s pkt w)"
    and "room_reply m L Q D w (HandleResurrect s pkt w)"
    and "room_reply m L Q D w (HandleUseItem P s pkt w)"
    and "room_reply m L Q D w (HandleEnterZone P s pkt w)"
    and "room_reply m L Q D w (HandleLadderState_packet P s pkt w)"
proof -
  note same = room_reply_same [OF assms(1)] and task = room_reply_task [OF assms(1)]
  have gp: "GetPlayer s w = Some (csPlayer x)"
    using assms(2) by (simp add: GetPlayer_def)
  have pl: "\<exists>pl. store (app w) p = Some pl \<and> player_ok Q pl" if "csPlayer x = Some p" for p
    using assms(3) room_invD(9) [OF assms(1)] that by auto
  then have entered: "\<exists>e. player_entered (csPlayer x) w = Some e"
    by (auto simp: player_entered_def split: option.split)
  show "room_reply m L Q D w (HandleEnterGame P s pkt w)"
    using pl by (auto simp: HandleEnterGame_def gp domI intro!: same task split: option.split)
  show "room_reply m L Q D w (HandleChat P s pkt w)"
    using pl by (auto simp: HandleChat_def gp domI intro!: same task split: option.split)
  show "room_reply m L Q D w (HandleAttack P s pkt w)"
    using pl by (auto simp: HandleAttack_def gp domI Let_def intro!: same task split: option.split)
  show "room_reply m L Q D w (HandleResurrect s pkt w)"
    using entered by (auto simp: HandleResurrect_def gp intro!: same)
  show "room_reply m L Q D w (HandleUseItem P s pkt w)"
    using entered by (auto simp: HandleUseItem_def gp intro!: same)
  show "room_reply m L Q D w (HandleEnterZone P s pkt w)"
    using entered by (auto simp: HandleEnterZone_def gp intro!: same)
  show "room_reply m L Q D w (HandleLadderState_packet P s pkt w)"
    using entered pl assms(4)
    by (auto simp: HandleLadderState_packet_def gp proto_ok_def domI intro!: same task split: option.split)
  show "room_reply m L Q D w (HandleInputCmd P s pkt w)"
  proof (cases "\<exists>req p pl. handlerRoom (app w) \<and> parse_C_InputCmd P (payload pkt) = Some req
      \<and> csPlayer x = Some p \<and> store (app w) p = Some pl \<and> entered pl")
    case True
    then obtain req p pl' where a: "handlerRoom (app w)" "parse_C_InputCmd P (payload pkt) = Some req"
        "csPlayer x = Some p" "store (app w) p = Some pl'" "entered pl'"
      by blast
    have "wf_f32 (deltaTime (input_of req))"
      using a(2) assms(4) by (auto simp: input_of_def proto_ok_def)
    then have ok: "player_ok Q (EnqueueInput (input_of req) pl')"
      using room_invD(9) [OF assms(1) a(4)] by (rule player_ok_EnqueueInput [rotated])
    have "room_inv m L Q D (live w) ((app w)\<lparr>store := (store (app w))(p \<mapsto> EnqueueInput (input_of req) pl')\<rparr>)"
      by (rule room_inv_put [OF assms(1) a(4) _ _ ok]) (simp_all add: EnqueueInput_def Let_def)
    with a show ?thesis
      by (auto simp: HandleInputCmd_def gp room_reply_def put_player_def)
  next
    case False
    then show ?thesis
      using pl by (auto simp: HandleInputCmd_def gp intro!: same split: option.split)
  qed
qed

lemma OnDisconnected_heap: "OnDisconnected s w = Some w' \<Longrightarrow> map_option closing (heap w' t) = map_option closing (heap w t)"
  by (auto simp: OnDisconnected_def PostTask_def put_player_def split: option.splits)

lemma PostSendFront_recvStream:
  assumes "PostSendFront_NoLock os s w = Some (True, w')" and "heap w s = Some x"
  shows "\<exists>x'. heap w' s = Some x' \<and> recvStream x' = recvStream x"
  using assms
  by (auto simp: PostSendFront_NoLock_def AddRef_def on_session_def Let_def emit_def Release_def
      split: if_splits list.splits)

lemma EnqueueSend_recvStream:
  assumes "EnqueueSend os od s buf w = Some w'" and "heap w s = Some x"
    and "heap w' s = Some x'" and "\<not> closing x'"
    and "\<And>s w w' t. od s w = Some w' \<Longrightarrow> map_option closing (heap w' t) = map_option closing (heap w t)"
  shows "recvStream x' = recvStream x"
proof (cases "buf = None \<or> writeSize (the buf) \<le> 0 \<or> closing x")
  case True
  then show ?thesis
    using assms(1-3) by (auto simp: EnqueueSend_def split: option.splits if_splits)
next
  case False
  then obtain sb where sb: "buf = Some sb" "\<not> writeSize sb \<le> 0" "\<not> closing x"
    by auto
  have not_close: "Close od s w1 \<noteq> Some w'" if "heap w1 s = Some x1" for w1 x1
  proof
    assume "Close od s w1 = Some w'"
    from Close_closes [OF this that assms(5)] assms(3,4) show False
      by simp
  qed
  show ?thesis
  proof (cases "sending x")
    case True
    then show ?thesis
      using assms(1-3) sb not_close [OF assms(2)]
      by (auto simp: EnqueueSend_def on_session_def split: if_splits)
  next
    case False
    let ?w1 = "w\<lparr>heap := (heap w)(s \<mapsto> x\<lparr>sendQ := sendQ x @ [sb], sending := True\<rparr>)\<rparr>"
    obtain b w2 where b: "PostSendFront_NoLock os s ?w1 = Some (b, w2)"
      "(if b then Some w2 else Close od s w2) = Some w'"
      using assms(1,2) sb False not_close [OF assms(2)]
      by (auto simp: EnqueueSend_def on_session_def split: if_splits)
    have "b"
    proof (rule ccontr)
      assume "\<not> b"
      then have "Close od s w2 = Some w'" using b(2) by simp
      moreover from this have "\<exists>x2. heap w2 s = Some x2"
        by (auto simp: Close_def)
      ultimately show False using not_close by blast
    qed
    then show ?thesis
      using b PostSendFront_recvStream [of os s ?w1 w2] assms(3) by auto
  qed
qed

lemma HandlePing_ok:
  assumes "ok h f r (view s w)" and "0 < h" and "server_inv m L Q P D (live w) (app w)"
    and "heap w s = Some x"
  shows "\<exists>b w'. HandlePing os P s pkt w = Some (b, w') \<and> only s w w' \<and> ok h f r (view s w')
      \<and> server_inv m L Q P D (live w') (app w') \<and> (\<forall>t. t \<noteq> s \<longrightarrow> live w' t = live w t)
      \<and> (\<forall>x'. heap w' s = Some x' \<and> \<not> closing x' \<longrightarrow> recvStream x' = recvStream x)"
proof (cases "parse_C_Ping P (payload pkt)")
  case None
  then show ?thesis
    using assms by (auto simp: HandlePing_def)
next
  case (Some t)
  let ?buf = "proto_buffer P OP_S_PONG (S_Pong t (clock os (calls w)))"
  obtain buf where buf: "?buf = Some buf"
    by (simp add: proto_buffer_sendable)
  have "heap w s \<noteq> None"
    using assms(4) by simp
  from disc.EnqueueSend_ok [OF assms(1,3) this, of os buf]
  obtain w' where w': "EnqueueSend os OnDisconnected s buf w = Some w'" "only s w w'" "ok h f r (view s w')"
      "server_inv m L Q P D (live w') (app w')" "\<forall>t. t \<noteq> s \<longrightarrow> live w' t = live w t"
    by blast
  have "HandlePing os P s pkt w = Some (True, w')"
    using Some buf w'(1)
    by (auto simp: HandlePing_def EnqueueSend_packet_def proto_buffer_def)
  moreover have "recvStream x' = recvStream x" if "heap w' s = Some x'" "\<not> closing x'" for x'
    using EnqueueSend_recvStream [OF w'(1) assms(4) that OnDisconnected_heap] .
  ultimately show ?thesis
    using w' by auto
qed

lemma HandlePacket_ok:
  assumes "ok h f r (view s w)" and "0 < h" and "server_inv m L Q P D (live w) (app w)"
    and "heap w s = Some x" and "\<forall>p. csPlayer x = Some p \<longrightarrow> p \<in> dom (store (app w))"
  shows "\<exists>b w'. HandlePacket os P s pkt w = Some (b, w') \<and> only s w w' \<and> ok h f r (view s w')
      \<and> server_inv m L Q P D (live w') (app w') \<and> (\<forall>t. t \<noteq> s \<longrightarrow> live w' t = live w t)
      \<and> (\<forall>x'. heap w' s = Some x' \<and> \<not> closing x' \<longrightarrow> recvStream x' = recvStream x)"
proof -
  have reply: ?thesis if "HandlePacket os P s pkt w = res" "room_reply m L Q D w res" for res
    using that assms(1,3,4) by (auto simp: room_reply_def server_inv_def)
  have inv: "room_inv m L Q D (live w) (app w)" and P: "proto_ok L P"
    using assms(3) by (simp_all add: server_inv_def)
  note rooms = room_handlers_ok [OF inv assms(4,5) P, of pkt]
  have refuse: "room_reply m L Q D w (Some (False, w))"
    by (rule room_reply_same [OF inv])
  show ?thesis
  proof (cases "hopcode (pheader pkt) = OP_C_PING")
    case True
    then have "HandlePacket os P s pkt w = HandlePing os P s pkt w"
      by (simp add: HandlePacket_def opcode_defs)
    then show ?thesis
      using HandlePing_ok [OF assms(1-4)] by simp
  next
    case False
    then have "HandlePacket os P s pkt w \<in> {HandleEnterGame P s pkt w, HandleInputCmd P s pkt w, HandleChat P s pkt w,
        HandleAttack P s pkt w, HandleResurrect s pkt w, HandleUseItem P s pkt w, HandleEnterZone P s pkt w,
        HandleLadderState_packet P s pkt w, Some (False, w)}"
      by (simp add: HandlePacket_def Let_def)
    then show ?thesis
      using reply rooms refuse by blast
  qed
qed


interpretation handler: packet_handler OnDisconnected "server_inv m L Q P D" "HandlePacket os P" for m L Q P D os
proof unfold_locales
  fix h f s w x p
  assume *: "ok h f True (view s w)" "0 < h" "server_inv m L Q P D (live w) (app w)" "heap w s = Some x" "\<not> closing x"
  then have "\<forall>p. csPlayer x = Some p \<longrightarrow> p \<in> dom (store (app w))"
    using player_of_session [of m L Q D w s x] by (auto simp: server_inv_def)
  from HandlePacket_ok [OF *(1-4) this]
  show "\<exists>b w'. HandlePacket os P s p w = Some (b, w') \<and> only s w w' \<and> ok h f True (view s w')
      \<and> server_inv m L Q P D (live w') (app w') \<and> (\<forall>t. t \<noteq> s \<longrightarrow> live w' t = live w t)
      \<and> (\<forall>x'. heap w' s = Some x' \<and> \<not> closing x' \<longrightarrow> recvStream x' = recvStream x)" .
qed

text \<open>Every session in memory, also one that is closing, has a player in memory.\<close>

definition players_stored :: "server \<Rightarrow> bool" where
  "players_stored w \<longleftrightarrow> (\<forall>s x p. heap w s = Some x \<and> csPlayer x = Some p \<longrightarrow> p \<in> dom (store (app w)))"

interpretation late: late_handler OnDisconnected "server_inv m L Q P D" "HandlePacket os P" players_stored for m L Q P D os
proof unfold_locales
  fix h f r s w x p
  assume *: "ok h f r (view s w)" "0 < h" "server_inv m L Q P D (live w) (app w)" "players_stored w"
    "heap w s = Some x" "closing x"
  then have "\<forall>p. csPlayer x = Some p \<longrightarrow> p \<in> dom (store (app w))"
    by (simp add: players_stored_def)
  from HandlePacket_ok [OF *(1-3,5) this, of os p]
  show "\<exists>b w'. HandlePacket os P s p w = Some (b, w') \<and> only s w w' \<and> ok h f r (view s w')
      \<and> server_inv m L Q P D (live w') (app w')"
    by blast
qed

lemma OnConnected_server:
  assumes "ok 0 False True (view s w)" and "live w s = Some (ClientSession.fields None)"
    and "server_inv m L Q P D ((live w)(s := None)) (app w)"
  shows "\<exists>w'. OnConnected s w = Some w' \<and> only s w w' \<and> ok 0 False True (view s w') \<and> heap w' s \<noteq> None
      \<and> server_inv m L Q P D (live w') (app w')"
proof -
  have inv: "phys_safe m L Q" "proto_ok L P" "room_inv m L Q D ((live w)(s := None)) (app w)"
    using assms(3) by (simp_all add: server_inv_def)
  then have "Q PhysicsState_new"
    by (simp add: phys_safe_def)
  from OnConnected_ok [OF assms(1,2) inv(3) this] inv(1,2) show ?thesis
    by (auto simp: server_inv_def)
qed

interpretation connected: connect_callback OnDisconnected "server_inv m L Q P D" OnConnected "ClientSession.fields None"
  for m L Q P D
  by unfold_locales (rule OnConnected_server)

subsection \<open>The game room\<close>

definition safe_at :: "(sref \<Rightarrow> holding) \<Rightarrow> tilemap \<Rightarrow> (f32 \<Rightarrow> f32 \<Rightarrow> bool) \<Rightarrow> (PhysicsState \<Rightarrow> bool) \<Rightarrow> proto_api
    \<Rightarrow> pref set \<Rightarrow> server \<Rightarrow> bool" where
  "safe_at H m L Q P D w \<longleftrightarrow> held_ok H w \<and> server_inv m L Q P D (live w) (app w)"

text \<open>Between steps, when no thread is at work.\<close>

abbreviation safe :: "tilemap \<Rightarrow> (f32 \<Rightarrow> f32 \<Rightarrow> bool) \<Rightarrow> (PhysicsState \<Rightarrow> bool) \<Rightarrow> proto_api \<Rightarrow> pref set \<Rightarrow> server \<Rightarrow> bool" where
  "safe \<equiv> safe_at (\<lambda>_. idle)"

lemma safe_def: "safe m L Q P D w \<longleftrightarrow> net_ok w \<and> server_inv m L Q P D (live w) (app w)"
  by (simp add: safe_at_def net_ok_held)

lemma safe_room: "safe_at H m L Q P D w \<Longrightarrow> room_inv m L Q D (live w) (app w)"
  by (simp add: safe_at_def server_inv_def)

lemma safe_app:
  "safe_at H m L Q P D w \<Longrightarrow> room_inv m L Q D' (live w) r \<Longrightarrow> safe_at H m L Q P D' (w\<lparr>app := r\<rparr>)"
  by (simp add: safe_at_def server_inv_def)

lemma safe_weaken: "safe_at H m L Q P D w \<Longrightarrow> D' \<subseteq> D \<Longrightarrow> safe_at H m L Q P D' w"
  by (auto simp: safe_at_def server_inv_def room_inv_def)

lemma safe_dom: "safe_at H m L Q P D w \<Longrightarrow> safe_at H m L Q P (dom (store (app w))) w"
  by (auto simp: safe_at_def server_inv_def room_inv_def)

lemma safe_stored: "safe_at H m L Q P D w \<Longrightarrow> p \<in> D \<Longrightarrow> \<exists>pl. store (app w) p = Some pl \<and> player_ok Q pl"
  using room_invD(2,9) [OF safe_room] by blast

lemma safe_put:
  assumes "safe_at H m L Q P D w" and "store (app w) p = Some pl"
    and "playerId pl' = playerId pl" and "session pl' = session pl" and "player_ok Q pl'"
  shows "safe_at H m L Q P D (put_player p pl' w)"
  unfolding put_player_def using room_inv_put [OF safe_room [OF assms(1)] assms(2-5)] safe_app [OF assms(1)] by blast

lemma RoomSend_ok:
  assumes "safe_at H m L Q P D w" and "p \<in> dom (store (app w))"
  shows "\<exists>w'. RoomSend os p buf w = Some w' \<and> safe_at H m L Q P D w'"
proof -
  obtain pl where pl: "store (app w) p = Some pl"
    using assms(2) by auto
  show ?thesis
  proof (cases "session pl")
    case None
    then show ?thesis
      using assms(1) pl by (simp add: RoomSend_def)
  next
    case (Some s)
    have "live w s = Some (ClientSession.fields (Some p))"
      using room_invD(5) [OF safe_room [OF assms(1)] pl Some] .
    then have "heap w s \<noteq> None"
      by (auto simp: live_Some_iff)
    with disc.EnqueueSend_held [of H w m L Q P D s os buf] assms(1) show ?thesis
      using pl Some by (auto simp: RoomSend_def safe_at_def)
  qed
qed

lemma RoomBroadcast_ok:
  assumes "safe_at H m L Q P D w"
  shows "\<exists>w'. RoomBroadcast os buf except w = Some w' \<and> safe_at H m L Q P D w'"
proof -
  let ?ps = "map snd (players (app w))" and ?D = "dom (store (app w))"
  have "\<exists>w'. RoomBroadcast os buf except w = Some w' \<and> safe_at H m L Q P ?D w'"
    unfolding RoomBroadcast_def
  proof (rule for_each_inv)
    show "safe_at H m L Q P ?D w"
      using assms by (rule safe_dom)
    fix p v
    assume p: "p \<in> set ?ps" and v: "safe_at H m L Q P ?D v"
    have "p \<in> ?D"
      using room_invD(6) [OF safe_room [OF assms]] p by fastforce
    then have "p \<in> dom (store (app v))"
      using room_invD(2) [OF safe_room [OF v]] by blast
    with v RoomSend_ok [OF v] show "\<exists>w'. (if Some p = except then Some v else RoomSend os p buf v) = Some w' \<and> safe_at H m L Q P ?D w'"
      by simp
  qed
  then show ?thesis
    using safe_weaken room_invD(2) [OF safe_room [OF assms]] by blast
qed

lemma Enter_ok:
  assumes "safe_at H m L Q P D w" and "p \<in> dom (store (app w))"
  shows "\<exists>w'. Enter p w = Some w' \<and> safe_at H m L Q P D w'"
proof -
  obtain pl where pl: "store (app w) p = Some pl"
    using assms(2) by auto
  note inv = room_invD [OF safe_room [OF assms(1)]]
  let ?r = "(app w)\<lparr>players := AList.update (playerId pl) p (players (app w))\<rparr>"
  have "room_inv m L Q D (live w) ?r"
  proof (rule room_invI)
    show "distinct (map fst (players ?r))"
      using inv(7) by (simp add: distinct_update)
    show "\<exists>pl. store ?r q = Some pl \<and> playerId pl = pid" if "(pid, q) \<in> set (players ?r)" for pid q
    proof -
      have "map_of (AList.update (playerId pl) p (players (app w))) pid = Some q"
        using that inv(7) by (simp add: distinct_update)
      then have "(pid, q) = (playerId pl, p) \<or> (pid, q) \<in> set (players (app w))"
        by (auto simp: update_conv split: if_splits dest: map_of_SomeD)
      then show ?thesis
        using inv(6) pl by auto
    qed
  qed (use inv in auto)
  then show ?thesis
    using safe_app [OF assms(1)] pl by (auto simp: Enter_def)
qed

lemma Leave_ok:
  assumes "safe_at H m L Q P D w"
  shows "\<exists>w'. Leave os P pid w = Some w' \<and> safe_at H m L Q P D w'"
proof (cases "map_of (players (app w)) pid")
  case None
  then show ?thesis
    using assms by (simp add: Leave_def)
next
  case (Some p)
  obtain buf where buf: "proto_buffer P OP_S_DESPAWN (S_Despawn [pid]) = Some buf"
    by (simp add: proto_buffer_sendable)
  obtain w1 where w1: "RoomBroadcast os buf None w = Some w1" "safe_at H m L Q P D w1"
    using RoomBroadcast_ok [OF assms] by blast
  note inv = room_invD [OF safe_room [OF w1(2)]]
  have "room_inv m L Q D (live w1) ((app w1)\<lparr>players := AList.delete pid (players (app w1))\<rparr>)"
  proof (rule room_invI)
    show "distinct (map fst (players ((app w1)\<lparr>players := AList.delete pid (players (app w1))\<rparr>)))"
      using inv(7) by (simp add: distinct_delete)
    show "\<exists>pl. store ((app w1)\<lparr>players := AList.delete pid (players (app w1))\<rparr>) q = Some pl \<and> playerId pl = i"
      if "(i, q) \<in> set (players ((app w1)\<lparr>players := AList.delete pid (players (app w1))\<rparr>))" for i q
      using that inv(6) [of i q] by (auto simp: AList.delete_eq)
  qed (use inv in auto)
  then show ?thesis
    using safe_app [OF w1(2)] Some buf w1(1) by (auto simp: Leave_def)
qed

lemma those_SomeI: "(\<And>x. x \<in> set xs \<Longrightarrow> f x \<noteq> None) \<Longrightarrow> \<exists>ys. those (map f xs) = Some ys"
  by (induction xs) (auto split: option.split)

lemma EnterGame_ok:
  assumes "safe_at H m L Q P D w" and "p \<in> dom (store (app w))"
  shows "\<exists>w'. EnterGame os P p nm w = Some w' \<and> safe_at H m L Q P D w'"
proof -
  obtain pl where pl: "store (app w) p = Some pl"
    using assms(2) by auto
  show ?thesis
  proof (cases "nm = [] \<or> length nm > 20 \<or> entered pl")
    case True
    then show ?thesis
      using assms(1) pl by (auto simp: EnterGame_def)
  next
    case False
    define pl1 where "pl1 = SetName nm pl"
    define w1 where "w1 = put_player p pl1 w"
    define others where "others = filter (\<lambda>q. q \<noteq> p) (map snd (players (app w1)))"
    let ?D = "dom (store (app w1))"
    have "player_ok Q pl1"
      using room_invD(9) [OF safe_room [OF assms(1)] pl] by (simp add: pl1_def player_ok_def SetName_def)
    then have "safe_at H m L Q P D w1"
      unfolding w1_def by (intro safe_put [OF assms(1) pl]) (simp_all add: pl1_def SetName_def)
    then have w1: "safe_at H m L Q P ?D w1" and D: "D \<subseteq> ?D"
      using safe_dom room_invD(2) [OF safe_room] by blast+
    have p: "p \<in> ?D"
      by (simp add: w1_def put_player_def)
    have oth: "set others \<subseteq> ?D"
      using room_invD(6) [OF safe_room [OF w1]] by (fastforce simp: others_def)
    obtain b1 b3 where b: "proto_buffer P OP_S_ENTER_GAME (S_EnterGame True (FillPlayerInfo pl1)) = Some b1"
        "proto_buffer P OP_S_SPAWN (S_Spawn [FillPlayerInfo pl1]) = Some b3"
      by (simp add: proto_buffer_sendable)
    have mem: "q \<in> dom (store (app v))" if "safe_at H m L Q P ?D v" "q \<in> ?D" for v q
      using room_invD(2) [OF safe_room [OF that(1)]] that(2) by blast
    obtain w2 where w2: "RoomSend os p b1 w1 = Some w2" "safe_at H m L Q P ?D w2"
      using RoomSend_ok [OF w1 p] by blast
    obtain infos where infos: "those (map (\<lambda>q. map_option FillPlayerInfo (store (app w2) q)) others) = Some infos"
      using those_SomeI [of others "\<lambda>q. map_option FillPlayerInfo (store (app w2) q)"] mem [OF w2(2)] oth by fastforce
    obtain b2 where b2: "proto_buffer P OP_S_PLAYER_LIST (S_PlayerList infos) = Some b2"
      by (simp add: proto_buffer_sendable)
    obtain w3 where w3: "RoomSend os p b2 w2 = Some w3" "safe_at H m L Q P ?D w3"
      using RoomSend_ok [OF w2(2) mem [OF w2(2) p]] by blast
    have "\<exists>w4. for_each (\<lambda>q w. RoomSend os q b3 w) others w3 = Some w4 \<and> safe_at H m L Q P ?D w4"
    proof (rule for_each_inv)
      show "safe_at H m L Q P ?D w3"
        by (rule w3(2))
      fix q v assume q: "q \<in> set others" and v: "safe_at H m L Q P ?D v"
      then have "q \<in> dom (store (app v))"
        using mem oth by blast
      from RoomSend_ok [OF v this] show "\<exists>w'. RoomSend os q b3 v = Some w' \<and> safe_at H m L Q P ?D w'" .
    qed
    then obtain w4 where w4: "for_each (\<lambda>q w. RoomSend os q b3 w) others w3 = Some w4" "safe_at H m L Q P D w4"
      using safe_weaken [OF _ D] by blast
    have "EnterGame os P p nm w = Some w4"
      using False pl b b2 w2(1) w3(1) w4(1) infos
      by (simp add: EnterGame_def Let_def pl1_def [symmetric] w1_def [symmetric] others_def [symmetric])
    then show ?thesis
      using w4(2) by blast
  qed
qed

lemma BroadcastAttack_ok:
  assumes "safe_at H m L Q P D w" and "p \<in> dom (store (app w))"
  shows "\<exists>w'. BroadcastAttack os P p k t x y w = Some w' \<and> safe_at H m L Q P D w'"
  using assms(2) RoomBroadcast_ok [OF assms(1)] by (auto simp: BroadcastAttack_def proto_buffer_sendable)

lemma Chat_ok:
  assumes "safe_at H m L Q P D w" and "p \<in> dom (store (app w))"
  shows "\<exists>w'. Chat os P p message type w = Some w' \<and> safe_at H m L Q P D w'"
  using assms(2) RoomBroadcast_ok [OF assms(1)] by (auto simp: Chat_def proto_buffer_sendable)

lemma safe_phys: "safe_at H m L Q P D w \<Longrightarrow> phys_safe m L Q \<and> tmap (app w) = m"
  by (auto simp: safe_at_def server_inv_def room_inv_def)

lemma run_task_ok:
  assumes "safe_at H m L Q P D w" and "task_ok L (dom (store (app w))) t"
  shows "\<exists>w'. run_task os P t w = Some w' \<and> safe_at H m L Q P D w'"
proof (cases t)
  case (Task_HandleLadderState p on x y velx vely)
  then obtain pl where pl: "store (app w) p = Some pl" and L: "L x y"
    using assms(2) by auto
  have ok: "player_ok Q pl"
    using room_invD(9) [OF safe_room [OF assms(1)] pl] .
  then obtain st where st: "HandleLadderState m on x y velx vely (physState pl) = Some st" "Q st"
    using safe_phys [OF assms(1)] L by (auto simp: phys_safe_def player_ok_def) blast
  have "safe_at H m L Q P D (put_player p (pl\<lparr>physState := st\<rparr>) w)"
    using ok st(2) by (intro safe_put [OF assms(1) pl]) (simp_all add: player_ok_def)
  then show ?thesis
    using Task_HandleLadderState pl st(1) safe_phys [OF assms(1)] by (simp add: run_task_def)
qed (use assms Enter_ok Leave_ok EnterGame_ok Chat_ok BroadcastAttack_ok in \<open>auto simp: run_task_def\<close>)

lemma DrainTasks_ok:
  assumes "safe_at H m L Q P D w"
  shows "\<exists>w'. DrainTasks os P w = Some w' \<and> safe_at H m L Q P D w'"
proof -
  let ?w0 = "w\<lparr>app := (app w)\<lparr>taskQueue := []\<rparr>\<rparr>" and ?D = "dom (store (app w))"
  note inv = room_invD [OF safe_room [OF assms]]
  have "room_inv m L Q ?D (live w) ((app w)\<lparr>taskQueue := []\<rparr>)"
    by (rule room_invI) (use inv in auto)
  then have w0: "safe_at H m L Q P ?D ?w0"
    using safe_app [OF assms] by blast
  have "\<exists>w'. for_each (run_task os P) (taskQueue (app w)) ?w0 = Some w' \<and> safe_at H m L Q P ?D w'"
  proof (rule for_each_inv)
    show "safe_at H m L Q P ?D ?w0"
      by (rule w0)
  next
    fix t v assume t: "t \<in> set (taskQueue (app w))" and v: "safe_at H m L Q P ?D v"
    have "task_ok L (dom (store (app v))) t"
      using inv(8) [OF t] room_invD(2) [OF safe_room [OF v]] by (rule task_ok_mono)
    then show "\<exists>w'. run_task os P t v = Some w' \<and> safe_at H m L Q P ?D w'"
      using run_task_ok [OF v] by blast
  qed
  then show ?thesis
    using safe_weaken inv(2) by (auto simp: DrainTasks_def)
qed

subsection \<open>The tick\<close>

lemma player_ok_step:
  "player_ok Q pl \<Longrightarrow> Q st \<Longrightarrow> player_ok Q (pl\<lparr>physState := st\<rparr>)"
  by (simp add: player_ok_def)

lemma run_inputs_ok:
  assumes "phys_safe m L Q" and "player_ok Q pl"
  shows "\<exists>k pl'. run_inputs m n pl = Some (k, pl') \<and> player_ok Q pl' \<and> playerId pl' = playerId pl
    \<and> session pl' = session pl"
  using assms(2)
proof (induction n arbitrary: pl)
  case (Suc n)
  show ?case
  proof (cases "inputBuffer pl")
    case Nil
    then show ?thesis
      using Suc.prems by (simp add: HasInput_def)
  next
    case (Cons cmd rest)
    have Q: "Q (physState pl)" and wf: "wf_f32 (deltaTime cmd)"
      using Suc.prems Cons by (simp_all add: player_ok_def)
    obtain st where st: "SimulatePlayer m cmd CLIENT_DT (physState pl) = Some st" "Q st"
      using assms(1) Q wf unfolding phys_safe_def by blast
    have "player_ok Q (pl\<lparr>inputBuffer := rest, physState := st\<rparr>)"
      using Suc.prems Cons st(2) by (simp add: player_ok_def)
    from Suc.IH [OF this] show ?thesis
      using Cons st(1) by (auto simp: HasInput_def DequeueInput_def)
  qed
qed simp

lemma run_idle_ok:
  assumes "phys_safe m L Q" and "player_ok Q pl"
  shows "\<exists>pl'. run_idle m n pl = Some pl' \<and> player_ok Q pl' \<and> playerId pl' = playerId pl
    \<and> session pl' = session pl"
  using assms(2)
proof (induction n arbitrary: pl)
  case (Suc n)
  have "Q (physState pl)" and "wf_f32 (deltaTime zero_input)"
    using Suc.prems by (simp_all add: player_ok_def zero_input_def float_eval representable_def)
  then obtain st where st: "SimulatePlayer m zero_input CLIENT_DT (physState pl) = Some st" "Q st"
    using assms(1) unfolding phys_safe_def by blast
  from Suc.IH [OF player_ok_step [OF Suc.prems st(2)]] show ?case
    using st(1) by auto
qed simp

lemma simulate_tick_ok:
  assumes "phys_safe m L Q" and "player_ok Q pl"
  shows "\<exists>pl'. simulate_tick m pl = Some pl' \<and> player_ok Q pl' \<and> playerId pl' = playerId pl
    \<and> session pl' = session pl"
proof -
  obtain k pl1 where 1: "run_inputs m MAX_STEPS_PER_TICK pl = Some (k, pl1)" "player_ok Q pl1"
      "playerId pl1 = playerId pl" "session pl1 = session pl"
    using run_inputs_ok [OF assms] by blast
  then show ?thesis
    using run_idle_ok [OF assms(1) 1(2), of 3] by (auto simp: simulate_tick_def)
qed

lemma tick_player_ok:
  assumes "safe_at H m L Q P D w" and "p \<in> dom (store (app w))"
  shows "\<exists>w'. tick_player os P p w = Some w' \<and> safe_at H m L Q P D w'"
proof -
  obtain pl where pl: "store (app w) p = Some pl"
    using assms(2) by auto
  show ?thesis
  proof (cases "entered pl")
    case False
    then show ?thesis
      using assms(1) pl by (simp add: tick_player_def)
  next
    case True
    obtain pl1 where pl1: "simulate_tick m pl = Some pl1" "player_ok Q pl1" "playerId pl1 = playerId pl" "session pl1 = session pl"
      using simulate_tick_ok safe_phys [OF assms(1)] room_invD(9) [OF safe_room [OF assms(1)] pl] by blast
    let ?w1 = "put_player p pl1 w"
    have w1: "safe_at H m L Q P D ?w1"
      using safe_put [OF assms(1) pl pl1(3,4,2)] .
    obtain b1 where b1: "proto_buffer P OP_S_PLAYER_STATE (S_PlayerState_msg (player_state_msg pl1)) = Some b1"
      by (simp add: proto_buffer_sendable)
    have "p \<in> dom (store (app ?w1))"
      by (simp add: put_player_def)
    then obtain w2 where w2: "RoomSend os p b1 ?w1 = Some w2" "safe_at H m L Q P D w2"
      using RoomSend_ok [OF w1] by blast
    obtain b2 where b2: "proto_buffer P OP_S_BROADCAST_MOVE
        (S_BroadcastMove_msg (broadcast_move_msg (serverTick (app w2)) pl1)) = Some b2"
      by (simp add: proto_buffer_sendable)
    show ?thesis
      using True pl pl1(1) b1 w2 b2 safe_phys [OF assms(1)] RoomBroadcast_ok [OF w2(2), of os b2 "Some p"]
      by (auto simp: tick_player_def Let_def)
  qed
qed

lemma TickAll_ok:
  assumes "safe_at H m L Q P D w"
  shows "\<exists>w'. TickAll os P w = Some w' \<and> safe_at H m L Q P D w'"
proof -
  let ?D = "dom (store (app w))"
  have "\<exists>w1. for_each (tick_player os P) (map snd (players (app w))) w = Some w1 \<and> safe_at H m L Q P ?D w1"
  proof (rule for_each_inv)
    show "safe_at H m L Q P ?D w"
      using assms by (rule safe_dom)
  next
    fix p v assume p: "p \<in> set (map snd (players (app w)))" and v: "safe_at H m L Q P ?D v"
    have "p \<in> dom (store (app v))"
      using room_invD(6) [OF safe_room [OF assms]] p room_invD(2) [OF safe_room [OF v]] by fastforce
    then show "\<exists>w'. tick_player os P p v = Some w' \<and> safe_at H m L Q P ?D w'"
      by (rule tick_player_ok [OF v])
  qed
  then obtain w1 where w1: "for_each (tick_player os P) (map snd (players (app w))) w = Some w1" "safe_at H m L Q P D w1"
    using safe_weaken room_invD(2) [OF safe_room [OF assms]] by blast
  have "room_inv m L Q D (live w1) ((app w1)\<lparr>serverTick := serverTick (app w1) + 1\<rparr>)"
    by (rule room_invI) (use room_invD [OF safe_room [OF w1(2)]] in auto)
  then show ?thesis
    using w1 safe_app [OF w1(2)] by (auto simp: TickAll_def)
qed

lemma game_loop_round_ok:
  assumes "safe_at H m L Q P D w"
  shows "\<exists>w'. game_loop_round os P w = Some w' \<and> safe_at H m L Q P D w'"
proof (cases "loopRunning (app w)")
  case True
  then show ?thesis
    using DrainTasks_ok [OF assms, of os] TickAll_ok by (fastforce simp: game_loop_round_def)
qed (use assms in \<open>simp add: game_loop_round_def\<close>)

end
