(* ===== verification/WorldBounds.thy ===== *)
theory WorldBounds
  imports Movement
begin

text \<open>
  The invariant of a player's motion on a real map. Positions are \<open>float\<close>s: beyond
  \<open>2^24\<close> the spacing of binary32 is two units, and no step of the simulation moves a player by
  more than one, so the sum rounds back and a player never leaves the square of side
  \<open>2^25\<close> around the origin, however long the server runs. Inside it every conversion of the
  collision tests to \<open>int\<close> is defined, and the collision tests place a player only at faces of
  cells the map has.
\<close>

subsection \<open>Sums that stall\<close>

lemma bnd_stall:
  assumes "bnd a (2 ^ 24)" and "bnd b 1"
  shows "bnd (fadd a b) (2 ^ 24)"
proof -
  let ?top = "(2 ^ 24 + 1) * UNIT"
  have ab: "is_fin a" "is_fin b" and "\<bar>fval a\<bar> \<le> 2 ^ 24 * UNIT" "\<bar>fval b\<bar> \<le> 1 * UNIT"
    using assms unfolding bnd_def by simp_all
  then have "\<bar>fval a + fval b\<bar> \<le> ?top"
    by simp
  then have "rnds (fval a + fval b) 1 \<le> rnds ?top 1" and "rnds (- ?top) 1 \<le> rnds (fval a + fval b) 1"
    by (auto intro!: rnds_mono simp: abs_le_iff)
  moreover have "rnds ?top 1 = 2 ^ 24 * UNIT" and "rnds (- ?top) 1 = - (2 ^ 24 * UNIT)"
    by (simp_all add: rnds_def float_eval)
  ultimately have r: "\<bar>rnds (fval a + fval b) 1\<bar> \<le> 2 ^ 24 * UNIT"
    by (simp add: abs_le_iff)
  then have "\<bar>rnds (fval a + fval b) 1\<bar> < OVERFLOW"
    by simp
  with rounds_fadd [OF ab] r show ?thesis
    by (simp add: bnd_def rounds_to_def)
qed

lemma bnd_stall_sub: "bnd a (2 ^ 24) \<Longrightarrow> bnd b 1 \<Longrightarrow> bnd (fsub a b) (2 ^ 24)"
  unfolding fsub_def by (rule bnd_stall) simp_all

lemma WorldToCell_far:
  assumes "bnd w (2 ^ 24)" and "cell_size_ok cs"
  shows "\<exists>c. WorldToCell w cs = Some c \<and> \<bar>c\<bar> \<le> 2 ^ 27"
proof -
  let ?q = "fdiv w cs" and ?K = "2 ^ 27 * UNIT"
  have cs: "is_fin cs" "wf_f32 cs" "UNIT \<le> 8 * fval cs" "0 < fval cs"
    using assms(2) by (simp_all add: cell_size_ok_def)
  have w: "is_fin w" "wf_f32 w" "\<bar>fval w\<bar> \<le> 2 ^ 24 * UNIT"
    using assms(1) by (simp_all add: bnd_def)
  have "\<bar>fval w\<bar> * UNIT \<le> (2 ^ 24 * UNIT) * (8 * fval cs)"
    using w(3) cs(3) by (intro mult_mono) simp_all
  then have n: "\<bar>fval w * UNIT * sgn (fval cs)\<bar> \<le> ?K * \<bar>fval cs\<bar>"
    using cs(4) by (simp add: abs_mult)
  have r: "rounds_to ?q (fval w * UNIT * sgn (fval cs)) \<bar>fval cs\<bar>"
    using w cs by (intro rounds_fdiv) simp_all
  have K: "srep ?K" "srep (- ?K)"
    using srep_int [of 1 176] srep_int [of "- 1" 176] by simp_all
  have d: "0 < \<bar>fval cs\<bar>"
    using cs(4) by simp
  have le: "fval w * UNIT * sgn (fval cs) \<le> ?K * \<bar>fval cs\<bar>" and ge: "- ?K * \<bar>fval cs\<bar> \<le> fval w * UNIT * sgn (fval cs)"
    using n by (simp_all only: abs_le_iff minus_mult_left [symmetric]) linarith+
  have "fval ?q \<le> ?K" and "- ?K \<le> fval ?q"
    using rounds_to_le [OF r d K(1) _ le] rounds_to_ge [OF r d K(2) _ ge] by simp_all
  then have lo: "- (2 ^ 27) \<le> fval ?q div UNIT" and hi: "fval ?q div UNIT \<le> 2 ^ 27"
    using le_div_int_iff [of UNIT "- (2 ^ 27)" "fval ?q"] zdiv_mono1 [of "fval ?q" ?K UNIT] by simp_all
  have "is_fin ?q"
    by (rule rounds_to_fin [OF r d K(1) _ _ n]) simp_all
  then have "WorldToCell w cs = i32 (fval ?q div UNIT)"
    using floor_to_int [of ?q] rounds_to_wf [OF r] by (simp add: WorldToCell_def)
  with lo hi show ?thesis
    by (simp add: i32_def in_i32_def abs_le_iff)
qed

subsection \<open>Maps of bounded extent\<close>

text \<open>The cell a key stands for lies within about a million cells of the origin.\<close>

definition near_key :: "u64 \<Rightarrow> bool" where
  "near_key k \<longleftrightarrow> \<bar>sint (ucast k :: u32)\<bar> \<le> 2 ^ 20 \<and> \<bar>sint (ucast (drop_bit 32 k) :: u32)\<bar> \<le> 2 ^ 20"

definition world_ok :: "tilemap \<Rightarrow> bool" where
  "world_ok m \<longleftrightarrow> map_ok m \<and> (\<forall>k\<in>solid m \<union> ladder m \<union> floatingGround m. near_key k)"

lemma near_key_PackCell:
  assumes "in_i32 cx" and "in_i32 cy"
  shows "near_key (PackCell cx cy) \<longleftrightarrow> \<bar>cx\<bar> \<le> 2 ^ 20 \<and> \<bar>cy\<bar> \<le> 2 ^ 20"
proof -
  have "sint (word_of_int c :: u32) = c" if "in_i32 c" for c
    using that by (simp add: in_i32_def signed_of_int signed_take_bit_int_eq_self)
  then show ?thesis
    using assms by (simp add: near_key_def PackCell_low PackCell_high)
qed

lemma world_ok_cells:
  assumes "world_ok m" and "in_i32 cx" and "in_i32 cy"
    and "IsSolid m cx cy \<or> IsLadder m cx cy \<or> IsFloatingGround m cx cy"
  shows "\<bar>cx\<bar> \<le> 2 ^ 20" and "\<bar>cy\<bar> \<le> 2 ^ 20"
proof -
  have "near_key (PackCell cx cy)"
    using assms(1,4) by (auto simp: world_ok_def IsSolid_def IsLadder_def IsFloatingGround_def)
  then show "\<bar>cx\<bar> \<le> 2 ^ 20" and "\<bar>cy\<bar> \<le> 2 ^ 20"
    using near_key_PackCell [OF assms(2,3)] by simp_all
qed

lemma bnd_near_face:
  assumes "\<bar>c\<bar> \<le> 2 ^ 20 + 2" and "cell_size_ok cs"
  shows "bnd (fmul (int_to_f32 c) cs) (2 ^ 23)"
proof (rule bnd_face)
  have "\<bar>c\<bar> * fval cs \<le> (2 ^ 20 + 2) * (4 * UNIT)"
    using assms by (intro mult_mono) (simp_all add: cell_size_ok_def)
  then show "\<bar>c\<bar> * fval cs \<le> 2 ^ 23 * UNIT"
    by simp
qed (use assms in simp_all)

subsection \<open>The collision tests inside the world\<close>

definition in_world :: "Vec2 \<Rightarrow> bool" where
  "in_world p \<longleftrightarrow> bnd (vecx p) (2 ^ 24) \<and> bnd (vecy p) (2 ^ 24)"

lemmas stall = bnd_stall bnd_stall_sub bnd_consts

lemma rows_columns_far:
  assumes "in_world p" and "world_ok m" and "loaded m"
  shows "\<exists>c. feet_row m p = Some c \<and> \<bar>c\<bar> \<le> 2 ^ 27" and "\<exists>c. head_row m p = Some c \<and> \<bar>c\<bar> \<le> 2 ^ 27"
    and "\<exists>c. left_col m p = Some c \<and> \<bar>c\<bar> \<le> 2 ^ 27" and "\<exists>c. right_col m p = Some c \<and> \<bar>c\<bar> \<le> 2 ^ 27"
  using assms unfolding feet_row_def head_row_def left_col_def right_col_def
  by (intro WorldToCell_far stall; simp add: in_world_def world_ok_def map_ok_def)+

lemma far_in_i32: "\<bar>c\<bar> \<le> 2 ^ 27 \<Longrightarrow> in_i32 c" "\<bar>c\<bar> \<le> 2 ^ 27 \<Longrightarrow> in_i32 (c + 1)" "\<bar>c\<bar> \<le> 2 ^ 27 \<Longrightarrow> in_i32 (c - 1)"
  "\<bar>a\<bar> \<le> 2 ^ 27 \<Longrightarrow> \<bar>b\<bar> \<le> 2 ^ 27 \<Longrightarrow> c \<in> {a..b} \<Longrightarrow> in_i32 c"
  by (auto simp: in_i32_def abs_le_iff)

lemma CheckGround_world:
  assumes "world_ok m" and "loaded m" and "in_world p"
  shows "\<exists>g. CheckGround m p ig = Some g \<and> (groundHit g \<longrightarrow> bnd (groundY g) (2 ^ 23))"
proof -
  obtain c a b where c: "feet_row m p = Some c" "\<bar>c\<bar> \<le> 2 ^ 27" and a: "left_col m p = Some a" "\<bar>a\<bar> \<le> 2 ^ 27"
    and b: "right_col m p = Some b" "\<bar>b\<bar> \<le> 2 ^ 27"
    using rows_columns_far [OF assms(3,1,2)] by blast
  obtain r where "ground_loop m ig (fsub (vecy p) PLAYER_HALF_H) c b a (fneg (flit 1000000000 1), False) = Some r"
    using ground_loop_defined [of b c m ig] b c by (fastforce simp: abs_le_iff)
  then obtain g where g: "CheckGround m p ig = Some g"
    using assms(2) a b c by (cases r) (simp add: CheckGround_loaded)
  have "bnd (groundY g) (2 ^ 23)" if hit: "groundHit g"
  proof -
    obtain k where "k \<in> {a..b}" and "ground_cell m ig k c"
      using CheckGround_hit(1) [OF assms(2) g c(1) a(1) b(1)] hit by blast
    then have "\<bar>c\<bar> \<le> 2 ^ 20"
      using world_ok_cells(2) [OF assms(1) far_in_i32(4) [OF a(2) b(2)] far_in_i32(1) [OF c(2)]]
      by (auto simp: ground_cell_def)
    moreover from this have "the (CellTopY m c) = fmul (int_to_f32 (c + 1)) (cellSizeY m)"
      by (simp add: CellTopY_def i32_def in_i32_def abs_le_iff)
    ultimately show ?thesis
      using CheckGround_hit(2) [OF assms(2) g c(1) a(1) b(1) hit] assms(1,2) bnd_near_face [of "c + 1" "cellSizeY m"]
      by (simp add: world_ok_def map_ok_def abs_le_iff)
  qed
  with g show ?thesis by blast
qed

lemma CheckCeiling_world:
  assumes "world_ok m" and "loaded m" and "in_world p"
  shows "\<exists>c. CheckCeiling m p = Some c \<and> (ceilHit c \<longrightarrow> bnd (ceilY c) (2 ^ 23))"
proof -
  obtain c a b where c: "head_row m p = Some c" "\<bar>c\<bar> \<le> 2 ^ 27" and a: "left_col m p = Some a" "\<bar>a\<bar> \<le> 2 ^ 27"
    and b: "right_col m p = Some b" "\<bar>b\<bar> \<le> 2 ^ 27"
    using rows_columns_far [OF assms(3,1,2)] by blast
  obtain y h where r: "ceil_loop m c b a (flit 1000000000 1, False) = Some (y, h)"
    using ceil_loop_defined [of b] b by (fastforce simp: abs_le_iff)
  have "bnd y (2 ^ 23)" if h
  proof -
    have "\<exists>k\<in>{a..b}. IsSolid m k c" and y: "y = CellBottomY m c"
      using ceil_loop_row [OF r] that by (auto split: if_splits)
    then have "\<bar>c\<bar> \<le> 2 ^ 20"
      using world_ok_cells(2) [OF assms(1) far_in_i32(4) [OF a(2) b(2)] far_in_i32(1) [OF c(2)]] by blast
    then show ?thesis
      unfolding y CellBottomY_def using assms(1,2) by (intro bnd_near_face) (simp_all add: world_ok_def map_ok_def)
  qed
  then show ?thesis
    using assms(2) a b c r by (simp add: CheckCeiling_def Let_def left_col_def right_col_def head_row_def)
qed

lemma CheckWall_world:
  assumes "world_ok m" and "loaded m" and "in_world p"
  shows "\<exists>w. CheckWall m p moveX = Some w \<and> (wallHit w \<longrightarrow> bnd (wallX w) (2 ^ 24))"
proof (cases "feq moveX fzero")
  case True
  then show ?thesis
    by (simp add: CheckWall_def)
next
  case False
  have cs: "cell_size_ok (cellSizeX m)" "cell_size_ok (cellSizeY m)"
    using assms(1,2) by (simp_all add: world_ok_def map_ok_def)
  define sideX where "sideX = (if fgt moveX fzero
    then fadd (fadd (vecx p) PLAYER_HALF_W) (flit 1 100)
    else fsub (fsub (vecx p) PLAYER_HALF_W) (flit 1 100))"
  have "bnd sideX (2 ^ 24)"
    using assms(3) by (simp add: sideX_def in_world_def stall [simplified])
  then obtain c where c: "WorldToCell sideX (cellSizeX m) = Some c" "\<bar>c\<bar> \<le> 2 ^ 27"
    using WorldToCell_far cs by blast
  obtain a where a: "WorldToCell (fadd (fsub (vecy p) PLAYER_HALF_H) (flit 5 100)) (cellSizeY m) = Some a" "\<bar>a\<bar> \<le> 2 ^ 27"
    using assms(3) WorldToCell_far [OF _ cs(2)] by (metis in_world_def stall(1,2,3,12))
  obtain b where b: "WorldToCell (fsub (fadd (vecy p) PLAYER_HALF_H) (flit 5 100)) (cellSizeY m) = Some b" "\<bar>b\<bar> \<le> 2 ^ 27"
    using assms(3) WorldToCell_far [OF _ cs(2)] by (metis in_world_def stall(1,2,3,12))
  obtain w where w: "wall_loop m moveX c b a = Some w"
    using wall_loop_defined [of b c m moveX a] b c by (fastforce simp: abs_le_iff)
  have "bnd (wallX w) (2 ^ 24)" if "wallHit w"
  proof -
    have "\<exists>k\<in>{a..b}. IsSolid m c k"
      using wall_loop_column(1) [OF w] that by blast
    then have near: "\<bar>c\<bar> \<le> 2 ^ 20"
      using world_ok_cells(1) [OF assms(1) far_in_i32(1) [OF c(2)] far_in_i32(4) [OF a(2) b(2)]] by blast
    then have "bnd (CellLeftX m c) (2 ^ 23)" and "bnd (the (CellRightX m c)) (2 ^ 23)"
      using bnd_near_face [OF _ cs(1)]
      by (simp_all add: CellLeftX_def CellRightX_def i32_def in_i32_def abs_le_iff)
    then have "bnd (CellLeftX m c) (2 ^ 24)" and "bnd (the (CellRightX m c)) (2 ^ 24)"
      by (auto elim: bnd_mono)
    then show ?thesis
      using wall_loop_column(2) [OF w that] by (simp add: stall [simplified])
  qed
  moreover have "CheckWall m p moveX = Some w"
    using False assms(2) a b c w by (simp add: CheckWall_def Let_def sideX_def)
  ultimately show ?thesis by blast
qed

lemma GetLadderExtent_world:
  assumes "world_ok m" and "loaded m" and "in_i32 cx" and "in_i32 cy" and "IsLadder m cx cy"
  shows "\<exists>c lo hi. GetLadderExtent m cx cy = Some (c, lo, hi) \<and> bnd c (2 ^ 24) \<and> bnd lo (2 ^ 23) \<and> bnd hi (2 ^ 23)"
proof -
  have cs: "cell_size_ok (cellSizeX m)" "cell_size_ok (cellSizeY m)"
    using assms(1,2) by (simp_all add: world_ok_def map_ok_def)
  have near: "\<bar>cx\<bar> \<le> 2 ^ 20" "\<bar>cy\<bar> \<le> 2 ^ 20"
    using world_ok_cells [OF assms(1,3,4)] assms(5) by blast+
  have out: "\<not> IsLadder m cx k" if "in_i32 k" "2 ^ 20 < \<bar>k\<bar>" for k
    using world_ok_cells(2) [OF assms(1,3) that(1)] that(2) by fastforce
  have rng: "in_i32 (- (2 ^ 20) - 1)" "in_i32 (2 ^ 20 + 1)"
    by (simp_all add: in_i32_def)
  obtain lo where lo: "ladder_down m cx cy = Some lo" "- (2 ^ 20) - 1 < lo"
    using ladder_down_defined [OF out [OF rng(1)], of cy] near(2) rng(1) by (auto simp: in_i32_def abs_le_iff)
  obtain hi where hi: "ladder_up m cx cy = Some hi" "hi < 2 ^ 20 + 1"
    using ladder_up_defined [OF out [OF rng(2)], of cy] near(2) rng(2) by (auto simp: in_i32_def abs_le_iff)
  have le: "lo \<le> cy" "cy \<le> hi"
    using ladder_down_maximal [OF lo(1)] ladder_up_maximal [OF hi(1)] by simp_all
  have "bnd (fmul (int_to_f32 lo) (cellSizeY m)) (2 ^ 23)" "bnd (fmul (int_to_f32 (hi + 1)) (cellSizeY m)) (2 ^ 23)"
    using lo(2) hi(2) le near(2) cs(2) by (intro bnd_near_face; simp add: abs_le_iff)+
  moreover have "bnd (fmul (fadd (int_to_f32 cx) (flit 1 2)) (cellSizeX m)) ((2 ^ 20 + 1) * 4)"
  proof (rule bnd_fmul)
    have "bnd (int_to_f32 cx) (2 ^ 20)"
      using near(1) bnd_int [of cx] by (intro bnd_mono [of _ "\<bar>cx\<bar>" "2 ^ 20"]) simp_all
    then show "bnd (fadd (int_to_f32 cx) (flit 1 2)) (2 ^ 20 + 1)"
      by (rule bnd_fadd) (simp_all add: bnd_consts)
    show "bnd (cellSizeX m) 4"
      using cs(1) by (simp add: bnd_def cell_size_ok_def abs_le_iff)
  qed simp
  ultimately show ?thesis
    using lo(1) hi near(2) le
    by (auto simp: GetLadderExtent_def i32_def in_i32_def Let_def abs_le_iff intro: bnd_mono)
qed

subsection \<open>The simulation inside the world\<close>

text \<open>The duration of a step: at most a tenth of a second, the bound on the client's.\<close>

definition dt_short :: "f32 \<Rightarrow> bool" where
  "dt_short d \<longleftrightarrow> is_fin d \<and> wf_f32 d \<and> 0 \<le> fval d \<and> fval d \<le> fval (flit 1 10)"

lemma tenth_val: "fval (flit 1 10) = 71362385698680390680846996795520405043412992"
  by (simp add: float_eval)

lemma dt_short_ok: "dt_short d \<Longrightarrow> dt_ok d"
  by (simp add: dt_short_def dt_ok_def bnd_def tenth_val)

lemma use_dt_short:
  assumes "dt_short dt" and "wf_f32 (deltaTime cmd)"
  shows "dt_short (use_dt cmd dt)"
proof (cases "fgt (deltaTime cmd) fzero \<and> flt (deltaTime cmd) (flit 1 10)")
  case True
  have "dt_ok (deltaTime cmd)"
    using use_dt_ok [OF dt_short_ok [OF assms(1)] assms(2)] True by (simp add: use_dt_def)
  then show ?thesis
    using True by (simp add: use_dt_def dt_short_def dt_ok_def bnd_def flt_def)
qed (use assms(1) in \<open>auto simp: use_dt_def\<close>)

lemma bnd_short: "bnd a 9 \<Longrightarrow> dt_short d \<Longrightarrow> bnd (fmul a d) 1"
proof (rule rounds_to_bnd [OF rounds_fmul])
  assume a: "bnd a 9" and d: "dt_short d"
  have "\<bar>fval a\<bar> * \<bar>fval d\<bar> \<le> (9 * UNIT) * fval (flit 1 10)"
    using a d by (intro mult_mono) (simp_all add: bnd_def dt_short_def)
  also have "\<dots> \<le> 1 * UNIT * UNIT"
    by (simp add: tenth_val)
  finally show "\<bar>fval a * fval d\<bar> \<le> 1 * UNIT * UNIT"
    by (simp add: abs_mult)
qed (simp_all add: bnd_def dt_short_def)

lemma bnd_rise: "vy_ok v \<Longrightarrow> fgt v fzero \<Longrightarrow> dt_short d \<Longrightarrow> bnd (fmul v d) 1"
proof -
  assume v: "vy_ok v" "fgt v fzero" and d: "dt_short d"
  have fin: "is_fin v" "wf_f32 v" "0 \<le> fval v" "fval v \<le> fval JUMP_FORCE"
    "is_fin d" "wf_f32 d" "0 \<le> fval d" "fval d \<le> fval (flit 1 10)"
    using v d by (simp_all add: vy_ok_def dt_short_def flt_def fzero_def sval_def)
  have top: "is_fin JUMP_FORCE" "wf_f32 JUMP_FORCE" "is_fin (flit 1 10)" "wf_f32 (flit 1 10)"
    by (simp_all add: const_vals float_eval representable_def)
  have le: "fval v * fval d \<le> fval JUMP_FORCE * fval (flit 1 10)"
    using fin by (intro mult_mono) simp_all
  have r: "rounds_to (fmul v d) (fval v * fval d) UNIT"
    using fin by (intro rounds_fmul) simp_all
  have "fval (fmul v d) \<le> fval (fmul JUMP_FORCE (flit 1 10))"
    by (rule rounds_to_mono [OF r rounds_fmul [OF top(1,3,2,4)] _ le]) simp
  also have "\<dots> = 1 * UNIT"
    by (simp add: const_vals float_eval)
  finally have hi: "fval (fmul v d) \<le> 1 * UNIT" .
  have lo: "0 \<le> fval (fmul v d)"
    using fin by (intro rounds_to_ge [OF r]) (simp_all add: srep_def representable_small)
  have "bnd (fmul v d) (15 * 1)"
    using vy_ok_bnd [OF v(1)] dt_ok_bnd [OF dt_short_ok [OF d]] by (rule bnd_fmul) simp
  with hi lo show ?thesis
    by (simp add: bnd_def)
qed

text \<open>
  The invariant of a physics state: the vertical speed is between the terminal velocity and the
  jump speed; on a loaded map the position and the ladder data are inside the world. Without a
  map the code converts no coordinate, and nothing is asked of them.
\<close>

definition motion_ok :: "tilemap \<Rightarrow> PhysicsState \<Rightarrow> bool" where
  "motion_ok m s \<longleftrightarrow> vy_ok (vecy (vel s)) \<and> (loaded m \<longrightarrow> in_world (pos s)
     \<and> bnd (ladderCenterX s) (2 ^ 24) \<and> bnd (ladderMinY s) (2 ^ 24) \<and> bnd (ladderMaxY s) (2 ^ 24 - 1))"

lemma motion_ok_new [simp]: "motion_ok m PhysicsState_new"
  by (simp add: motion_ok_def in_world_def PhysicsState_new_def vy_ok_consts)

lemma bnd_landing: "bnd y (2 ^ 23) \<Longrightarrow> bnd (fadd y PLAYER_HALF_H) (2 ^ 24)" "bnd y (2 ^ 23) \<Longrightarrow> bnd (fsub y PLAYER_HALF_H) (2 ^ 24)"
  by (intro stall bnd_mono [of y "2 ^ 23" "2 ^ 24"]; simp)+

text \<open>The ground test is defined wherever a player may be.\<close>

lemma CheckGround_anywhere:
  assumes "world_ok m" and "motion_ok m s"
  obtains g where "CheckGround m (pos s) ig = Some g"
    and "loaded m \<Longrightarrow> groundHit g \<Longrightarrow> bnd (fadd (groundY g) PLAYER_HALF_H) (2 ^ 24)"
proof (cases "loaded m")
  case True
  then show ?thesis
    using CheckGround_world [OF assms(1) True, of "pos s" ig] assms(2) that bnd_landing(1)
    by (auto simp: motion_ok_def)
qed (use that in \<open>simp add: CheckGround_def Let_def\<close>)

lemma fall_loop_world:
  assumes "world_ok m" and "motion_ok m s" and "bnd (fmul (vecy (vel s)) d) 1"
  shows "\<exists>s'. fall_loop m ig d k s = Some s' \<and> motion_ok m s'"
  using assms(2,3)
proof (induction k arbitrary: s)
  case (Suc k)
  define s1 where "s1 = set_py (fadd (vecy (pos s)) (fmul (vecy (vel s)) d)) s"
  have s1: "motion_ok m s1"
    using Suc.prems bnd_stall by (auto simp: motion_ok_def s1_def in_world_def)
  obtain g where g: "CheckGround m (pos s1) ig = Some g"
    and hit: "loaded m \<Longrightarrow> groundHit g \<Longrightarrow> bnd (fadd (groundY g) PLAYER_HALF_H) (2 ^ 24)"
    using CheckGround_anywhere [OF assms(1) s1] by blast
  show ?case
  proof (cases "groundHit g")
    case True
    then show ?thesis
      using g s1 hit by (simp add: s1_def [symmetric] Let_def motion_ok_def in_world_def vy_ok_consts)
  next
    case False
    then show ?thesis
      using Suc.IH [OF s1] Suc.prems(2) g by (simp add: s1_def [symmetric] Let_def) (simp add: s1_def)
  qed
qed simp

lemma move_vertical_world:
  assumes "world_ok m" and "dt_short d" and "motion_ok m s"
  shows "\<exists>s'. move_vertical m d ig s = Some s' \<and> motion_ok m s'"
proof (cases "fgt (vecy (vel s)) fzero")
  case True
  define s1 where "s1 = set_py (fadd (vecy (pos s)) (fmul (vecy (vel s)) d)) s"
  have "bnd (fmul (vecy (vel s)) d) 1"
    using assms True by (intro bnd_rise) (simp_all add: motion_ok_def)
  then have s1: "motion_ok m s1"
    using assms(3) bnd_stall by (auto simp: motion_ok_def s1_def in_world_def)
  have "\<exists>c. CheckCeiling m (pos s1) = Some c \<and> (loaded m \<longrightarrow> ceilHit c \<longrightarrow> bnd (fsub (ceilY c) PLAYER_HALF_H) (2 ^ 24))"
    using CheckCeiling_world [OF assms(1), of "pos s1"] s1 bnd_landing(2)
    by (cases "loaded m") (auto simp: motion_ok_def CheckCeiling_def)
  with True s1 show ?thesis
    by (auto simp: move_vertical_def s1_def [symmetric] Let_def motion_ok_def in_world_def vy_ok_consts)
next
  case False
  have vy: "vy_ok (vecy (vel s))" and d: "dt_ok d"
    using assms(2,3) by (simp_all add: motion_ok_def dt_short_ok)
  have "bnd (fmul (vecy (vel s)) d) (15 * 1)"
    using vy_ok_bnd [OF vy] dt_ok_bnd [OF d] by (rule bnd_fmul) simp
  then obtain k where k: "num_steps (ffabs (fmul (vecy (vel s)) d)) = Some k" "1 \<le> k" "k \<le> 240"
    using num_steps_defined [of "ffabs (fmul (vecy (vel s)) d)"] by auto
  have sub: "bnd (fdiv d (int_to_f32 k)) 1"
    using dt_ok_bnd [OF d] k(2,3) by (rule substep_bnd)
  have "bnd (fmul (vecy (vel s)) (fdiv d (int_to_f32 k))) (15 * 1)"
    using vy_ok_bnd [OF vy] sub by (rule bnd_fmul) simp
  moreover have "fval GROUND_THRESHOLD \<le> UNIT"
    by (simp add: const_vals sval_def)
  ultimately have "bnd (fmul (vecy (vel s)) (fdiv d (int_to_f32 k))) 1"
    using substep_within_threshold [OF vy d k(1)] unfolding bnd_def by linarith
  with False k(1) show ?thesis
    using fall_loop_world [OF assms(1,3)] by (simp add: move_vertical_def Let_def)
qed

lemma move_horizontal_world:
  assumes "world_ok m" and "dt_short d" and "motion_ok m s"
  shows "\<exists>s'. move_horizontal m (move_x cmd) d s = Some s' \<and> motion_ok m s'"
proof -
  have "bnd (fmul (move_x cmd) MOVE_SPEED) (1 * 5)"
    by (rule bnd_fmul [OF bnd_move_x bnd_consts(4)]) simp
  then have step: "bnd (fmul (fmul (move_x cmd) MOVE_SPEED) d) 1"
    using assms(2) by (intro bnd_short) (auto elim: bnd_mono)
  define s1 where "s1 = set_px (fadd (vecx (pos s)) (fmul (fmul (move_x cmd) MOVE_SPEED) d)) s"
  have s1: "motion_ok m s1"
    using assms(3) step bnd_stall by (auto simp: motion_ok_def s1_def in_world_def)
  have "\<exists>w. CheckWall m (pos s1) (move_x cmd) = Some w \<and> (loaded m \<longrightarrow> wallHit w \<longrightarrow> bnd (wallX w) (2 ^ 24))"
    using CheckWall_world [OF assms(1), of "pos s1"] s1
    by (cases "loaded m") (auto simp: motion_ok_def CheckWall_def)
  with s1 show ?thesis
    by (auto simp: move_horizontal_def s1_def [symmetric] Let_def motion_ok_def in_world_def)
qed

lemma ground_jump_gravity_world:
  assumes "world_ok m" and "dt_short d" and "motion_ok m s"
  shows "\<exists>s'. ground_jump_gravity m cmd d ig s = Some s' \<and> motion_ok m s'"
proof -
  obtain g where g: "CheckGround m (pos s) (ig \<or> fgt (vecy (vel s)) fzero) = Some g"
    using CheckGround_anywhere [OF assms(1,3)] by blast
  moreover obtain g' where "CheckGround m (pos s) False = Some g'"
    using CheckGround_anywhere [OF assms(1,3)] by blast
  moreover have "motion_ok m (after_ground cmd d (groundHit g) s)"
    using assms(3) after_ground_vy [OF _ dt_short_ok [OF assms(2)]] by (simp add: motion_ok_def)
  ultimately show ?thesis
    by (cases "groundHit g") (simp_all add: ground_jump_gravity_eq)
qed

lemma walk_step_world:
  assumes "world_ok m" and "dt_short dt" and "wf_f32 (deltaTime cmd)" and "motion_ok m s"
  shows "\<exists>s'. walk_step m cmd dt s = Some s' \<and> motion_ok m s'"
proof -
  define d where "d = use_dt cmd dt"
  have d: "dt_short d"
    unfolding d_def using assms(2,3) by (rule use_dt_short)
  define s1 where "s1 = update_direction cmd (move_x cmd) (update_drop_timer cmd d s)"
  define ig where "ig = fgt (dropThroughTimer (update_drop_timer cmd d s)) fzero"
  have "motion_ok m s1"
    using assms(4) by (simp add: s1_def motion_ok_def)
  then obtain s2 where s2: "ground_jump_gravity m cmd d ig s1 = Some s2" "motion_ok m s2"
    using ground_jump_gravity_world [OF assms(1) d] by blast
  then obtain s3 where s3: "move_horizontal m (move_x cmd) d s2 = Some s3" "motion_ok m s3"
    using move_horizontal_world [OF assms(1) d] by blast
  then obtain s4 where s4: "move_vertical m d ig s3 = Some s4" "motion_ok m s4"
    using move_vertical_world [OF assms(1) d] by blast
  have "walk_step m cmd dt s = Some (update_last_seq cmd s4)"
    using s2(1) s3(1) s4(1) by (simp add: walk_step_def Let_def d_def s1_def ig_def)
  with s4(2) show ?thesis
    by (simp add: motion_ok_def)
qed

lemma ladder_climb_world:
  assumes "dt_short d" and "motion_ok m s"
  shows "motion_ok m (snd (ladder_climb cmd d s))"
proof -
  let ?v = "fst (ladder_climb cmd d s)"
  have v: "vy_ok ?v" and v3: "bnd ?v 3"
    using ladder_climb_speed [of cmd d s] by (auto simp: vy_ok_consts bnd_consts)
  have step: "bnd (fmul ?v d) 1"
    using v3 assms(1) by (intro bnd_short) (auto elim: bnd_mono)
  have top: "bnd (fadd (ladderMaxY s) PLAYER_HALF_H) (2 ^ 24)" if "loaded m"
    using assms(2) that by (intro bnd_fadd_le [OF _ bnd_consts(1), of _ "2 ^ 24 - 1"]) (simp_all add: motion_ok_def)
  have "bnd (vecy (pos (snd (ladder_climb cmd d s)))) (2 ^ 24)" if "loaded m"
    using assms(2) that top bnd_stall [OF _ step, of "vecy (pos s)"]
    by (simp add: ladder_climb_def Let_def motion_ok_def in_world_def)
  then show ?thesis
    using assms(2) v by (simp add: motion_ok_def in_world_def)
qed

lemma ladder_step_world:
  assumes "world_ok m" and "dt_short dt" and "wf_f32 (deltaTime cmd)" and "motion_ok m s"
  shows "\<exists>r. ladder_step m cmd dt s = Some r \<and> motion_ok m (flow_state r)"
proof (cases "jump cmd")
  case True
  then show ?thesis
    using assms(4) by (simp add: ladder_step_def Let_def motion_ok_def in_world_def vy_ok_consts)
next
  case False
  define d where "d = use_dt cmd dt"
  have d: "dt_short d"
    unfolding d_def using assms(2,3) by (rule use_dt_short)
  obtain v s1 where c: "ladder_climb cmd d (s\<lparr>isCrouching := False\<rparr>) = (v, s1)"
    by fastforce
  have "motion_ok m (s\<lparr>isCrouching := False\<rparr>)"
    using assms(4) by (simp add: motion_ok_def)
  then have s1: "motion_ok m s1"
    using ladder_climb_world [OF d, of m "s\<lparr>isCrouching := False\<rparr>" cmd] c by simp
  obtain g where g: "CheckGround m (pos s1) True = Some g"
    and hit: "loaded m \<Longrightarrow> groundHit g \<Longrightarrow> bnd (fadd (groundY g) PLAYER_HALF_H) (2 ^ 24)"
    using CheckGround_anywhere [OF assms(1) s1] by blast
  have off: "motion_ok m (set_vx fzero (set_vy fzero (s1\<lparr>isOnLadder := False\<rparr>)))"
    using s1 by (simp add: motion_ok_def in_world_def vy_ok_consts)
  show ?thesis
  proof (cases "flt v fzero \<and> groundHit g")
    case True
    then have "motion_ok m (set_vx fzero (set_vy fzero (set_py (fadd (groundY g) PLAYER_HALF_H)
        (s1\<lparr>isOnLadder := False, isGrounded := True\<rparr>))))"
      using s1 hit by (simp add: motion_ok_def in_world_def vy_ok_consts)
    then show ?thesis
      using True False g by (simp add: ladder_step_def Let_def c d_def [symmetric])
  next
    case no: False
    then show ?thesis
      using False g s1 off by (auto simp: ladder_step_def Let_def c d_def [symmetric])
  qed
qed

lemma SimulatePlayer_world:
  assumes "world_ok m" and "dt_short dt" and "wf_f32 (deltaTime cmd)" and "motion_ok m s"
  shows "\<exists>s'. SimulatePlayer m cmd dt s = Some s' \<and> motion_ok m s'"
proof (cases "isOnLadder s")
  case True
  obtain r where r: "ladder_step m cmd dt s = Some r" "motion_ok m (flow_state r)"
    using ladder_step_world [OF assms] by blast
  then show ?thesis
    using True walk_step_world [OF assms(1-3)] by (cases r) (simp_all add: SimulatePlayer_def)
next
  case False
  then show ?thesis
    using walk_step_world [OF assms] by (simp add: SimulatePlayer_def)
qed

text \<open>Ladder requests that name a place within eight million units.\<close>

definition near_place :: "tilemap \<Rightarrow> f32 \<Rightarrow> f32 \<Rightarrow> bool" where
  "near_place m x y \<longleftrightarrow> (loaded m \<longrightarrow> bnd x (2 ^ 23) \<and> bnd y (2 ^ 23))"

lemma HandleLadderState_world:
  assumes "world_ok m" and "near_place m x y" and "motion_ok m s"
  shows "\<exists>s'. HandleLadderState m on x y velx vely s = Some s' \<and> motion_ok m s'"
proof (cases "on \<and> loaded m")
  case True
  have cs: "cell_size_ok (cellSizeX m)" "cell_size_ok (cellSizeY m)"
    using assms(1) True by (simp_all add: world_ok_def map_ok_def)
  have x: "bnd x (2 ^ 24)" and y: "bnd y (2 ^ 24)"
    using assms(2) True by (auto simp: near_place_def elim: bnd_mono)
  obtain cx where cx: "WorldToCell x (cellSizeX m) = Some cx" "\<bar>cx\<bar> \<le> 2 ^ 27"
    using WorldToCell_far [OF x cs(1)] by blast
  obtain cy where cy: "WorldToCell y (cellSizeY m) = Some cy" "\<bar>cy\<bar> \<le> 2 ^ 27"
    using WorldToCell_far [OF y cs(2)] by blast
  define c where "c = (if \<not> IsLadder m cx cy then cy - 1 else cy)"
  have c: "in_i32 c" "(if \<not> IsLadder m cx cy then i32 (cy - 1) else Some cy) = Some c"
    using far_in_i32 [OF cy(2)] by (simp_all add: c_def i32_def)
  let ?s = "s\<lparr>isOnLadder := True, pos := \<lparr>vecx = x, vecy = y\<rparr>, vel := \<lparr>vecx = fzero, vecy = fzero\<rparr>,
      isGrounded := False, isJumping := False\<rparr>"
  have s: "motion_ok m ?s"
    using assms(3) x y vy_ok_consts(1) by (simp add: motion_ok_def in_world_def)
  show ?thesis
  proof (cases "IsLadder m cx c")
    case True
    then obtain e lo hi where e: "GetLadderExtent m cx c = Some (e, lo, hi)"
      and b: "bnd e (2 ^ 24)" "bnd lo (2 ^ 23)" "bnd hi (2 ^ 23)"
      using GetLadderExtent_world [OF assms(1) _ far_in_i32(1) [OF cx(2)] c(1)] \<open>on \<and> loaded m\<close> by blast
    have "motion_ok m (?s\<lparr>ladderCenterX := e, ladderMinY := lo, ladderMaxY := hi\<rparr>)"
      using s b bnd_mono [of lo "2 ^ 23" "2 ^ 24"] bnd_mono [of hi "2 ^ 23" "2 ^ 24 - 1"] by (simp add: motion_ok_def)
    then show ?thesis
      using \<open>on \<and> loaded m\<close> True cx(1) cy(1) c(2) e by (simp add: HandleLadderState_def Let_def)
  next
    case False
    have "bnd (fsub y (flit 1 2)) (2 ^ 24)" and "bnd (fadd y (flit 10 1)) (2 ^ 24 - 1)"
      using assms(2) \<open>on \<and> loaded m\<close> stall(2) [OF y] bnd_fadd_le [of y "2 ^ 23" "flit 10 1" 10 "2 ^ 24 - 1"]
      by (simp_all add: near_place_def bnd_consts)
    then have "motion_ok m (?s\<lparr>ladderCenterX := x, ladderMinY := fsub y (flit 1 2), ladderMaxY := fadd y (flit 10 1)\<rparr>)"
      using s x by (simp add: motion_ok_def)
    then show ?thesis
      using \<open>on \<and> loaded m\<close> False cx(1) cy(1) c(2) by (simp add: HandleLadderState_def Let_def)
  qed
next
  case False
  then show ?thesis
    using assms(3) vy_ok_consts(1) by (auto simp: HandleLadderState_def Let_def motion_ok_def)
qed

subsection \<open>Properties\<close>

lemma CLIENT_DT_short: "dt_short CLIENT_DT"
  by (simp add: dt_short_def tenth_val const_vals float_eval representable_def cong: eval_cong)

lemma flat_map_world: "world_ok flat_map"
  using flat_map_ok near_key_PackCell [of 0 "-1"] near_key_PackCell [of "-1" "-1"]
  by (simp add: world_ok_def flat_map_def Map_new_def in_i32_def)

lemma falling_motion: "motion_ok flat_map falling"
  by (simp add: motion_ok_def in_world_def falling_def PhysicsState_new_def vy_ok_def bnd_def const_vals float_eval
    representable_def cong: eval_cong)

text \<open>C7: The simulation is closed and total: on any map that did not load, or whose cells measure between 1/8 and 4 units and lie within a million cells of the origin, from any admissible state and for any command at all, a step of at most a tenth of a second (the client's own duration included) is defined, its loops end, and the state after it is admissible again: the vertical speed is between the terminal velocity and the jump speed, and the position has not left the world, however many steps came before.\<close>

theorem simulate_stays_in_world:
  assumes "world_ok m" and "dt_short dt" and "wf_f32 (deltaTime cmd)" and "motion_ok m s"
  shows "\<exists>s'. SimulatePlayer m cmd dt s = Some s' \<and> motion_ok m s'"
  using assms by (rule SimulatePlayer_world)

theorem simulate_stays_in_world_witness:
  "\<exists>s'. SimulatePlayer flat_map (zero_input\<lparr>jump := True\<rparr>) CLIENT_DT falling = Some s' \<and> motion_ok flat_map s'"
  by (rule simulate_stays_in_world [OF flat_map_world CLIENT_DT_short _ falling_motion])
    (simp add: zero_input_def float_eval representable_def)

end
