(* ===== verification/Server.thy ===== *)
theory Server
  imports ServerInv WorldBounds
begin

text \<open>
  The server process (\<open>SimpleServer/ServerMain.cpp\<close>): its start, the steps the environment makes
  it take, and the states it can reach. Every step from a reachable state is defined.
\<close>


subsection \<open>The physics of the running server\<close>

text \<open>
  \<open>main\<close> ignores the result of \<open>LoadMap\<close>: the map may or may not be there. Either way the
  motion invariant of \<open>WorldBounds\<close> makes every step of the room's physics defined.
\<close>

lemma world_phys_safe: "world_ok m \<Longrightarrow> phys_safe m (near_place m) (motion_ok m)"
  using SimulatePlayer_world [OF _ CLIENT_DT_short] HandleLadderState_world by (simp add: phys_safe_def)

subsection \<open>The process\<close>

text \<open>
  What happens to the server: a client is accepted (at a fresh address), an outstanding operation
  completes with an outcome, the game loop makes a round, or \<open>main\<close> shuts everything down.
\<close>

datatype label = Accept "sref option" | Complete nat bool "byte list" | Tick | Shutdown

definition exec :: "os_api \<Rightarrow> proto_api \<Rightarrow> label \<Rightarrow> server \<Rightarrow> server option" where
  "exec os P l w = (case l of
     Accept client \<Rightarrow> accept_round os OnConnected OnDisconnected (ClientSession.fields None) client w
   | Complete i success bytes \<Rightarrow> worker_round os OnDisconnected (HandlePacket os P) i success bytes w
   | Tick \<Rightarrow> game_loop_round os P w
   | Shutdown \<Rightarrow> Stop OnDisconnected (StopGameLoop w))"

definition RECV_POST_SIZE :: nat where "RECV_POST_SIZE = 4096"

text \<open>What the environment can do: allocate a free address, complete what is outstanding.\<close>

definition enabled :: "label \<Rightarrow> server \<Rightarrow> bool" where
  "enabled l w = (case l of
     Accept (Some a) \<Rightarrow> heap w a = None
   | Complete i success bytes \<Rightarrow> 0 < workers w \<and> i < length (pending w)
       \<and> (ioType (snd (pending w ! i)) = RECV \<longrightarrow> length bytes \<le> RECV_POST_SIZE)
   | _ \<Rightarrow> True)"

text \<open>The state \<open>main\<close> starts from, and \<open>main\<close> up to the accept loop.\<close>

definition room_new :: room where
  "room_new = \<lparr>store = (\<lambda>_. None), players = [], tmap = Map_new, serverTick = 0, taskQueue = [],
     loopRunning = False, nextPlayerId = 1, nextRef = 0, handlerRoom = True\<rparr>"

definition server_new :: server where
  "server_new = \<lparr>heap = (\<lambda>_. None), sessions = [], pending = [], calls = 0, events = [], mode = Mode_None,
     running = False, listening = False, iocp_open = False, workers = 0, app = room_new\<rparr>"

definition main_start :: "os_api \<Rightarrow> 'j json_api \<Rightarrow> byte list option \<Rightarrow> (bool \<times> server) option" where
  "main_start os J file =
     (case StartServer os 4 server_new of
        (False, w) \<Rightarrow> Some (False, w)
      | (True, w) \<Rightarrow> do {
          (_, w) \<leftarrow> LoadMap J file w;
          Some (True, StartGameLoop w)
        })"

inductive reachable :: "os_api \<Rightarrow> proto_api \<Rightarrow> server \<Rightarrow> server \<Rightarrow> bool" for os P w0 where
  start: "reachable os P w0 w0"
| step: "reachable os P w0 w \<Longrightarrow> enabled l w \<Longrightarrow> exec os P l w = Some w' \<Longrightarrow> reachable os P w0 w'"

code_pred reachable .

text \<open>A new session sits at a fresh address, whatever the other threads hold.\<close>

lemma accept_ok:
  assumes "safe_at H m L Q P D w" and "enabled (Accept client) w" and "\<And>a. heap w a = None \<Longrightarrow> H a = idle"
  shows "\<exists>w'. exec os P (Accept client) w = Some w' \<and> safe_at H m L Q P D w'
    \<and> (\<forall>t. live w' t \<noteq> None \<longrightarrow> live w t \<noteq> None \<or> heap w t = None)"
proof (cases "client = None \<or> mode w \<noteq> Mode_Server \<or> \<not> running w")
  case True
  then show ?thesis
    using assms(1) by (auto simp: exec_def accept_round_def split: option.split)
next
  case False
  then obtain a where a: "client = Some a" "heap w a = None"
    using assms(2) by (auto simp: enabled_def)
  from connected.CreateAndRegisterSession_ok [of H w m L Q P D a os] assms(1,3) a(2)
  obtain b w' where w': "CreateAndRegisterSession os OnConnected OnDisconnected (ClientSession.fields None) a w = Some (b, w')"
    "safe_at H m L Q P D w'" "only a w w'"
    by (auto simp: safe_at_def)
  then have same: "live w' t = live w t" if "t \<noteq> a" for t
    using that by (simp add: only_def view_def live_def)
  have "live w t \<noteq> None \<or> heap w t = None" if "live w' t \<noteq> None" for t
    using that same [of t] a(2) by (cases "t = a") auto
  with a w'(1,2) False show ?thesis
    by (auto simp: exec_def accept_round_def)
qed

lemma exec_ok:
  assumes "safe m L Q P D w" and "enabled l w"
  shows "\<exists>w'. exec os P l w = Some w' \<and> safe m L Q P D w'"
proof (cases l)
  case (Accept client)
  then show ?thesis
    using accept_ok [OF assms(1), of client os] assms(2) by auto
next
  case (Complete i success bytes)
  then have "net_ok w" "server_inv m L Q P D (live w) (app w)" "i < length (pending w)"
    using assms by (auto simp: enabled_def safe_def)
  from handler.worker_round_ok [OF this] show ?thesis
    using Complete by (auto simp: exec_def safe_def)
next
  case Tick
  then show ?thesis
    using game_loop_round_ok [OF assms(1), of os] by (simp add: exec_def)
next
  case Shutdown
  have "room_inv m L Q D (live w) ((app w)\<lparr>loopRunning := False\<rparr>)"
    by (rule room_invI) (use room_invD [OF safe_room [OF assms(1)]] in auto)
  then have "safe m L Q P D (StopGameLoop w)"
    unfolding StopGameLoop_def using safe_app [OF assms(1)] by blast
  then show ?thesis
    using Shutdown disc.Stop_ok [of "StopGameLoop w" m L Q P D] by (auto simp: exec_def safe_def)
qed

lemma reachable_safe: "reachable os P w0 w \<Longrightarrow> safe m L Q P D w0 \<Longrightarrow> safe m L Q P D w"
proof (induction rule: reachable.induct)
  case (step w l w')
  then show ?case
    using exec_ok [of m L Q P D w l os] by auto
qed

lemma main_start_fresh:
  assumes "main_start os J file = Some (True, w)"
  shows "heap w = (\<lambda>_. None)" and "sessions w = []" and "pending w = []" and "events w = []"
    and "app w = room_new\<lparr>tmap := tmap (app w), loopRunning := True\<rparr>"
proof -
  obtain w1 b m where w1: "StartServer os 4 server_new = (True, w1)" and m: "Load J file (tmap (app w1)) = Some (b, m)"
    and w: "w = w1\<lparr>app := (app w1)\<lparr>tmap := m, loopRunning := True\<rparr>\<rparr>"
    using assms by (auto simp: main_start_def LoadMap_def StartGameLoop_def split: prod.splits bool.splits)
  have "heap w1 = (\<lambda>_. None) \<and> sessions w1 = [] \<and> pending w1 = [] \<and> events w1 = [] \<and> app w1 = room_new"
    using w1 by (auto simp: StartServer_def InitIocpAndWorkers_def server_new_def Let_def split: if_splits prod.splits)
  then show "heap w = (\<lambda>_. None)" and "sessions w = []" and "pending w = []" and "events w = []"
    and "app w = room_new\<lparr>tmap := tmap (app w), loopRunning := True\<rparr>"
    by (simp_all add: w)
qed

lemma start_safe:
  assumes "main_start os J file = Some (True, w)" and "phys_safe (tmap (app w)) L Q" and "proto_ok L P"
  shows "safe (tmap (app w)) L Q P {} w"
proof -
  note fresh = main_start_fresh [OF assms(1)]
  have "net_ok w" and "live w = (\<lambda>_. None)"
    using fresh(1-4) by (simp_all add: net_ok_def view_def ok_def live_def fun_eq_iff)
  moreover have "room_inv (tmap (app w)) L Q {} (\<lambda>_. None) (app w)"
    by (subst (2) fresh(5)) (simp add: room_inv_def room_new_def)
  ultimately show ?thesis
    using assms(2,3) by (simp add: safe_def server_inv_def)
qed

text \<open>The invariant with the motion of \<open>WorldBounds\<close> as its physics.\<close>

abbreviation running_ok :: "proto_api \<Rightarrow> server \<Rightarrow> server \<Rightarrow> bool" where
  "running_ok P w0 \<equiv> safe (tmap (app w0)) (near_place (tmap (app w0))) (motion_ok (tmap (app w0))) P {}"

lemma reachable_running:
  assumes "main_start os J file = Some (True, w0)" and "world_ok (tmap (app w0))"
    and "proto_ok (near_place (tmap (app w0))) P" and "reachable os P w0 w"
  shows "running_ok P w0 w"
  by (rule reachable_safe [OF assms(4) start_safe [OF assms(1) world_phys_safe [OF assms(2)] assms(3)]])

subsection \<open>Properties\<close>

text \<open>An operating system that grants everything, and a server on it without a map.\<close>

definition demo_os :: os_api where
  "demo_os = \<lparr>send_ok = \<lambda>_. True, recv_ok = \<lambda>_. True, assoc_ok = \<lambda>_. True, socket_ok = True,
     bind_ok = True, listen_ok = True, connect_ok = True, iocp_ok = True, thread_ok = \<lambda>_. True,
     clock = \<lambda>_. 0\<rparr>"

definition demo_server :: server where
  "demo_server = StartGameLoop (snd (StartServer demo_os 4 server_new))"

lemma demo_start: "main_start demo_os demo_json None = Some (True, demo_server)"
  by (simp add: main_start_def demo_server_def StartServer_def InitIocpAndWorkers_def demo_os_def server_new_def
      LoadMap_def Load_def numeral_eq_Suc)

lemma demo_app: "app demo_server = room_new\<lparr>loopRunning := True\<rparr>" "heap demo_server = (\<lambda>_. None)"
    "pending demo_server = []" "sessions demo_server = []" "running demo_server" "mode demo_server = Mode_Server"
  by (simp_all add: demo_server_def StartServer_def InitIocpAndWorkers_def demo_os_def server_new_def
      StartGameLoop_def numeral_eq_Suc)

lemma demo_phys: "world_ok (tmap (app demo_server))"
  by (simp add: demo_app room_new_def Map_new_def world_ok_def map_ok_def)

lemma demo_proto_ok: "proto_ok L demo_proto"
  by (simp add: proto_ok_def demo_proto_def)

text \<open>The state after the first client was accepted.\<close>

lemma demo_accept:
  "exec demo_os demo_proto (Accept (Some 5)) demo_server = Some (snd (the
     (CreateAndRegisterSession demo_os OnConnected OnDisconnected (ClientSession.fields None) 5 demo_server)))"
  by (simp add: exec_def accept_round_def demo_app CreateAndRegisterSession_def demo_os_def Start_def OnConnected_def
      put_player_def on_session_def PostTask_def PostRecv_def AddRef_def emit_def AddSession_def Session_new_def Let_def)

definition demo_world :: server where
  "demo_world = the (exec demo_os demo_proto (Accept (Some 5)) demo_server)"

lemma demo_reachable: "reachable demo_os demo_proto demo_server demo_world"
  by (rule reachable.step [OF reachable.start, of "Accept (Some 5)"])
    (simp_all add: demo_world_def demo_accept enabled_def demo_app)

text \<open>The same state, computed.\<close>

definition demo_player :: Player where
  "demo_player = SetSession (Some 5) (Player_new 1 '''')"

definition demo_session :: "unit ClientSession_ext Session_scheme" where
  "demo_session = Session_new (ClientSession.fields (Some 0))\<lparr>refCount := 2\<rparr>"

lemma demo_world_simps:
  "heap demo_world = [5 \<mapsto> demo_session]"
  "pending demo_world = [(5, \<lparr>ioType = RECV, ioBuffer = None\<rparr>)]"
  "events demo_world = [Connected 5]"
  "store (app demo_world) = [0 \<mapsto> demo_player]"
  by (simp_all add: demo_world_def exec_def accept_round_def demo_app CreateAndRegisterSession_def demo_os_def Start_def
      OnConnected_def put_player_def on_session_def PostTask_def PostRecv_def AddRef_def emit_def AddSession_def
      Session_new_def Let_def demo_session_def demo_player_def ClientSession.fields_def room_new_def demo_server_def
      StartServer_def InitIocpAndWorkers_def server_new_def StartGameLoop_def numeral_eq_Suc)

lemma demo_net_ok: "net_ok demo_world" and demo_live: "live demo_world 5 \<noteq> None"
  using reachable_running [OF demo_start demo_phys demo_proto_ok demo_reachable]
  by (simp_all add: safe_def live_def demo_world_simps demo_session_def Session_new_def)

text \<open>The same server on a map with one solid cell.\<close>

definition demo_loaded :: server where
  "demo_loaded = snd (the (main_start demo_os demo_json (Some [])))"

lemma demo_loaded_start: "main_start demo_os demo_json (Some []) = Some (True, demo_loaded)"
  and demo_loaded_map: "tmap (app demo_loaded) = Map_new\<lparr>solid := {PackCell 3 (-1)}, loaded := True\<rparr>"
  by (simp_all add: demo_loaded_def main_start_def StartServer_def InitIocpAndWorkers_def demo_os_def server_new_def
      LoadMap_def Load_def load_layer_def load_cell_size_def demo_json_def Map_new_def room_new_def StartGameLoop_def
      Let_def numeral_eq_Suc)

lemma demo_loaded_world: "world_ok (tmap (app demo_loaded))"
  using near_key_PackCell [of 3 "-1"]
  by (simp add: demo_loaded_map world_ok_def map_ok_def cell_size_ok_def Map_new_def const_vals float_eval
      representable_def in_i32_def cong: eval_cong)

text \<open>The same for whole rounds of the game loop: with a round as one step of \<open>exec\<close>, every step from a reachable state is defined.\<close>

theorem server_never_undefined:
  assumes "main_start os J file = Some (True, w0)" and "world_ok (tmap (app w0))"
    and "proto_ok (near_place (tmap (app w0))) P" and "reachable os P w0 w" and "enabled l w"
  shows "\<exists>w'. exec os P l w = Some w'"
  using exec_ok [OF reachable_running [OF assms(1-4)] assms(5)] by blast

theorem server_never_undefined_witness:
  "loaded (tmap (app demo_loaded)) \<and> (\<exists>w1 w2. exec demo_os demo_proto (Accept (Some 5)) demo_loaded = Some w1
     \<and> exec demo_os demo_proto Tick w1 = Some w2)"
proof -
  note never = server_never_undefined [OF demo_loaded_start demo_loaded_world demo_proto_ok]
  have new: "enabled (Accept (Some 5)) demo_loaded"
    by (simp add: enabled_def demo_loaded_def main_start_def StartServer_def InitIocpAndWorkers_def demo_os_def
        server_new_def LoadMap_def Load_def load_layer_def load_cell_size_def demo_json_def StartGameLoop_def
        Let_def numeral_eq_Suc)
  then obtain w1 where w1: "exec demo_os demo_proto (Accept (Some 5)) demo_loaded = Some w1"
    using never [OF reachable.start] by blast
  have "enabled Tick w1"
    by (simp add: enabled_def)
  then obtain w2 where "exec demo_os demo_proto Tick w1 = Some w2"
    using never [OF reachable.step [OF reachable.start new w1]] by blast
  with w1 show ?thesis
    by (auto simp: demo_loaded_map)
qed

lemma demo_send:
  "\<exists>w. EnqueueSend demo_os OnDisconnected 5 (Some (buffer_of [1])) demo_world = Some w \<and> live w 5 \<noteq> None
     \<and> pending w ! 1 = (5, \<lparr>ioType = SEND, ioBuffer = Some (buffer_of [1])\<rparr>) \<and> 1 < length (pending w)"
  by (simp add: EnqueueSend_def PostSendFront_NoLock_def AddRef_def on_session_def demo_world_simps demo_session_def
      Session_new_def MAX_SEND_QUEUE_SIZE_def demo_os_def emit_def live_def Let_def)

text \<open>C31: Sends are first in, first out: a buffer enqueued on an open session, if the session is still open afterwards, joins the end of the list of accepted buffers (those handed to the kernel, in order, then those that wait); none is lost, repeated or overtaken.\<close>

theorem sends_in_order:
  assumes "held_ok H w" and "live w s \<noteq> None" and "0 < writeSize sb"
    and "EnqueueSend os OnDisconnected s (Some sb) w = Some w'" and "live w' s \<noteq> None"
  shows "accepted s w' = accepted s w @ [sb]"
proof -
  obtain h f r where "ok h f r (view s w)"
    using held_ok_view [OF assms(1), of s] by (cases "H s") auto
  from EnqueueSend_accepted [OF assms(4) this assms(2,3,5)] OnDisconnected_heap show ?thesis
    by blast
qed

theorem sends_in_order_witness:
  "\<exists>w. EnqueueSend demo_os OnDisconnected 5 (Some (buffer_of [1])) demo_world = Some w \<and> accepted 5 w = [buffer_of [1]]"
proof -
  obtain w where w: "EnqueueSend demo_os OnDisconnected 5 (Some (buffer_of [1])) demo_world = Some w" "live w 5 \<noteq> None"
    using demo_send by blast
  have "accepted 5 demo_world = []"
    by (simp add: accepted_def demo_world_simps demo_session_def Session_new_def)
  with sends_in_order [OF demo_net_ok [unfolded net_ok_held] demo_live _ w] w(1) show ?thesis
    by simp
qed

text \<open>C32: Completing a send hands over the next buffer and nothing else: when the send of a session completes and the session is still open after the worker's round, the list of accepted buffers is what it was, so each waits behind exactly the buffers accepted before it and is sent once.\<close>

theorem send_completion_keeps_order:
  assumes "net_ok w" and "i < length (pending w)" and "pending w ! i = (s, c)" and "ioType c = SEND"
    and "live w s \<noteq> None" and "bytes \<noteq> []"
    and "worker_round os OnDisconnected hp i True bytes w = Some w'" and "live w' s \<noteq> None"
  shows "accepted s w' = accepted s w"
proof -
  define w1 where "w1 = w\<lparr>pending := take i (pending w) @ drop (Suc i) (pending w)\<rparr>"
  note t = take_completion [OF assms(1-3), folded w1_def]
  have ok1: "ok 1 True False (view s w1)"
    using t(2) assms(4) by simp
  obtain w2 where w2: "OnSendComplete os OnDisconnected s w1 = Some w2" "Release s w2 = Some w'"
    using assms(3,4,6,7) by (auto simp: worker_round_def w1_def [symmetric] Let_def)
  obtain x2 where x2: "heap w2 s = Some x2"
    using w2(2) by (auto simp: Release_def)
  have rel: "heap w' s = (if refCount x2 = 1 then None else Some (x2\<lparr>refCount := refCount x2 - 1\<rparr>))"
      "refCount x2 \<noteq> 1 \<Longrightarrow> events w' = events w2"
    using w2(2) x2 by (auto simp: Release_def on_session_def emit_def split: if_splits)
  then have ref: "refCount x2 \<noteq> 1" "\<not> closing x2"
    using assms(8) by (auto simp: live_def split: if_splits)
  have "accepted s w' = accepted s w2"
    using rel ref x2 by (simp add: accepted_def)
  also have "\<dots> = accepted s w1"
    using OnSendComplete_accepted [OF w2(1) ok1 _ _ OnDisconnected_heap] t(4) assms(5) x2 ref(2) by (simp add: live_def)
  also have "\<dots> = accepted s w"
    by (simp add: accepted_def w1_def)
  finally show ?thesis .
qed

theorem send_completion_keeps_order_witness:
  "\<exists>w w'. worker_round demo_os OnDisconnected (HandlePacket demo_os demo_proto) 1 True [0] w = Some w'
     \<and> accepted 5 w' = accepted 5 w"
proof -
  obtain w where w: "EnqueueSend demo_os OnDisconnected 5 (Some (buffer_of [1])) demo_world = Some w" "live w 5 \<noteq> None"
      "pending w ! 1 = (5, \<lparr>ioType = SEND, ioBuffer = Some (buffer_of [1])\<rparr>)" "1 < length (pending w)"
    using demo_send by blast
  have safe: "running_ok demo_proto demo_server demo_world"
    by (rule reachable_running [OF demo_start demo_phys demo_proto_ok demo_reachable])
  have "heap demo_world 5 \<noteq> None"
    by (simp add: demo_world_simps)
  with disc.EnqueueSend_net_ok [of demo_world _ _ _ _ _ 5 demo_os "Some (buffer_of [1])"] safe w(1)
  have "net_ok w"
    by (auto simp: safe_def)
  moreover obtain w' where w': "worker_round demo_os OnDisconnected (HandlePacket demo_os demo_proto) 1 True [0] w = Some w'"
      "live w' 5 \<noteq> None"
    using w(1)
    by (auto simp: EnqueueSend_def PostSendFront_NoLock_def AddRef_def on_session_def demo_world_simps demo_session_def
      Session_new_def MAX_SEND_QUEUE_SIZE_def demo_os_def emit_def live_def Let_def worker_round_def OnSendComplete_def
      Release_def)
  ultimately have "accepted 5 w' = accepted 5 w"
    using send_completion_keeps_order [OF _ w(4,3) _ w(2) _ w'] by simp
  then show ?thesis
    using w'(1) by blast
qed

end
