(* ===== verification/RoomInvariants.thy ===== *)
theory RoomInvariants
  imports Effects Server
begin

text \<open>
  Invariants of the room alone: a predicate on the room that the two callbacks, the posting of
  requests and inputs, the queue and the tick keep holds in every state the server reaches.
\<close>

locale room_invariant =
  fixes I :: "room \<Rightarrow> bool"
  assumes connect_I: "OnConnected s w = Some w' \<Longrightarrow> I (app w) \<Longrightarrow> I (app w')"
    and disconnect_I: "OnDisconnected s w = Some w' \<Longrightarrow> I (app w) \<Longrightarrow> I (app w')"
    and request_I: "request t \<Longrightarrow> I r \<Longrightarrow> I (r\<lparr>taskQueue := taskQueue r @ [t]\<rparr>)"
    and input_I: "store r p = Some pl \<Longrightarrow> I r \<Longrightarrow> I (r\<lparr>store := (store r)(p \<mapsto> EnqueueInput cmd pl)\<rparr>)"
    and drain_I: "DrainTasks os P w = Some w' \<Longrightarrow> I (app w) \<Longrightarrow> I (app w')"
    and tick_I: "TickAll os P w = Some w' \<Longrightarrow> I (app w) \<Longrightarrow> I (app w')"
    and loop_I: "I r \<Longrightarrow> I (r\<lparr>loopRunning := b\<rparr>)"
begin

sublocale disconnects: callback_effect OnDisconnected "\<lambda>w w'. I (app w) \<longrightarrow> I (app w')"
  by unfold_locales (auto simp: untouched_def dest: disconnect_I)

sublocale connects: connect_effect OnDisconnected "\<lambda>w w'. I (app w) \<longrightarrow> I (app w')" OnConnected "ClientSession.fields None"
  by unfold_locales (auto dest: connect_I)

lemma PostTask_I: "request t \<Longrightarrow> I (app w) \<Longrightarrow> I (app (PostTask t w))"
  by (simp add: PostTask_def request_I)

lemma HandlePacket_I:
  assumes "HandlePacket os P s pkt w = Some (b, w')" and "I (app w)"
  shows "I (app w')"
  using assms(1)
  by (rule HandlePacket_effect)
    (use assms(2) in \<open>auto simp: PostTask_I put_player_def input_I dest: disconnects.EnqueueSend_packet_R\<close>)

sublocale handles: handler_effect OnDisconnected "\<lambda>w w'. I (app w) \<longrightarrow> I (app w')" "HandlePacket os P" for os P
  by unfold_locales (auto simp: on_session_def dest: HandlePacket_I split: option.splits)

lemma exec_I:
  assumes "exec os P l w = Some w'" and "I (app w)"
  shows "I (app w')"
proof (cases l)
  case (Accept client)
  then show ?thesis
    using assms connects.accept_round_R by (fastforce simp: exec_def)
next
  case (Complete i success bytes)
  then show ?thesis
    using assms handles.worker_round_R by (fastforce simp: exec_def)
next
  case Tick
  then show ?thesis
    using assms by (auto simp: exec_def game_loop_round_def dest!: drain_I tick_I split: if_splits bind_splits)
next
  case Shutdown
  let ?w0 = "StopGameLoop w"
  have I0: "I (app ?w0)"
    using assms(2) by (simp add: StopGameLoop_def loop_I)
  show ?thesis
  proof (cases "running ?w0")
    case False
    then show ?thesis
      using assms Shutdown I0 by (simp add: exec_def Stop_def)
  next
    case True
    let ?w1 = "?w0\<lparr>running := False, listening := False\<rparr>"
    obtain w2 where w2: "for_each (Close OnDisconnected) (sessions ?w1) ?w1 = Some w2" and "app w' = app w2"
      using assms Shutdown True by (auto simp: exec_def Stop_def Let_def split: bind_splits)
    then show ?thesis
      using disconnects.for_each_R [OF w2] disconnects.Close_R I0 by fastforce
  qed
qed

lemma reachable_I: "reachable os P w0 w \<Longrightarrow> I (app w0) \<Longrightarrow> I (app w)"
  by (induction rule: reachable.induct) (auto dest: exec_I)

end

end
