(* ===== verification/RoomTick.thy ===== *)
theory RoomTick imports Effects Server begin

text \<open>
  What a round of the game loop does to the players: sending leaves everything but session pointers
  and the task queue alone, so the tick simulates each entered player of the table exactly once.
\<close>

subsection \<open>What sending does to the room\<close>

text \<open>
  In the room, a disconnect clears the session pointer of players and queues departures; all
  else stays.
\<close>

definition session_cleared :: "Player option \<Rightarrow> Player option \<Rightarrow> bool" where
  "session_cleared a b \<longleftrightarrow> b = a \<or> (\<exists>pl. a = Some pl \<and> b = Some (SetSession None pl))"

definition room_frame :: "room \<Rightarrow> room \<Rightarrow> bool" where
  "room_frame r r' \<longleftrightarrow> players r' = players r \<and> tmap r' = tmap r \<and> serverTick r' = serverTick r
     \<and> loopRunning r' = loopRunning r \<and> nextPlayerId r' = nextPlayerId r \<and> nextRef r' = nextRef r
     \<and> handlerRoom r' = handlerRoom r
     \<and> (\<exists>ids. taskQueue r' = taskQueue r @ map Task_Leave ids)
     \<and> (\<forall>p. session_cleared (store r p) (store r' p))"

lemma session_cleared_refl [simp]: "session_cleared a a"
  by (simp add: session_cleared_def)

lemma session_cleared_trans: "session_cleared a b \<Longrightarrow> session_cleared b c \<Longrightarrow> session_cleared a c"
  by (auto simp: session_cleared_def SetSession_def)

lemma room_frame_refl: "room_frame r r"
  by (auto simp: room_frame_def intro: exI [of _ "[]"])

lemma room_frame_trans:
  assumes "room_frame a b" and "room_frame b c"
  shows "room_frame a c"
proof -
  obtain i j where "taskQueue b = taskQueue a @ map Task_Leave i" "taskQueue c = taskQueue b @ map Task_Leave j"
    using assms by (auto simp: room_frame_def)
  then have "\<exists>ids. taskQueue c = taskQueue a @ map Task_Leave ids"
    by (intro exI [of _ "i @ j"]) simp
  then show ?thesis
    using assms unfolding room_frame_def by (metis session_cleared_trans)
qed

lemma OnDisconnected_frame: "OnDisconnected s w = Some w' \<Longrightarrow> room_frame (app w) (app w')"
proof -
  assume a: "OnDisconnected s w = Some w'"
  then obtain x where x: "heap w s = Some x"
    by (auto simp: OnDisconnected_def)
  show ?thesis
  proof (cases "csPlayer x")
    case None
    then show ?thesis
      using a x room_frame_refl by (simp add: OnDisconnected_def)
  next
    case (Some p)
    then obtain pl where "store (app w) p = Some pl"
      and "w' = PostTask (Task_Leave (playerId pl)) (put_player p (SetSession None pl) w)"
      using a x by (auto simp: OnDisconnected_def)
    then show ?thesis
      by (auto simp: room_frame_def PostTask_def put_player_def session_cleared_def intro: exI [of _ "[playerId pl]"])
  qed
qed

interpretation sending: callback_effect OnDisconnected "\<lambda>w w'. room_frame (app w) (app w')"
  by unfold_locales (auto simp: untouched_def room_frame_refl intro: room_frame_trans OnDisconnected_frame)

lemma RoomSend_frame: "RoomSend os p buf w = Some w' \<Longrightarrow> room_frame (app w) (app w')"
  by (auto simp: RoomSend_def room_frame_refl dest: sending.EnqueueSend_R split: option.splits)

lemma RoomBroadcast_frame: "RoomBroadcast os buf except w = Some w' \<Longrightarrow> room_frame (app w) (app w')"
  unfolding RoomBroadcast_def
  by (erule sending.for_each_R) (auto simp: room_frame_refl dest: RoomSend_frame split: if_splits)

lemma room_frameD:
  assumes "room_frame r r'"
  shows "players r' = players r" and "tmap r' = tmap r" and "serverTick r' = serverTick r"
    and "store r p = Some pl \<Longrightarrow> \<exists>ss. store r' p = Some (pl\<lparr>session := ss\<rparr>)"
proof -
  show "players r' = players r" and "tmap r' = tmap r" and "serverTick r' = serverTick r"
    using assms by (simp_all add: room_frame_def)
  show "\<exists>ss. store r' p = Some (pl\<lparr>session := ss\<rparr>)" if st: "store r p = Some pl"
  proof -
    from assms have "session_cleared (store r p) (store r' p)"
      by (simp add: room_frame_def)
    then consider "store r' p = Some pl" | "store r' p = Some (SetSession None pl)"
      using st by (auto simp: session_cleared_def)
    then show ?thesis
    proof cases
      case 1
      then have "store r' p = Some (pl\<lparr>session := session pl\<rparr>)" by simp
      then show ?thesis ..
    qed (auto simp: SetSession_def)
  qed
qed

text \<open>Entering names the player; the rest of it is sending.\<close>

lemma EnterGame_frame:
  assumes "EnterGame os P p nm w = Some w'"
  shows "w' = w \<or> (\<exists>pl. store (app w) p = Some pl \<and> \<not> entered pl \<and> nm \<noteq> [] \<and> length nm \<le> 20
    \<and> room_frame (app (put_player p (SetName nm pl) w)) (app w'))"
proof (cases "nm = [] \<or> length nm > 20")
  case True
  then show ?thesis
    using assms by (auto simp: EnterGame_def)
next
  case False
  obtain pl where pl: "store (app w) p = Some pl"
    using assms(1) False by (auto simp: EnterGame_def split: bind_splits)
  show ?thesis
  proof (cases "entered pl")
    case True
    then show ?thesis
      using assms pl False by (auto simp: EnterGame_def)
  next
    case new: False
    let ?w0 = "put_player p (SetName nm pl) w"
    obtain b1 w1 b2 w2 b3 others where w1: "RoomSend os p b1 ?w0 = Some w1"
      and w2: "RoomSend os p b2 w1 = Some w2" and w3: "for_each (\<lambda>q w. RoomSend os q b3 w) others w2 = Some w'"
      using assms(1) False pl new by (auto simp: EnterGame_def Let_def split: bind_splits)
    have "room_frame (app w2) (app w')"
      by (rule sending.for_each_R [OF w3]) (rule RoomSend_frame)
    then have "room_frame (app ?w0) (app w')"
      using room_frame_trans RoomSend_frame [OF w1] RoomSend_frame [OF w2] by blast
    then show ?thesis
      using pl new False by auto
  qed
qed

subsection \<open>The tick simulates each entered player once\<close>

lemma simulate_session [simp]:
  "HasInput (pl\<lparr>session := ss\<rparr>) = HasInput pl" "DequeueInput (pl\<lparr>session := ss\<rparr>) = apsnd (\<lambda>q. q\<lparr>session := ss\<rparr>) (DequeueInput pl)"
  by (auto simp: HasInput_def DequeueInput_def split: list.split)

lemma phys_session_swap:
  "(pl :: Player)\<lparr>session := ss, physState := st\<rparr> = pl\<lparr>physState := st, session := ss\<rparr>"
  by simp

lemma run_inputs_session:
  "run_inputs m n (pl\<lparr>session := ss\<rparr>) = map_option (apsnd (\<lambda>q. q\<lparr>session := ss\<rparr>)) (run_inputs m n pl)"
proof (induction n arbitrary: pl)
  case (Suc n)
  obtain cmd q where d: "DequeueInput pl = (cmd, q)"
    by fastforce
  have "map_option (apsnd f) r \<bind> (\<lambda>(steps, pl). Some (Suc steps, pl))
      = map_option (apsnd f) (r \<bind> (\<lambda>(steps, pl). Some (Suc steps, pl)))"
    for f :: "Player \<Rightarrow> Player" and r :: "(nat \<times> Player) option"
    by (cases r) auto
  then show ?case
    by (cases "SimulatePlayer m cmd CLIENT_DT (physState q)")
      (auto simp: d phys_session_swap Suc.IH)
qed simp

lemma run_idle_session:
  "run_idle m n (pl\<lparr>session := ss\<rparr>) = map_option (\<lambda>q. q\<lparr>session := ss\<rparr>) (run_idle m n pl)"
proof (induction n arbitrary: pl)
  case (Suc n)
  show ?case
    by (cases "SimulatePlayer m zero_input CLIENT_DT (physState pl)") (simp_all add: phys_session_swap Suc.IH)
qed simp

lemma simulate_tick_session:
  "simulate_tick m (pl\<lparr>session := ss\<rparr>) = map_option (\<lambda>q. q\<lparr>session := ss\<rparr>) (simulate_tick m pl)"
  by (cases "run_inputs m MAX_STEPS_PER_TICK pl")
    (auto simp: simulate_tick_def run_inputs_session run_idle_session)

definition ticked :: "tilemap \<Rightarrow> bool \<Rightarrow> Player \<Rightarrow> Player \<Rightarrow> bool" where
  "ticked m sim pl pl' \<longleftrightarrow> (\<exists>ss q. pl' = q\<lparr>session := ss\<rparr> \<and> (if sim \<and> entered pl then simulate_tick m pl = Some q else q = pl))"

lemma tick_player_effect:
  assumes "tick_player os P p w = Some w'"
  shows "players (app w') = players (app w) \<and> tmap (app w') = tmap (app w) \<and> serverTick (app w') = serverTick (app w)
    \<and> (\<forall>q ql. store (app w) q = Some ql \<longrightarrow>
         (\<exists>ql'. store (app w') q = Some ql' \<and> ticked (tmap (app w)) (q = p) ql ql'))"
proof -
  obtain pl where pl: "store (app w) p = Some pl"
    using assms by (auto simp: tick_player_def)
  show ?thesis
  proof (cases "entered pl")
    case False
    then have "w' = w"
      using assms pl by (simp add: tick_player_def)
    moreover have "ticked (tmap (app w)) (q = p) ql ql" if "store (app w) q = Some ql" for q ql
    proof -
      have "ql = ql\<lparr>session := session ql\<rparr>" by simp
      then show ?thesis
        using that pl False unfolding ticked_def by (metis option.inject)
    qed
    ultimately show ?thesis by blast
  next
    case True
    then obtain pl1 b1 b2 w2 where pl1: "simulate_tick (tmap (app w)) pl = Some pl1"
      and w2: "RoomSend os p b1 (put_player p pl1 w) = Some w2" and w': "RoomBroadcast os b2 (Some p) w2 = Some w'"
      using assms pl by (auto simp: tick_player_def Let_def)
    have frame: "room_frame (app (put_player p pl1 w)) (app w')"
      using room_frame_trans [OF RoomSend_frame [OF w2] RoomBroadcast_frame [OF w']] .
    have "\<exists>ql'. store (app w') q = Some ql' \<and> ticked (tmap (app w)) (q = p) ql ql'" if q: "store (app w) q = Some ql" for q ql
    proof (cases "q = p")
      case True
      then show ?thesis
        using room_frameD(4) [OF frame, of p pl1] pl pl1 q \<open>entered pl\<close> by (auto simp: put_player_def ticked_def)
    next
      case False
      then show ?thesis
        using room_frameD(4) [OF frame, of q ql] q by (auto simp: put_player_def ticked_def)
    qed
    then show ?thesis
      using room_frameD(1-3) [OF frame] by (simp add: put_player_def)
  qed
qed

lemma ticked_trans:
  assumes "ticked m a pl pl'" and "ticked m b pl' pl''" and "\<not> (a \<and> b)"
  shows "ticked m (a \<or> b) pl pl''"
proof -
  obtain ss q ss' q' where 1: "pl' = q\<lparr>session := ss\<rparr>" "if a \<and> entered pl then simulate_tick m pl = Some q else q = pl"
    and 2: "pl'' = q'\<lparr>session := ss'\<rparr>" "if b \<and> entered pl' then simulate_tick m pl' = Some q' else q' = pl'"
    using assms(1,2) unfolding ticked_def by blast
  show ?thesis
  proof (cases "b \<and> entered pl'")
    case True
    then have q: "q = pl" "entered pl"
      using assms(3) 1 by auto
    have "map_option (\<lambda>r. r\<lparr>session := ss\<rparr>) (simulate_tick m pl) = Some q'"
      using 2(2) True 1(1) q(1) simulate_tick_session [of m ss pl] by simp
    then obtain r where "simulate_tick m pl = Some r" "q' = r\<lparr>session := ss\<rparr>"
      by auto
    then show ?thesis
      using 2(1) q(2) True unfolding ticked_def by auto
  next
    case False
    then have "pl'' = q\<lparr>session := ss'\<rparr>" "\<not> b \<or> \<not> entered pl \<or> a"
      using 1 2 by (auto split: if_splits)
    then show ?thesis
      using 1(2) unfolding ticked_def by (auto split: if_splits)
  qed
qed

lemma tick_players_effect:
  assumes "for_each (tick_player os P) ps w = Some w'" and "distinct ps"
  shows "players (app w') = players (app w) \<and> tmap (app w') = tmap (app w) \<and> serverTick (app w') = serverTick (app w)
    \<and> (\<forall>q ql. store (app w) q = Some ql \<longrightarrow>
         (\<exists>ql'. store (app w') q = Some ql' \<and> ticked (tmap (app w)) (q \<in> set ps) ql ql'))"
  using assms
proof (induction ps arbitrary: w)
  case Nil
  have "ticked m False ql ql" for m ql
    unfolding ticked_def by (rule exI [of _ "session ql"], rule exI [of _ ql]) simp
  with Nil show ?case by simp
next
  case (Cons p ps)
  then obtain w1 where w1: "tick_player os P p w = Some w1" and rest: "for_each (tick_player os P) ps w1 = Some w'"
    by auto
  note e1 = tick_player_effect [OF w1]
  have e2: "players (app w') = players (app w1) \<and> tmap (app w') = tmap (app w1) \<and> serverTick (app w') = serverTick (app w1)
    \<and> (\<forall>q ql. store (app w1) q = Some ql \<longrightarrow>
         (\<exists>ql'. store (app w') q = Some ql' \<and> ticked (tmap (app w1)) (q \<in> set ps) ql ql'))"
    using Cons.IH [OF rest] Cons.prems(2) by simp
  have "\<exists>ql'. store (app w') q = Some ql' \<and> ticked (tmap (app w)) (q \<in> set (p # ps)) ql ql'"
    if q: "store (app w) q = Some ql" for q ql
  proof -
    obtain q1 where q1: "store (app w1) q = Some q1" "ticked (tmap (app w)) (q = p) ql q1"
      using e1 q by blast
    then obtain q2 where q2: "store (app w') q = Some q2" "ticked (tmap (app w)) (q \<in> set ps) q1 q2"
      using e1 e2 by metis
    show ?thesis
      using ticked_trans [OF q1(2) q2(2)] q2(1) Cons.prems(2) by auto
  qed
  then show ?case
    using e1 e2 by simp
qed

subsection \<open>The inputs of a tick\<close>

text \<open>The steps of a list of commands, in order.\<close>

definition sim_cmds :: "tilemap \<Rightarrow> InputCmd list \<Rightarrow> PhysicsState \<Rightarrow> PhysicsState option" where
  "sim_cmds m cmds st = for_each (\<lambda>cmd. SimulatePlayer m cmd CLIENT_DT) cmds st"

lemma run_inputs_spec:
  "run_inputs m n pl = map_option
     (\<lambda>st. (min n (length (inputBuffer pl)), pl\<lparr>physState := st, inputBuffer := drop n (inputBuffer pl)\<rparr>))
     (sim_cmds m (take n (inputBuffer pl)) (physState pl))"
proof (induction n arbitrary: pl)
  case (Suc n)
  show ?case
  proof (cases "inputBuffer pl")
    case Nil
    then show ?thesis
      by (simp add: HasInput_def sim_cmds_def)
  next
    case (Cons cmd rest)
    show ?thesis
    proof (cases "SimulatePlayer m cmd CLIENT_DT (physState pl)")
      case None
      then show ?thesis
        using Cons by (simp add: HasInput_def DequeueInput_def sim_cmds_def)
    next
      case (Some st)
      have swap: "pl\<lparr>inputBuffer := rest, physState := st\<rparr> = pl\<lparr>physState := st, inputBuffer := rest\<rparr>"
        by simp
      show ?thesis
        using Some Cons Suc.IH [of "pl\<lparr>physState := st, inputBuffer := rest\<rparr>"]
        by (cases "sim_cmds m (take n rest) st") (simp_all add: HasInput_def DequeueInput_def sim_cmds_def swap)
    qed
  qed
qed (simp add: sim_cmds_def)

lemma run_idle_spec:
  "run_idle m n pl = map_option (\<lambda>st. pl\<lparr>physState := st\<rparr>) (sim_cmds m (replicate n zero_input) (physState pl))"
proof (induction n arbitrary: pl)
  case (Suc n)
  show ?case
    by (cases "SimulatePlayer m zero_input CLIENT_DT (physState pl)") (simp_all add: Suc.IH sim_cmds_def)
qed (simp add: sim_cmds_def)

lemma simulate_tick_buffer:
  "simulate_tick m pl = Some pl' \<Longrightarrow> inputBuffer pl' = drop MAX_STEPS_PER_TICK (inputBuffer pl)"
  by (cases "inputBuffer pl")
    (auto simp: simulate_tick_def run_inputs_spec run_idle_spec MAX_STEPS_PER_TICK_def split: if_splits)

subsection \<open>Rounds of the tick\<close>

lemma distinct_snd:
  assumes "distinct (map fst xs)" and "\<And>a a' b. (a, b) \<in> set xs \<Longrightarrow> (a', b) \<in> set xs \<Longrightarrow> a = a'"
  shows "distinct (map snd xs)"
  using assms
proof (induction xs)
  case (Cons x xs)
  have "distinct (map snd xs)"
    using Cons.prems by (intro Cons.IH) auto
  moreover have "snd x \<notin> snd ` set xs"
  proof
    assume "snd x \<in> snd ` set xs"
    then obtain y where y: "y \<in> set xs" "snd y = snd x"
      by auto
    then have "fst x = fst y"
      using Cons.prems(2) [of "fst x" "snd x" "fst y"] by (metis list.set_intros prod.collapse)
    then show False
      using Cons.prems(1) y by auto
  qed
  ultimately show ?case by simp
qed simp

lemma room_inv_distinct: "room_inv m L Q D lv r \<Longrightarrow> distinct (map snd (players r))"
  using room_invD(6,7) [of m L Q D lv r] by (intro distinct_snd) (blast, metis option.inject)

lemma TickAll_effect:
  assumes "TickAll os P w = Some w'" and "distinct (map snd (players (app w)))"
  shows "players (app w') = players (app w) \<and> tmap (app w') = tmap (app w)
    \<and> serverTick (app w') = serverTick (app w) + 1
    \<and> (\<forall>q ql. store (app w) q = Some ql \<longrightarrow>
         (\<exists>ql'. store (app w') q = Some ql' \<and> ticked (tmap (app w)) (q \<in> set (map snd (players (app w)))) ql ql'))"
proof -
  obtain w1 where w1: "for_each (tick_player os P) (map snd (players (app w))) w = Some w1"
    and "w' = w1\<lparr>app := (app w1)\<lparr>serverTick := serverTick (app w1) + 1\<rparr>\<rparr>"
    using assms(1) by (auto simp: TickAll_def)
  then show ?thesis
    using tick_players_effect [OF w1 assms(2)] by simp
qed

lemma ticked_entered: "ticked m b pl pl' \<Longrightarrow> entered pl' = entered pl"
proof -
  have "entered q = entered pl" if "simulate_tick m pl = Some q" for q
    using that by (auto simp: simulate_tick_def run_inputs_spec run_idle_spec split: if_splits)
  then show "ticked m b pl pl' \<Longrightarrow> entered pl' = entered pl"
    by (auto simp: ticked_def split: if_splits)
qed

lemma ticked_buffer:
  "ticked m b pl pl' \<Longrightarrow> inputBuffer pl' = (if b \<and> entered pl then drop MAX_STEPS_PER_TICK (inputBuffer pl) else inputBuffer pl)"
  by (auto simp: ticked_def dest: simulate_tick_buffer split: if_splits)

lemma ticks_drain:
  assumes "safe m L Q P D w" and "store (app w) p = Some pl" and "p \<in> snd ` set (players (app w))" and "entered pl"
  shows "\<exists>w' pl'. for_each (\<lambda>_. TickAll os P) [0..<k] w = Some w' \<and> safe m L Q P D w'
    \<and> store (app w') p = Some pl' \<and> p \<in> snd ` set (players (app w')) \<and> entered pl'
    \<and> inputBuffer pl' = drop (MAX_STEPS_PER_TICK * k) (inputBuffer pl)"
proof (induction k)
  case 0
  then show ?case
    using assms by simp
next
  case (Suc k)
  then obtain w1 p1 where w1: "for_each (\<lambda>_. TickAll os P) [0..<k] w = Some w1" "safe m L Q P D w1"
      "store (app w1) p = Some p1" "p \<in> snd ` set (players (app w1))" "entered p1"
      "inputBuffer p1 = drop (MAX_STEPS_PER_TICK * k) (inputBuffer pl)"
    by blast
  obtain w2 where w2: "TickAll os P w1 = Some w2" "safe m L Q P D w2"
    using TickAll_ok [OF w1(2)] by blast
  note eff = TickAll_effect [OF w2(1) room_inv_distinct [OF safe_room [OF w1(2)]]]
  have "\<exists>ql'. store (app w2) p = Some ql'
      \<and> ticked (tmap (app w1)) (p \<in> set (map snd (players (app w1)))) p1 ql'"
    using eff w1(3) by blast
  then obtain p2 where p2: "store (app w2) p = Some p2" "ticked (tmap (app w1)) True p1 p2"
    using w1(4) by auto
  have "inputBuffer p2 = drop (MAX_STEPS_PER_TICK * Suc k) (inputBuffer pl)"
    using ticked_buffer [OF p2(2)] w1(5,6) by (simp add: add.commute)
  moreover have "entered p2" and "p \<in> snd ` set (players (app w2))"
    using ticked_entered [OF p2(2)] w1(4,5) eff by simp_all
  moreover have "for_each (\<lambda>_. TickAll os P) [0..<Suc k] w = Some w2"
    using w1(1) w2(1) by (simp add: for_each_append)
  ultimately show ?case
    using w2(2) p2(1) by blast
qed

subsection \<open>A server with a player\<close>

definition demo_playing :: server where
  "demo_playing = demo_world\<lparr>app := (app demo_world)\<lparr>players := [(1, 0)], taskQueue := [],
     store := [0 \<mapsto> demo_player\<lparr>entered := True, inputBuffer := [zero_input\<lparr>inputSeq := 7\<rparr>, zero_input]\<rparr>]\<rparr>\<rparr>"

lemma demo_world_app:
  "app demo_world = room_new\<lparr>store := [0 \<mapsto> demo_player], nextPlayerId := 2, nextRef := 1,
     taskQueue := [Task_Enter 0], loopRunning := True\<rparr>"
  by (simp add: demo_world_def exec_def accept_round_def demo_app CreateAndRegisterSession_def demo_os_def Start_def
      OnConnected_def put_player_def on_session_def PostTask_def PostRecv_def AddRef_def emit_def AddSession_def
      Session_new_def Let_def demo_player_def room_new_def demo_server_def
      StartServer_def InitIocpAndWorkers_def server_new_def StartGameLoop_def numeral_eq_Suc)

lemma demo_live_eq: "live demo_world = [5 \<mapsto> ClientSession.fields (Some 0)]"
  by (simp add: live_def demo_world_simps demo_session_def Session_new_def fun_eq_iff)

lemma demo_playing_safe:
  "safe Map_new (near_place Map_new) (motion_ok Map_new) demo_proto {} demo_playing"
proof -
  have "wf_f32 fzero"
    using bnd_fzero [of 0] by (simp add: bnd_def)
  then have "room_inv Map_new (near_place Map_new) (motion_ok Map_new) {} (live demo_world) (app demo_playing)"
    by (intro room_invI)
      (auto simp: demo_playing_def demo_world_app room_new_def demo_live_eq demo_player_def SetSession_def Player_new_def
        player_ok_def zero_input_def MAX_INPUT_BUFFER_def fields_inject split: if_splits)
  moreover have "safe Map_new (near_place Map_new) (motion_ok Map_new) demo_proto {} demo_world"
    using reachable_running [OF demo_start demo_phys demo_proto_ok demo_reachable]
    by (simp add: demo_app room_new_def)
  ultimately show ?thesis
    unfolding demo_playing_def by (intro safe_app) simp_all
qed

lemma demo_playing_player:
  "store (app demo_playing) 0 = Some (demo_player\<lparr>entered := True, inputBuffer := [zero_input\<lparr>inputSeq := 7\<rparr>, zero_input]\<rparr>)"
  "players (app demo_playing) = [(1, 0)]" "serverTick (app demo_playing) = 0"
  by (simp_all add: demo_playing_def demo_world_app room_new_def)

subsection \<open>Properties\<close>

text \<open>C12: The tick simulates each player once: \<open>TickAll\<close> advances the tick counter by one, keeps the table and the map, moves every entered player of the table by exactly one tick's worth of simulation on the state he had before the tick, and leaves every other player as he was, up to the session pointer that a failed send may have cleared.\<close>

theorem tick_simulates_each_once:
  assumes "safe m L Q P D w" and "TickAll os P w = Some w'"
  shows "serverTick (app w') = serverTick (app w) + 1 \<and> players (app w') = players (app w) \<and> tmap (app w') = tmap (app w)
    \<and> (\<forall>p pl. store (app w) p = Some pl \<longrightarrow>
         (\<exists>q ss. store (app w') p = Some (q\<lparr>session := ss\<rparr>)
            \<and> (if p \<in> snd ` set (players (app w)) \<and> entered pl then simulate_tick (tmap (app w)) pl = Some q
               else q = pl)))"
  using TickAll_effect [OF assms(2) room_inv_distinct [OF safe_room [OF assms(1)]]] by (fastforce simp: ticked_def)

theorem tick_simulates_each_once_witness:
  "\<exists>w'. TickAll demo_os demo_proto demo_playing = Some w' \<and> serverTick (app w') = 1 \<and> players (app w') = [(1, 0)]"
proof -
  obtain w' where w': "TickAll demo_os demo_proto demo_playing = Some w'"
    using TickAll_ok [OF demo_playing_safe] by blast
  from tick_simulates_each_once [OF demo_playing_safe w'] w' show ?thesis
    by (auto simp: demo_playing_player)
qed

text \<open>C13: What a tick does with a player's inputs: with inputs waiting, the oldest (at most 8) are simulated in order of arrival and removed from the buffer; with none, three steps without input are simulated. Nothing else of the player changes.\<close>

theorem tick_consumes_inputs:
  "simulate_tick m pl =
     (if inputBuffer pl = []
      then map_option (\<lambda>st. pl\<lparr>physState := st\<rparr>) (sim_cmds m (replicate 3 zero_input) (physState pl))
      else map_option (\<lambda>st. pl\<lparr>physState := st, inputBuffer := drop 8 (inputBuffer pl)\<rparr>)
             (sim_cmds m (take 8 (inputBuffer pl)) (physState pl)))"
proof (cases "inputBuffer pl")
  case Nil
  have "run_inputs m 8 pl = Some (0, pl)"
    using Nil by (simp add: numeral_eq_Suc HasInput_def)
  then show ?thesis
    using Nil by (simp add: simulate_tick_def MAX_STEPS_PER_TICK_def run_idle_spec del: run_idle.simps)
next
  case (Cons cmd rest)
  then show ?thesis
    by (cases "sim_cmds m (take 8 (inputBuffer pl)) (physState pl)")
      (simp_all add: simulate_tick_def run_inputs_spec MAX_STEPS_PER_TICK_def)
qed

text \<open>C14: Every input is processed: after \<open>k\<close> further ticks the buffer of an entered player of the table has lost its \<open>8 * k\<close> oldest commands (the ticks all return), so without new input it is empty after four ticks, and the entered player is still in the table.\<close>

theorem inputs_processed_within_four_ticks:
  assumes "safe m L Q P D w" and "store (app w) p = Some pl" and "p \<in> snd ` set (players (app w))" and "entered pl"
  shows "\<exists>w' pl'. for_each (\<lambda>_. TickAll os P) [0..<k] w = Some w' \<and> store (app w') p = Some pl'
    \<and> p \<in> snd ` set (players (app w')) \<and> entered pl' \<and> inputBuffer pl' = drop (8 * k) (inputBuffer pl)
    \<and> (4 \<le> k \<longrightarrow> inputBuffer pl' = [])"
proof -
  have "length (inputBuffer pl) \<le> 32"
    using room_invD(9) [OF safe_room [OF assms(1)] assms(2)] by (simp add: player_ok_def MAX_INPUT_BUFFER_def)
  then show ?thesis
    using ticks_drain [OF assms, of os k] by (fastforce simp: MAX_STEPS_PER_TICK_def)
qed

theorem inputs_processed_within_four_ticks_witness:
  "\<exists>w' pl'. for_each (\<lambda>_. TickAll demo_os demo_proto) [0..<4] demo_playing = Some w'
     \<and> store (app w') 0 = Some pl' \<and> inputBuffer pl' = []"
proof -
  have "0 \<in> snd ` set (players (app demo_playing))"
    and "entered (demo_player\<lparr>entered := True, inputBuffer := [zero_input\<lparr>inputSeq := 7\<rparr>, zero_input]\<rparr>)"
    by (simp_all add: demo_playing_player)
  from inputs_processed_within_four_ticks [OF demo_playing_safe demo_playing_player(1) this, of demo_os 4]
  show ?thesis by auto
qed

end
