(* ===== verification/PlayerTable.thy ===== *)
theory PlayerTable
  imports RoomInvariants RoomTick
begin

text \<open>
  The table of players as an abstract map, and what the queue will make of it. Entering and
  leaving go through the task queue, so the table lags behind the connections: the invariant is
  that the table the queue leads to holds exactly the players with an open session.
\<close>

subsection \<open>The map contract\<close>

locale update_map =
  fixes lookup :: "'t \<Rightarrow> 'k \<Rightarrow> 'v option"
    and update :: "'k \<Rightarrow> 'v \<Rightarrow> 't \<Rightarrow> 't"
    and delete :: "'k \<Rightarrow> 't \<Rightarrow> 't"
  assumes lookup_update: "lookup (update k v t) = (lookup t)(k \<mapsto> v)"
    and lookup_delete: "lookup (delete k t) = (lookup t)(k := None)"
begin

lemma delete_absent: "lookup t k = None \<Longrightarrow> lookup (delete k t) = lookup t"
  by (simp add: lookup_delete fun_upd_idem)

lemma update_delete: "lookup (delete k (update k v t)) = (lookup t)(k := None)"
  by (simp add: lookup_update lookup_delete)

end

interpretation table: update_map map_of AList.update AList.delete
  by unfold_locales (simp_all add: update_conv' delete_conv')

subsection \<open>What the queue leads to\<close>

text \<open>A task's effect on the abstract table.\<close>

fun table_step :: "(pref \<Rightarrow> Player option) \<Rightarrow> task \<Rightarrow> (u64 \<Rightarrow> pref option) \<Rightarrow> (u64 \<Rightarrow> pref option)" where
  "table_step st (Task_Enter p) t = (case st p of None \<Rightarrow> t | Some pl \<Rightarrow> t(playerId pl \<mapsto> p))"
| "table_step st (Task_Leave pid) t = t(pid := None)"
| "table_step st _ t = t"

definition eventual :: "task list \<Rightarrow> room \<Rightarrow> u64 \<Rightarrow> pref option" where
  "eventual ts r = fold (table_step (store r)) (ts @ taskQueue r) (map_of (players r))"

text \<open>The players connected, by id.\<close>

definition connected :: "room \<Rightarrow> u64 \<Rightarrow> pref \<Rightarrow> bool" where
  "connected r pid p \<longleftrightarrow> (\<exists>pl. store r p = Some pl \<and> playerId pl = pid \<and> session pl \<noteq> None)"

text \<open>
  The invariant, with the tasks \<open>ts\<close> taken off the queue and not yet run. Player ids are given in
  order and wrap around after \<open>2\<^sup>6\<^sup>4\<close> connections.
\<close>

definition table_ok :: "task list \<Rightarrow> room \<Rightarrow> bool" where
  "table_ok ts r \<longleftrightarrow>
     (\<forall>p pl. store r p = Some pl \<longrightarrow> p < nextRef r \<and> playerId pl = of_nat (p + 1))
     \<and> nextPlayerId r = of_nat (nextRef r + 1)
     \<and> (\<forall>p. Task_Enter p \<in> set (ts @ taskQueue r) \<longrightarrow> store r p \<noteq> None)
     \<and> (nextRef r < 2 ^ 64 \<longrightarrow> (\<forall>pid p. eventual ts r pid = Some p \<longleftrightarrow> connected r pid p))"

lemma table_okD:
  assumes "table_ok ts r"
  shows "store r p = Some pl \<Longrightarrow> p < nextRef r" and "store r p = Some pl \<Longrightarrow> playerId pl = of_nat (p + 1)"
    and "nextPlayerId r = of_nat (nextRef r + 1)"
    and "Task_Enter p \<in> set (ts @ taskQueue r) \<Longrightarrow> store r p \<noteq> None"
    and "nextRef r < 2 ^ 64 \<Longrightarrow> eventual ts r pid = Some p \<longleftrightarrow> connected r pid p"
  using assms by (auto simp: table_ok_def)

lemma table_okI:
  assumes "\<And>p pl. store r p = Some pl \<Longrightarrow> p < nextRef r \<and> playerId pl = of_nat (p + 1)"
    and "nextPlayerId r = of_nat (nextRef r + 1)"
    and "\<And>p. Task_Enter p \<in> set (ts @ taskQueue r) \<Longrightarrow> store r p \<noteq> None"
    and "\<And>pid p. nextRef r < 2 ^ 64 \<Longrightarrow> eventual ts r pid = Some p \<longleftrightarrow> connected r pid p"
  shows "table_ok ts r"
  using assms by (simp add: table_ok_def)

text \<open>Below the bound the ids tell the players apart.\<close>

lemma of_nat_u64_inject: "a < 2 ^ 64 \<Longrightarrow> b < 2 ^ 64 \<Longrightarrow> (of_nat a :: u64) = of_nat b \<Longrightarrow> a = b"
  by (drule arg_cong [of _ _ unat]) (simp add: unsigned_of_nat take_bit_nat_eq_self)

lemma ids_distinct:
  assumes "table_ok ts r" and "nextRef r < 2 ^ 64" and "store r p = Some pl" and "store r q = Some ql"
    and "playerId pl = playerId ql"
  shows "p = q"
proof -
  have "p + 1 < 2 ^ 64" "q + 1 < 2 ^ 64" "(of_nat (p + 1) :: u64) = of_nat (q + 1)"
    using table_okD(1,2) [OF assms(1)] assms(2-5) by fastforce+
  then have "p + 1 = q + 1"
    by (rule of_nat_u64_inject)
  then show ?thesis by simp
qed

text \<open>The steps depend on the stored ids alone.\<close>

lemma table_step_cong:
  assumes "\<And>p. Task_Enter p \<in> set ts \<Longrightarrow> map_option playerId (st p) = map_option playerId (st' p)"
  shows "fold (table_step st) ts t = fold (table_step st') ts t"
  using assms
proof (induction ts arbitrary: t)
  case (Cons x ts)
  have "table_step st x t = table_step st' x t"
    using Cons.prems by (cases x) (force split: option.split)+
  then show ?case
    using Cons by simp
qed simp

lemma eventual_cong:
  assumes "\<And>p. Task_Enter p \<in> set (ts @ taskQueue r) \<Longrightarrow> map_option playerId (store r p) = map_option playerId (st p)"
  shows "eventual ts (r\<lparr>store := st\<rparr>) = eventual ts r"
  using table_step_cong [of "ts @ taskQueue r" "store r" st "map_of (players r)"] assms
  by (simp add: eventual_def)

lemma eventual_post: "eventual ts (r\<lparr>taskQueue := taskQueue r @ [t]\<rparr>) = table_step (store r) t (eventual ts r)"
  by (simp add: eventual_def)

lemma request_step: "request t \<Longrightarrow> table_step st t m = m"
  by (cases t) simp_all


subsection \<open>What keeps the invariant\<close>

lemma table_ok_put:
  assumes "table_ok ts r" and "store r p = Some pl" and "playerId pl' = playerId pl" and "session pl' = session pl"
  shows "table_ok ts (r\<lparr>store := (store r)(p \<mapsto> pl')\<rparr>)"
proof (rule table_okI)
  have ids: "map_option playerId (store r q) = map_option playerId (((store r)(p \<mapsto> pl')) q)" for q
    using assms(2,3) by simp
  fix pid q assume b: "nextRef (r\<lparr>store := (store r)(p \<mapsto> pl')\<rparr>) < 2 ^ 64"
  have "connected (r\<lparr>store := (store r)(p \<mapsto> pl')\<rparr>) pid q \<longleftrightarrow> connected r pid q"
    using assms(2-4) by (auto simp: connected_def)
  then show "eventual ts (r\<lparr>store := (store r)(p \<mapsto> pl')\<rparr>) pid = Some q
      \<longleftrightarrow> connected (r\<lparr>store := (store r)(p \<mapsto> pl')\<rparr>) pid q"
    using eventual_cong [of ts r "(store r)(p \<mapsto> pl')"] ids table_okD(5) [OF assms(1)] b by simp
qed (use table_okD [OF assms(1)] assms(2,3) in \<open>auto split: if_splits\<close>)

lemma table_ok_request:
  assumes "table_ok ts r" and "request t"
  shows "table_ok ts (r\<lparr>taskQueue := taskQueue r @ [t]\<rparr>)"
proof -
  have "t \<noteq> Task_Enter p" for p
    using assms(2) by auto
  then show ?thesis
    using assms table_okD(4) [OF assms(1)]
    by (fastforce simp: table_ok_def eventual_post request_step connected_def)
qed

lemma table_ok_other: "table_ok ts r \<Longrightarrow> table_ok ts (r\<lparr>loopRunning := b\<rparr>)" "table_ok ts r \<Longrightarrow> table_ok ts (r\<lparr>serverTick := n\<rparr>)"
  by (simp_all add: table_ok_def eventual_def connected_def)

text \<open>A disconnect clears the session and posts the departure.\<close>

lemma OnDisconnected_table:
  assumes "OnDisconnected s w = Some w'" and "table_ok ts (app w)"
  shows "table_ok ts (app w')"
proof -
  obtain x where x: "heap w s = Some x"
    using assms(1) by (auto simp: OnDisconnected_def)
  show ?thesis
  proof (cases "csPlayer x")
    case None
    then show ?thesis
      using assms x by (simp add: OnDisconnected_def)
  next
    case (Some p)
    then obtain pl where pl: "store (app w) p = Some pl"
      and w': "w' = PostTask (Task_Leave (playerId pl)) (put_player p (SetSession None pl) w)"
      using assms(1) x by (auto simp: OnDisconnected_def split: bind_splits)
    define r where "r = app w"
    define r1 where "r1 = r\<lparr>store := (store r)(p \<mapsto> SetSession None pl)\<rparr>"
    have app: "app w' = r1\<lparr>taskQueue := taskQueue r1 @ [Task_Leave (playerId pl)]\<rparr>"
      by (simp add: w' PostTask_def put_player_def r1_def r_def)
    note D = table_okD [OF assms(2), folded r_def]
    have ids: "map_option playerId (store r q) = map_option playerId (store r1 q)" for q
      using pl by (simp add: r1_def r_def SetSession_def)
    show ?thesis
      unfolding app
    proof (rule table_okI)
      fix pid q assume b: "nextRef (r1\<lparr>taskQueue := taskQueue r1 @ [Task_Leave (playerId pl)]\<rparr>) < 2 ^ 64"
      then have b': "nextRef r < 2 ^ 64"
        by (simp add: r1_def)
      have ev: "eventual ts r1 = eventual ts r"
        unfolding r1_def by (rule eventual_cong) (use ids in \<open>simp add: r1_def\<close>)
      have same: "q = p" if "store r q = Some ql" "playerId ql = playerId pl" for ql
        using ids_distinct [OF assms(2), folded r_def, OF b' that(1)] pl that(2) by (simp add: r_def)
      have "connected r1 pid q \<longleftrightarrow> connected r pid q \<and> pid \<noteq> playerId pl"
      proof (cases "q = p")
        case True
        then show ?thesis
          using pl by (auto simp: connected_def r1_def r_def SetSession_def)
      next
        case False
        then show ?thesis
          using same by (auto simp: connected_def r1_def)
      qed
      then show "eventual ts (r1\<lparr>taskQueue := taskQueue r1 @ [Task_Leave (playerId pl)]\<rparr>) pid = Some q
          \<longleftrightarrow> connected (r1\<lparr>taskQueue := taskQueue r1 @ [Task_Leave (playerId pl)]\<rparr>) pid q"
        using D(5) [OF b', of pid q] by (simp add: eventual_post ev connected_def)
    next
      fix q ql assume "store (r1\<lparr>taskQueue := taskQueue r1 @ [Task_Leave (playerId pl)]\<rparr>) q = Some ql"
      then show "q < nextRef (r1\<lparr>taskQueue := taskQueue r1 @ [Task_Leave (playerId pl)]\<rparr>) \<and> playerId ql = of_nat (q + 1)"
        using D(1,2) pl by (fastforce simp: r1_def r_def SetSession_def split: if_splits)
    next
      fix q assume "Task_Enter q \<in> set (ts @ taskQueue (r1\<lparr>taskQueue := taskQueue r1 @ [Task_Leave (playerId pl)]\<rparr>))"
      then show "store (r1\<lparr>taskQueue := taskQueue r1 @ [Task_Leave (playerId pl)]\<rparr>) q \<noteq> None"
        using D(4) [of q] by (auto simp: r1_def)
    qed (use D(3) in \<open>simp add: r1_def\<close>)
  qed
qed

lemma OnConnected_table:
  assumes "OnConnected s w = Some w'" and "table_ok ts (app w)"
  shows "table_ok ts (app w')"
proof -
  define r where "r = app w"
  define p where "p = nextRef r"
  define pl where "pl = SetSession (Some s) (Player_new (nextPlayerId r) '''')"
  define r1 where "r1 = r\<lparr>nextPlayerId := nextPlayerId r + 1, nextRef := p + 1, store := (store r)(p \<mapsto> pl)\<rparr>"
  have app: "app w' = r1\<lparr>taskQueue := taskQueue r1 @ [Task_Enter p]\<rparr>"
    using assms(1)
    by (auto simp: OnConnected_def PostTask_def put_player_def on_session_def r1_def r_def p_def pl_def
        Let_def split: option.splits bind_splits)
  note D = table_okD [OF assms(2), folded r_def]
  have fresh: "store r p = None"
    using D(1) [of p] by (cases "store r p") (auto simp: p_def)
  have id: "playerId pl = of_nat (p + 1)" and ses: "session pl = Some s"
    using D(3) by (simp_all add: pl_def SetSession_def Player_new_def p_def)
  have ev: "eventual ts r1 = eventual ts r"
  proof -
    have "eventual ts (r\<lparr>store := (store r)(p \<mapsto> pl)\<rparr>) = eventual ts r"
    proof (rule eventual_cong)
      fix q assume "Task_Enter q \<in> set (ts @ taskQueue r)"
      then have "q \<noteq> p"
        using D(4) [of q] fresh by auto
      then show "map_option playerId (store r q) = map_option playerId (((store r)(p \<mapsto> pl)) q)"
        by simp
    qed
    then show ?thesis
      by (simp add: r1_def eventual_def)
  qed
  show ?thesis
    unfolding app
  proof (rule table_okI)
    fix pid q assume b: "nextRef (r1\<lparr>taskQueue := taskQueue r1 @ [Task_Enter p]\<rparr>) < 2 ^ 64"
    then have b': "nextRef r < 2 ^ 64" and p: "p + 1 < 2 ^ 64"
      by (simp_all add: r1_def p_def)
    have old: "playerId ql \<noteq> playerId pl" if ql: "store r q = Some ql" for q ql
    proof
      assume "playerId ql = playerId pl"
      then have "(of_nat (q + 1) :: u64) = of_nat (p + 1)"
        using D(2) [OF ql] id by simp
      moreover have "q + 1 < p + 1"
        using D(1) [OF ql] by (simp add: p_def)
      ultimately have "q + 1 < 2 ^ 64" and "(of_nat (q + 1) :: u64) = of_nat (p + 1)"
        using p by simp_all
      from of_nat_u64_inject [OF this(1) p this(2)] show False
        using \<open>q + 1 < p + 1\<close> by simp
    qed
    have c: "connected r1 pid q \<longleftrightarrow> (if pid = playerId pl then q = p else connected r pid q)"
    proof (cases "q = p")
      case True
      then show ?thesis
        using fresh ses by (auto simp: connected_def r1_def)
    next
      case False
      then show ?thesis
        using old by (auto simp: connected_def r1_def)
    qed
    show "eventual ts (r1\<lparr>taskQueue := taskQueue r1 @ [Task_Enter p]\<rparr>) pid = Some q
        \<longleftrightarrow> connected (r1\<lparr>taskQueue := taskQueue r1 @ [Task_Enter p]\<rparr>) pid q"
    proof -
      have "connected (r1\<lparr>taskQueue := taskQueue r1 @ [Task_Enter p]\<rparr>) = connected r1"
        by (simp add: connected_def fun_eq_iff)
      moreover have "store r1 p = Some pl"
        by (simp add: r1_def)
      ultimately show ?thesis
        using D(5) [OF b', of pid q] c by (auto simp: eventual_post ev)
    qed
  next
    fix q ql assume "store (r1\<lparr>taskQueue := taskQueue r1 @ [Task_Enter p]\<rparr>) q = Some ql"
    then show "q < nextRef (r1\<lparr>taskQueue := taskQueue r1 @ [Task_Enter p]\<rparr>) \<and> playerId ql = of_nat (q + 1)"
      using D(1,2) [of q ql] id by (auto simp: r1_def p_def split: if_splits)
  next
    fix q assume "Task_Enter q \<in> set (ts @ taskQueue (r1\<lparr>taskQueue := taskQueue r1 @ [Task_Enter p]\<rparr>))"
    then show "store (r1\<lparr>taskQueue := taskQueue r1 @ [Task_Enter p]\<rparr>) q \<noteq> None"
      using D(4) [of q] by (auto simp: r1_def)
  qed (use D(3) in \<open>simp add: r1_def p_def\<close>)
qed


subsection \<open>Sending, tasks and the tick\<close>

interpretation lag: callback_effect OnDisconnected "\<lambda>w w'. \<forall>ts. table_ok ts (app w) \<longrightarrow> table_ok ts (app w')"
  by unfold_locales (auto simp: untouched_def dest: OnDisconnected_table)

lemma RoomSend_table: "RoomSend os p buf w = Some w' \<Longrightarrow> table_ok ts (app w) \<Longrightarrow> table_ok ts (app w')"
  by (auto simp: RoomSend_def dest: lag.EnqueueSend_R split: option.splits bind_splits)

lemma RoomBroadcast_table:
  assumes "RoomBroadcast os buf except w = Some w'" and "table_ok ts (app w)"
  shows "table_ok ts (app w')"
proof -
  have "\<forall>ts. table_ok ts (app w) \<longrightarrow> table_ok ts (app w')"
    by (rule lag.for_each_R [OF assms(1) [unfolded RoomBroadcast_def]])
      (auto dest: RoomSend_table split: if_splits)
  then show ?thesis
    using assms(2) by blast
qed

lemma put_player_table:
  assumes "table_ok ts (app w)" and "store (app w) p = Some pl" and "playerId pl' = playerId pl" and "session pl' = session pl"
  shows "table_ok ts (app (put_player p pl' w))"
  using table_ok_put [OF assms] by (simp add: put_player_def)

text \<open>A task that requests something leaves the table alone.\<close>

lemma table_ok_skip: "request t \<Longrightarrow> table_ok (t # ts) r \<Longrightarrow> table_ok ts r"
  by (auto simp: table_ok_def eventual_def request_step)

text \<open>A task that changes the table changes it as its abstract step does.\<close>

lemma table_ok_run:
  assumes "table_ok (t # ts) r" and "map_of ps = table_step (store r) t (map_of (players r))"
  shows "table_ok ts (r\<lparr>players := ps\<rparr>)"
proof (rule table_okI)
  have "eventual ts (r\<lparr>players := ps\<rparr>) = eventual (t # ts) r"
    using assms(2) by (simp add: eventual_def)
  then show "eventual ts (r\<lparr>players := ps\<rparr>) pid = Some p \<longleftrightarrow> connected (r\<lparr>players := ps\<rparr>) pid p"
    if "nextRef (r\<lparr>players := ps\<rparr>) < 2 ^ 64" for pid p
    using table_okD(5) [OF assms(1), of pid p] that by (simp add: connected_def)
qed (use table_okD(1-4) [OF assms(1)] in \<open>auto simp: fun_upd_def\<close>)

lemma EnterGame_table:
  assumes "EnterGame os P p nm w = Some w'" and "table_ok ts (app w)"
  shows "table_ok ts (app w')"
proof (cases "nm = [] \<or> length nm > 20")
  case True
  then show ?thesis
    using assms by (auto simp: EnterGame_def)
next
  case False
  obtain pl where pl: "store (app w) p = Some pl"
    using assms(1) False by (auto simp: EnterGame_def split: bind_splits)
  show ?thesis
  proof (cases "entered pl")
    case True
    then show ?thesis
      using assms pl False by (auto simp: EnterGame_def)
  next
    case new: False
    let ?w0 = "put_player p (SetName nm pl) w"
    obtain b1 w1 b2 w2 b3 others where w1: "RoomSend os p b1 ?w0 = Some w1"
      and w2: "RoomSend os p b2 w1 = Some w2" and w3: "for_each (\<lambda>q w. RoomSend os q b3 w) others w2 = Some w'"
      using assms(1) False pl new by (auto simp: EnterGame_def Let_def split: bind_splits)
    have "table_ok ts (app ?w0)"
      by (rule put_player_table [OF assms(2) pl]) (simp_all add: SetName_def)
    then have "table_ok ts (app w2)"
      using RoomSend_table w1 w2 by blast
    then show ?thesis
      using lag.for_each_R [OF w3] RoomSend_table by blast
  qed
qed

lemma run_task_table:
  assumes "run_task os P t w = Some w'" and "table_ok (t # ts) (app w)"
  shows "table_ok ts (app w')"
proof -
  have skip: "request t \<Longrightarrow> table_ok ts (app w)"
    by (rule table_ok_skip [OF _ assms(2)])
  show ?thesis
  proof (cases t)
    case (Task_Enter p)
    then obtain pl where pl: "store (app w) p = Some pl"
      and w': "w' = w\<lparr>app := (app w)\<lparr>players := AList.update (playerId pl) p (players (app w))\<rparr>\<rparr>"
      using assms(1) by (auto simp: run_task_def Enter_def split: bind_splits)
    show ?thesis
      using table_ok_run [OF assms(2), of "AList.update (playerId pl) p (players (app w))"] pl
      by (simp add: Task_Enter w' table.lookup_update)
  next
    case (Task_Leave pid)
    show ?thesis
    proof (cases "map_of (players (app w)) pid")
      case None
      then have "w' = w" and "map_of (players (app w)) = (map_of (players (app w)))(pid := None)"
        using assms(1) Task_Leave by (auto simp: run_task_def Leave_def fun_upd_idem)
      then show ?thesis
        using table_ok_run [OF assms(2), of "players (app w)"] Task_Leave by simp
    next
      case (Some p)
      then obtain buf w1 where w1: "RoomBroadcast os buf None w = Some w1"
        and w': "w' = w1\<lparr>app := (app w1)\<lparr>players := AList.delete pid (players (app w1))\<rparr>\<rparr>"
        using assms(1) Task_Leave by (auto simp: run_task_def Leave_def split: bind_splits)
      have "table_ok (Task_Leave pid # ts) (app w1)"
        using RoomBroadcast_table [OF w1] assms(2) Task_Leave by simp
      then show ?thesis
        unfolding w' using table_ok_run [of "Task_Leave pid" ts "app w1"] by (simp add: table.lookup_delete)
    qed
  next
    case (Task_EnterGame p nm)
    then show ?thesis
      using assms(1) skip EnterGame_table [of os P p nm w w' ts] by (simp add: run_task_def)
  next
    case (Task_Chat p message type)
    then obtain buf where "RoomBroadcast os buf None w = Some w'"
      using assms(1) by (auto simp: run_task_def Chat_def split: bind_splits)
    from RoomBroadcast_table [OF this] show ?thesis
      using skip Task_Chat by simp
  next
    case (Task_BroadcastAttack p k ty x y)
    then obtain buf where "RoomBroadcast os buf None w = Some w'"
      using assms(1) by (auto simp: run_task_def BroadcastAttack_def split: bind_splits)
    from RoomBroadcast_table [OF this] show ?thesis
      using skip Task_BroadcastAttack by simp
  next
    case (Task_HandleLadderState p on x y velx vely)
    then obtain pl st where pl: "store (app w) p = Some pl" "w' = put_player p (pl\<lparr>physState := st\<rparr>) w"
      using assms(1) by (auto simp: run_task_def split: bind_splits)
    have "table_ok ts (app w)"
      using skip Task_HandleLadderState by simp
    from put_player_table [OF this pl(1), of "pl\<lparr>physState := st\<rparr>"] show ?thesis
      by (simp add: pl(2))
  qed
qed

lemma DrainTasks_table:
  assumes "DrainTasks os P w = Some w'" and "table_ok [] (app w)"
  shows "table_ok [] (app w')"
proof -
  have run: "for_each (run_task os P) ts v = Some v' \<Longrightarrow> table_ok ts (app v) \<Longrightarrow> table_ok [] (app v')" for ts v v'
  proof (induction ts arbitrary: v)
    case (Cons t ts)
    then obtain v1 where "run_task os P t v = Some v1" "for_each (run_task os P) ts v1 = Some v'"
      by (auto split: bind_splits)
    then show ?case
      using Cons.IH [of v1] run_task_table Cons.prems(2) by blast
  qed simp
  have "table_ok (taskQueue (app w)) (app (w\<lparr>app := (app w)\<lparr>taskQueue := []\<rparr>\<rparr>))"
    using assms(2) by (simp add: table_ok_def eventual_def connected_def)
  then show ?thesis
    using run assms(1) by (auto simp: DrainTasks_def)
qed

lemma simulate_tick_ids: "simulate_tick m pl = Some pl' \<Longrightarrow> playerId pl' = playerId pl \<and> session pl' = session pl"
  by (auto simp: simulate_tick_def run_inputs_spec run_idle_spec split: if_splits bind_splits)

lemma tick_player_table:
  assumes "tick_player os P p w = Some w'" and "table_ok ts (app w)"
  shows "table_ok ts (app w')"
proof -
  obtain pl where pl: "store (app w) p = Some pl"
    using assms(1) by (auto simp: tick_player_def split: bind_splits)
  show ?thesis
  proof (cases "entered pl")
    case False
    then show ?thesis
      using assms pl by (simp add: tick_player_def)
  next
    case True
    then obtain pl1 b1 b2 w2 where pl1: "simulate_tick (tmap (app w)) pl = Some pl1"
      and w2: "RoomSend os p b1 (put_player p pl1 w) = Some w2" and w': "RoomBroadcast os b2 (Some p) w2 = Some w'"
      using assms(1) pl by (auto simp: tick_player_def Let_def split: bind_splits)
    show ?thesis
      using put_player_table [OF assms(2) pl] simulate_tick_ids [OF pl1] RoomSend_table [OF w2] RoomBroadcast_table [OF w']
      by blast
  qed
qed

lemma TickAll_table:
  assumes "TickAll os P w = Some w'" and "table_ok ts (app w)"
  shows "table_ok ts (app w')"
proof -
  obtain w1 where w1: "for_each (tick_player os P) (map snd (players (app w))) w = Some w1"
    and w': "w' = w1\<lparr>app := (app w1)\<lparr>serverTick := serverTick (app w1) + 1\<rparr>\<rparr>"
    using assms(1) by (auto simp: TickAll_def split: bind_splits)
  have "table_ok ts (app w1)"
    using lag.for_each_R [OF w1] tick_player_table assms(2) by blast
  then show ?thesis
    by (simp add: w' table_ok_other)
qed

interpretation queue: room_invariant "table_ok []"
proof unfold_locales
  show "table_ok [] (r\<lparr>store := (store r)(p \<mapsto> EnqueueInput cmd pl)\<rparr>)"
    if "store r p = Some pl" "table_ok [] r" for r p pl cmd
    using table_ok_put [OF that(2,1), of "EnqueueInput cmd pl"] by (simp add: EnqueueInput_def Let_def)
qed (auto intro: OnConnected_table OnDisconnected_table table_ok_request DrainTasks_table TickAll_table table_ok_other)

subsection \<open>The queue refines the abstract steps\<close>

text \<open>One world later: the same ids, and the table changed by \<open>f\<close>.\<close>

definition table_change :: "((u64 \<Rightarrow> pref option) \<Rightarrow> (u64 \<Rightarrow> pref option)) \<Rightarrow> room \<Rightarrow> room \<Rightarrow> bool" where
  "table_change f r r' \<longleftrightarrow> map_of (players r') = f (map_of (players r))
     \<and> (\<forall>p. map_option playerId (store r' p) = map_option playerId (store r p))"

lemma table_change_trans: "table_change f a b \<Longrightarrow> table_change g b c \<Longrightarrow> table_change (\<lambda>t. g (f t)) a c"
  by (simp add: table_change_def)

lemma table_change_refl: "table_change (\<lambda>t. t) r r"
  by (simp add: table_change_def)

lemma room_frame_table: "room_frame r r' \<Longrightarrow> table_change (\<lambda>t. t) r r'"
proof -
  assume f: "room_frame r r'"
  have "map_option playerId (store r' p) = map_option playerId (store r p)" for p
  proof -
    have "session_cleared (store r p) (store r' p)"
      using f by (simp add: room_frame_def)
    then show ?thesis
      by (auto simp: session_cleared_def SetSession_def)
  qed
  then show ?thesis
    using room_frameD(1) [OF f] by (simp add: table_change_def)
qed

lemma put_player_table_change:
  "store (app w) p = Some pl \<Longrightarrow> playerId pl' = playerId pl \<Longrightarrow>
     table_change (\<lambda>t. t) (app w) (app (put_player p pl' w))"
  by (simp add: table_change_def put_player_def)

lemma EnterGame_table_change:
  assumes "EnterGame os P p nm w = Some w'"
  shows "table_change (\<lambda>t. t) (app w) (app w')"
  using EnterGame_frame [OF assms]
proof (elim disjE exE conjE)
  fix pl assume pl: "store (app w) p = Some pl" and f: "room_frame (app (put_player p (SetName nm pl) w)) (app w')"
  have "table_change (\<lambda>t. t) (app w) (app (put_player p (SetName nm pl) w))"
    using pl by (rule put_player_table_change) (simp add: SetName_def)
  then show ?thesis
    using room_frame_table [OF f] table_change_trans by blast
qed (simp add: table_change_refl)

lemma run_task_table_change:
  assumes "run_task os P t w = Some w'"
  shows "table_change (table_step (store (app w)) t) (app w) (app w')"
proof (cases t)
  case (Task_Enter p)
  then obtain pl where pl: "store (app w) p = Some pl"
    and w': "w' = w\<lparr>app := (app w)\<lparr>players := AList.update (playerId pl) p (players (app w))\<rparr>\<rparr>"
    using assms(1) by (auto simp: run_task_def Enter_def split: bind_splits)
  then show ?thesis
    by (simp add: table_change_def Task_Enter table.lookup_update)
next
  case (Task_Leave pid)
  show ?thesis
  proof (cases "map_of (players (app w)) pid")
    case None
    then show ?thesis
      using assms(1) Task_Leave by (auto simp: run_task_def Leave_def table_change_def fun_upd_idem)
  next
    case (Some p)
    then obtain buf w1 where w1: "RoomBroadcast os buf None w = Some w1"
      and w': "w' = w1\<lparr>app := (app w1)\<lparr>players := AList.delete pid (players (app w1))\<rparr>\<rparr>"
      using assms(1) Task_Leave by (auto simp: run_task_def Leave_def split: bind_splits)
    then show ?thesis
      using room_frame_table [OF RoomBroadcast_frame [OF w1]]
      by (simp add: table_change_def Task_Leave table.lookup_delete)
  qed
next
  case (Task_EnterGame p nm)
  then show ?thesis
    using assms(1) EnterGame_table_change [of os P p nm w w'] by (simp add: run_task_def table_change_def)
next
  case (Task_Chat p message type)
  then obtain buf where "RoomBroadcast os buf None w = Some w'"
    using assms(1) by (auto simp: run_task_def Chat_def split: bind_splits)
  from room_frame_table [OF RoomBroadcast_frame [OF this]] show ?thesis
    by (simp add: Task_Chat table_change_def)
next
  case (Task_BroadcastAttack p k ty x y)
  then obtain buf where "RoomBroadcast os buf None w = Some w'"
    using assms(1) by (auto simp: run_task_def BroadcastAttack_def split: bind_splits)
  from room_frame_table [OF RoomBroadcast_frame [OF this]] show ?thesis
    by (simp add: Task_BroadcastAttack table_change_def)
next
  case (Task_HandleLadderState p on x y velx vely)
  then obtain pl st where pl: "store (app w) p = Some pl" "w' = put_player p (pl\<lparr>physState := st\<rparr>) w"
    using assms(1) by (auto simp: run_task_def split: bind_splits)
  from put_player_table_change [OF pl(1), of "pl\<lparr>physState := st\<rparr>"] show ?thesis
    by (simp add: pl(2) Task_HandleLadderState table_change_def)
qed

lemma run_tasks_table_change:
  "for_each (run_task os P) ts w = Some w' \<Longrightarrow> table_change (fold (table_step (store (app w))) ts) (app w) (app w')"
proof (induction ts arbitrary: w)
  case Nil
  then show ?case by (simp add: table_change_def)
next
  case (Cons t ts)
  then obtain w1 where w1: "run_task os P t w = Some w1" "for_each (run_task os P) ts w1 = Some w'"
    by (auto split: bind_splits)
  note step = run_task_table_change [OF w1(1)]
  have "fold (table_step (store (app w1))) ts t' = fold (table_step (store (app w))) ts t'" for t'
    by (rule table_step_cong) (use step in \<open>simp add: table_change_def\<close>)
  then have "table_change (fold (table_step (store (app w))) ts) (app w1) (app w')"
    using Cons.IH [OF w1(2)] by (simp add: table_change_def)
  with step show ?case
    by (simp add: table_change_def)
qed

lemma main_start_app:
  assumes "main_start os J file = Some (True, w)"
  shows "\<exists>m. app w = room_new\<lparr>tmap := m, loopRunning := True\<rparr>"
proof -
  obtain w1 b m where w1: "StartServer os 4 server_new = (True, w1)"
    and w: "w = w1\<lparr>app := (app w1)\<lparr>tmap := m, loopRunning := True\<rparr>\<rparr>"
    using assms by (auto simp: main_start_def LoadMap_def StartGameLoop_def split: prod.splits bool.splits bind_splits)
  have "app w1 = room_new"
    using w1 by (auto simp: StartServer_def InitIocpAndWorkers_def server_new_def Let_def split: if_splits prod.splits)
  then show ?thesis
    by (auto simp: w)
qed

subsection \<open>Properties\<close>

text \<open>C3: The table follows the connections: as long as fewer than \<open>2\<^sup>6\<^sup>4\<close> clients have connected, whatever else happened, running the queued tasks would leave exactly the players with an open session in the table, each under his id; so when the queue is empty the table is exactly that, no player who disconnected stays behind and none who is connected is missing.\<close>

theorem table_follows_connections:
  assumes "main_start os J file = Some (True, w0)" and "reachable os P w0 w" and "nextRef (app w) < 2 ^ 64"
  shows "(fold (table_step (store (app w))) (taskQueue (app w)) (map_of (players (app w))) pid = Some p
       \<longleftrightarrow> (\<exists>pl. store (app w) p = Some pl \<and> playerId pl = pid \<and> session pl \<noteq> None))
    \<and> (taskQueue (app w) = [] \<longrightarrow> (map_of (players (app w)) pid = Some p
       \<longleftrightarrow> (\<exists>pl. store (app w) p = Some pl \<and> playerId pl = pid \<and> session pl \<noteq> None)))"
proof -
  obtain m where "app w0 = room_new\<lparr>tmap := m, loopRunning := True\<rparr>"
    using main_start_app [OF assms(1)] by blast
  then have "table_ok [] (app w0)"
    by (simp add: table_ok_def room_new_def eventual_def connected_def)
  from table_okD(5) [OF queue.reachable_I [OF assms(2) this] assms(3), of pid p] show ?thesis
    by (auto simp: eventual_def connected_def)
qed

theorem table_follows_connections_witness:
  "\<exists>p. fold (table_step (store (app demo_world))) (taskQueue (app demo_world)) (map_of (players (app demo_world))) 1 = Some p"
proof -
  have "nextRef (app demo_world) < 2 ^ 64" "store (app demo_world) 0 = Some demo_player"
    by (simp_all add: demo_world_app room_new_def)
  then show ?thesis
    using table_follows_connections [OF demo_start demo_reachable, of 1 0]
    by (auto simp: demo_player_def SetSession_def Player_new_def)
qed

text \<open>C4: The task queue implements the abstract table: draining the queue turns the table, as a map from ids to players, into what the queued tasks say, one after another in the order they were posted (an entry inserts the player under his id, a departure removes the id, the rest leave the table alone), whatever sends fail on the way; and no player's id changes.\<close>

theorem queue_refines_table:
  assumes "DrainTasks os P w = Some w'"
  shows "map_of (players (app w')) = fold (table_step (store (app w))) (taskQueue (app w)) (map_of (players (app w)))
    \<and> (\<forall>p. map_option playerId (store (app w') p) = map_option playerId (store (app w) p))"
  using assms run_tasks_table_change [of os P "taskQueue (app w)" "w\<lparr>app := (app w)\<lparr>taskQueue := []\<rparr>\<rparr>" w']
  by (simp add: DrainTasks_def table_change_def)

theorem queue_refines_table_witness:
  "\<exists>w'. DrainTasks demo_os demo_proto demo_world = Some w' \<and> map_of (players (app w')) 1 = Some 0"
proof -
  have "running_ok demo_proto demo_server demo_world"
    by (rule reachable_running [OF demo_start demo_phys demo_proto_ok demo_reachable])
  from DrainTasks_ok [OF this] obtain w' where w': "DrainTasks demo_os demo_proto demo_world = Some w'"
    by blast
  with queue_refines_table [OF w'] show ?thesis
    by (auto simp: demo_world_app room_new_def demo_player_def SetSession_def Player_new_def)
qed

end
