(* ===== verification/WorldMotion.thy ===== *)
theory WorldMotion
  imports PlayerTable
begin

text \<open>
  The physics of the running server: where the players of a reachable state can be, and what a
  client can do to the server by naming a place that is no number.
\<close>

subsection \<open>A ladder request with a coordinate that is no number\<close>

lemma run_task_tmap: "run_task os P t w = Some w' \<Longrightarrow> tmap (app w') = tmap (app w)"
proof (cases t)
  case (Task_EnterGame p nm)
  assume "run_task os P t w = Some w'"
  with Task_EnterGame EnterGame_frame [of os P p nm w w'] show ?thesis
    by (auto simp: run_task_def put_player_def dest: room_frameD(2))
next
  case (Task_Leave pid)
  assume "run_task os P t w = Some w'"
  with Task_Leave show ?thesis
    by (auto simp: run_task_def Leave_def dest!: RoomBroadcast_frame room_frameD(2) split: bind_splits option.splits)
next
  case (Task_HandleLadderState p on x y velx vely)
  assume "run_task os P t w = Some w'"
  with Task_HandleLadderState show ?thesis
    by (auto simp: run_task_def put_player_def split: bind_splits)
qed (auto simp: run_task_def Enter_def Chat_def BroadcastAttack_def split: bind_splits
    dest!: RoomBroadcast_frame room_frameD(2))

text \<open>Wherever such a request stands in the queue, the drain does not finish.\<close>

lemma nan_task_undefined:
  assumes "Task_HandleLadderState p True FNaN y velx vely \<in> set ts"
    and "loaded (tmap (app w))" and "store (app w) p \<noteq> None"
  shows "for_each (run_task os P) ts w = None"
  using assms
proof (induction ts arbitrary: w)
  case (Cons t ts)
  show ?case
  proof (cases "run_task os P t w")
    case (Some w1)
    then have "t \<noteq> Task_HandleLadderState p True FNaN y velx vely"
      using Cons.prems by (auto simp: run_task_def HandleLadderState_def WorldToCell_def Let_def)
    moreover have "loaded (tmap (app w1))"
      using run_task_tmap [OF Some] Cons.prems(2) by simp
    moreover have "map_option playerId (store (app w1) p) = map_option playerId (store (app w) p)"
      using run_task_table_change [OF Some] by (simp add: table_change_def)
    with Cons.prems(3) have "store (app w1) p \<noteq> None"
      by auto
    ultimately show ?thesis
      using Cons Some by simp
  qed simp
qed simp

subsection \<open>Properties\<close>

lemma demo_loaded_net: "app demo_loaded = room_new\<lparr>tmap := Map_new\<lparr>solid := {PackCell 3 (-1)}, loaded := True\<rparr>, loopRunning := True\<rparr>"
    "heap demo_loaded = (\<lambda>_. None)" "pending demo_loaded = []" "sessions demo_loaded = []" "running demo_loaded"
    "mode demo_loaded = Mode_Server" "workers demo_loaded = 4"
  by (simp_all add: demo_loaded_def main_start_def StartServer_def InitIocpAndWorkers_def demo_os_def server_new_def
      LoadMap_def Load_def load_layer_def load_cell_size_def demo_json_def Map_new_def room_new_def StartGameLoop_def
      Let_def numeral_eq_Suc)


text \<open>C26: One packet of one client stops the server: when a player who has entered the game sends a ladder request whose x coordinate is a NaN, the handler accepts and queues it without looking at it, and draining the queue, now or after more tasks have been queued behind it, runs into a conversion of NaN to \<open>int\<close>, which is undefined behaviour, if the map is loaded. No other hypothesis of C1 fails here: its condition on ladder requests is needed.\<close>

theorem nan_ladder_packet_stops_server:
  assumes "hopcode (pheader pkt) = OP_C_LADDER_STATE" and "parse_C_LadderState P (payload pkt) = Some req"
    and "cl_on_ladder req" and "cl_pos_x req = FNaN" and "handlerRoom (app w)" and "loaded (tmap (app w))"
    and "heap w s = Some x" and "csPlayer x = Some p" and "store (app w) p = Some pl" and "entered pl"
  shows "\<exists>w1. HandlePacket os P s pkt w = Some (True, w1)
    \<and> (\<forall>ts. DrainTasks os P (fold PostTask ts w1) = None)"
proof -
  let ?t = "Task_HandleLadderState p True FNaN (cl_pos_y req) (cl_vel_x req) (cl_vel_y req)"
  have w1: "HandlePacket os P s pkt w = Some (True, PostTask ?t w)"
    using assms by (simp add: HandlePacket_def Let_def HandleLadderState_packet_def GetPlayer_def player_entered_def opcode_defs)
  have post: "app (fold PostTask ts v) = (app v)\<lparr>taskQueue := taskQueue (app v) @ ts\<rparr>" for ts v
    by (induction ts arbitrary: v) (simp_all add: PostTask_def)
  have "DrainTasks os P (fold PostTask ts (PostTask ?t w)) = None" for ts
    using assms(6,9) nan_task_undefined [of p "cl_pos_y req" "cl_vel_x req" "cl_vel_y req"
      "taskQueue (app (fold PostTask ts (PostTask ?t w)))"]
    by (simp add: DrainTasks_def post PostTask_def)
  with w1 show ?thesis
    by blast
qed

text \<open>An entered player on a loaded map, and a client that sends such a packet.\<close>

definition demo_climber :: server where
  "demo_climber = demo_playing\<lparr>app := (app demo_playing)\<lparr>tmap := flat_map\<rparr>\<rparr>"

definition nan_request :: C_LadderState where
  "nan_request = \<lparr>cl_on_ladder = True, cl_pos_x = FNaN, cl_pos_y = fzero, cl_vel_x = fzero, cl_vel_y = fzero\<rparr>"

theorem nan_ladder_packet_stops_server_witness:
  "\<exists>P pkt w1. HandlePacket demo_os P 5 pkt demo_climber = Some (True, w1) \<and> DrainTasks demo_os P w1 = None"
proof -
  let ?P = "demo_proto\<lparr>parse_C_LadderState := \<lambda>_. Some nan_request\<rparr>" and ?pkt = "packet_of OP_C_LADDER_STATE []"
  have "\<exists>w1. HandlePacket demo_os ?P 5 ?pkt demo_climber = Some (True, w1)
      \<and> (\<forall>ts. DrainTasks demo_os ?P (fold PostTask ts w1) = None)"
    by (rule nan_ladder_packet_stops_server [of _ _ nan_request _ _ demo_session 0
        "demo_player\<lparr>entered := True, inputBuffer := [zero_input\<lparr>inputSeq := 7\<rparr>, zero_input]\<rparr>"])
      (simp_all add: packet_of_def nan_request_def demo_climber_def demo_playing_def demo_world_app demo_world_simps
        room_new_def demo_session_def Session_new_def ClientSession.defs flat_map_def
        demo_player_def SetSession_def Player_new_def)
  then show ?thesis
    by (metis fold_simps(1))
qed

end
