(* ===== verification/Jobs.thy ===== *)
theory Jobs
  imports WorldMotion "HOL-Library.Multiset_Order"
begin

text \<open>
  The game loop at the grain of its accesses to shared data. A round of \<open>GameLoopThread\<close> is a
  list of jobs, each of which touches the task queue, one input buffer or one session once; other
  threads come in between. Every job is defined from the invariant of \<open>ServerInv\<close>, whatever
  references the workers hold, and the jobs of a round come to an end.
\<close>

subsection \<open>The jobs of a round\<close>

datatype job =
    Job_Drain                          \<comment> \<open>swap the task queue out\<close>
  | Job_Task task                      \<comment> \<open>begin a task\<close>
  | Job_Send pref SendBufferRef        \<comment> \<open>send one buffer to one player\<close>
  | Job_List pref "pref list"          \<comment> \<open>build the list of the others\<close>
  | Job_Erase u64                      \<comment> \<open>take a player out of the table\<close>
  | Job_Tick                           \<comment> \<open>begin \<open>TickAll\<close>\<close>
  | Job_Player pref                    \<comment> \<open>begin with a player\<close>
  | Job_Input pref nat                 \<comment> \<open>test the loop's condition, so many steps done\<close>
  | Job_Step pref nat                  \<comment> \<open>dequeue a command and simulate it\<close>
  | Job_Idle pref                      \<comment> \<open>simulate without a command\<close>
  | Job_Report pref                    \<comment> \<open>build the player's state message\<close>
  | Job_Move pref                      \<comment> \<open>build the movement message\<close>
  | Job_NextTick                       \<comment> \<open>count the tick\<close>

definition broadcast_jobs :: "SendBufferRef \<Rightarrow> pref option \<Rightarrow> room \<Rightarrow> job list" where
  "broadcast_jobs buf except r =
     map (\<lambda>p. Job_Send p buf) (filter (\<lambda>p. Some p \<noteq> except) (map snd (players r)))"

definition task_step :: "proto_api \<Rightarrow> task \<Rightarrow> server \<Rightarrow> (job list \<times> server) option" where
  "task_step P t w = (case t of
     Task_Enter p \<Rightarrow> do { w \<leftarrow> Enter p w; Some ([], w) }
   | Task_Leave pid \<Rightarrow>
       (case map_of (players (app w)) pid of
          None \<Rightarrow> Some ([], w)
        | Some _ \<Rightarrow> do {
            buf \<leftarrow> proto_buffer P OP_S_DESPAWN (S_Despawn [pid]);
            Some (broadcast_jobs buf None (app w) @ [Job_Erase pid], w)
          })
   | Task_EnterGame p nm \<Rightarrow>
       (if nm = [] \<or> length nm > 20 then Some ([], w)
        else do {
          pl \<leftarrow> store (app w) p;
          if entered pl then Some ([], w)
          else do {
            let pl = SetName nm pl;
            let w = put_player p pl w;
            let others = filter (\<lambda>q. q \<noteq> p) (map snd (players (app w)));
            buf \<leftarrow> proto_buffer P OP_S_ENTER_GAME (S_EnterGame True (FillPlayerInfo pl));
            buf' \<leftarrow> proto_buffer P OP_S_SPAWN (S_Spawn [FillPlayerInfo pl]);
            Some ([Job_Send p buf, Job_List p others] @ map (\<lambda>q. Job_Send q buf') others, w)
          }
        })
   | Task_Chat p message type \<Rightarrow> do {
       pl \<leftarrow> store (app w) p;
       buf \<leftarrow> proto_buffer P OP_S_CHAT (S_Chat_msg
         \<lparr>sc_player_id = playerId pl, sc_name = playerName pl, sc_type = type, sc_message = message\<rparr>);
       Some (broadcast_jobs buf None (app w), w)
     }
   | Task_BroadcastAttack p skillId attackType aimX aimY \<Rightarrow> do {
       pl \<leftarrow> store (app w) p;
       buf \<leftarrow> proto_buffer P OP_S_ATTACK_RESULT (S_AttackResult_msg
         \<lparr>ar_attacker_id = playerId pl, ar_skill_id = skillId, ar_attack_type = attackType,
          ar_origin = pos (physState pl), ar_aim_dir = \<lparr>vecx = aimX, vecy = aimY\<rparr>\<rparr>);
       Some (broadcast_jobs buf None (app w), w)
     }
   | Task_HandleLadderState p onLadder x y velx vely \<Rightarrow> do {
       pl \<leftarrow> store (app w) p;
       st \<leftarrow> HandleLadderState (tmap (app w)) onLadder x y velx vely (physState pl);
       Some ([], put_player p (pl\<lparr>physState := st\<rparr>) w)
     })"

text \<open>One job: the jobs it leaves to do first, and the world after it.\<close>

definition job_step :: "os_api \<Rightarrow> proto_api \<Rightarrow> job \<Rightarrow> server \<Rightarrow> (job list \<times> server) option" where
  "job_step os P j w = (case j of
     Job_Drain \<Rightarrow> Some (map Job_Task (taskQueue (app w)), w\<lparr>app := (app w)\<lparr>taskQueue := []\<rparr>\<rparr>)
   | Job_Task t \<Rightarrow> task_step P t w
   | Job_Send p buf \<Rightarrow> do { w \<leftarrow> RoomSend os p buf w; Some ([], w) }
   | Job_List p others \<Rightarrow> do {
       infos \<leftarrow> those (map (\<lambda>q. map_option FillPlayerInfo (store (app w) q)) others);
       buf \<leftarrow> proto_buffer P OP_S_PLAYER_LIST (S_PlayerList infos);
       Some ([Job_Send p buf], w)
     }
   | Job_Erase pid \<Rightarrow> Some ([], w\<lparr>app := (app w)\<lparr>players := AList.delete pid (players (app w))\<rparr>\<rparr>)
   | Job_Tick \<Rightarrow> Some (map Job_Player (map snd (players (app w))) @ [Job_NextTick], w)
   | Job_Player p \<Rightarrow> do {
       pl \<leftarrow> store (app w) p;
       Some (if entered pl then [Job_Input p 0] else [], w)
     }
   | Job_Input p steps \<Rightarrow> do {
       pl \<leftarrow> store (app w) p;
       Some (if HasInput pl \<and> steps < MAX_STEPS_PER_TICK then [Job_Step p steps]
             else if steps = 0 then replicate 3 (Job_Idle p) @ [Job_Report p]
             else [Job_Report p], w)
     }
   | Job_Step p steps \<Rightarrow> do {
       pl \<leftarrow> store (app w) p;
       let (cmd, pl) = DequeueInput pl;
       st \<leftarrow> SimulatePlayer (tmap (app w)) cmd CLIENT_DT (physState pl);
       Some ([Job_Input p (steps + 1)], put_player p (pl\<lparr>physState := st\<rparr>) w)
     }
   | Job_Idle p \<Rightarrow> do {
       pl \<leftarrow> store (app w) p;
       st \<leftarrow> SimulatePlayer (tmap (app w)) zero_input CLIENT_DT (physState pl);
       Some ([], put_player p (pl\<lparr>physState := st\<rparr>) w)
     }
   | Job_Report p \<Rightarrow> do {
       pl \<leftarrow> store (app w) p;
       buf \<leftarrow> proto_buffer P OP_S_PLAYER_STATE (S_PlayerState_msg (player_state_msg pl));
       Some ([Job_Send p buf, Job_Move p], w)
     }
   | Job_Move p \<Rightarrow> do {
       pl \<leftarrow> store (app w) p;
       buf \<leftarrow> proto_buffer P OP_S_BROADCAST_MOVE
         (S_BroadcastMove_msg (broadcast_move_msg (serverTick (app w)) pl));
       Some (broadcast_jobs buf (Some p) (app w), w)
     }
   | Job_NextTick \<Rightarrow> Some ([], w\<lparr>app := (app w)\<lparr>serverTick := serverTick (app w) + 1\<rparr>\<rparr>))"

subsection \<open>Every job is defined\<close>

text \<open>The players a job holds are allocated.\<close>

fun job_ok :: "(f32 \<Rightarrow> f32 \<Rightarrow> bool) \<Rightarrow> pref set \<Rightarrow> job \<Rightarrow> bool" where
  "job_ok L D (Job_Task t) = task_ok L D t"
| "job_ok L D (Job_Send p buf) = (p \<in> D)"
| "job_ok L D (Job_List p qs) = (p \<in> D \<and> set qs \<subseteq> D)"
| "job_ok L D (Job_Player p) = (p \<in> D)"
| "job_ok L D (Job_Input p n) = (p \<in> D)"
| "job_ok L D (Job_Step p n) = (p \<in> D)"
| "job_ok L D (Job_Idle p) = (p \<in> D)"
| "job_ok L D (Job_Report p) = (p \<in> D)"
| "job_ok L D (Job_Move p) = (p \<in> D)"
| "job_ok L D j = True"

lemma job_ok_mono: "job_ok L D j \<Longrightarrow> D \<subseteq> E \<Longrightarrow> job_ok L E j"
  by (cases j) (auto intro: task_ok_mono)

lemma safe_table: "safe_at H m L Q P D w \<Longrightarrow> snd ` set (players (app w)) \<subseteq> dom (store (app w))"
  using room_invD(6) [OF safe_room] by fastforce

lemma broadcast_jobs_ok:
  "snd ` set (players r) \<subseteq> D \<Longrightarrow> k \<in> set (broadcast_jobs buf except r) \<Longrightarrow> job_ok L D k"
  by (auto simp: broadcast_jobs_def)

lemma safe_erase:
  assumes "safe_at H m L Q P D w"
  shows "safe_at H m L Q P D (w\<lparr>app := (app w)\<lparr>players := AList.delete pid (players (app w))\<rparr>\<rparr>)"
proof (rule safe_app [OF assms])
  note inv = room_invD [OF safe_room [OF assms]]
  show "room_inv m L Q D (live w) ((app w)\<lparr>players := AList.delete pid (players (app w))\<rparr>)"
  proof (rule room_invI)
    show "distinct (map fst (players ((app w)\<lparr>players := AList.delete pid (players (app w))\<rparr>)))"
      using inv(7) by (simp add: distinct_delete)
    show "\<exists>pl. store ((app w)\<lparr>players := AList.delete pid (players (app w))\<rparr>) q = Some pl \<and> playerId pl = i"
      if "(i, q) \<in> set (players ((app w)\<lparr>players := AList.delete pid (players (app w))\<rparr>))" for i q
      using that inv(6) [of i q] by (auto simp: AList.delete_eq)
  qed (use inv in auto)
qed

lemma safe_simulate:
  assumes "safe_at H m L Q P D w" and "store (app w) p = Some pl" and "wf_f32 (deltaTime cmd)"
    and "pl' = pl \<or> pl' = pl\<lparr>inputBuffer := tl (inputBuffer pl)\<rparr>"
  shows "\<exists>st. SimulatePlayer (tmap (app w)) cmd CLIENT_DT (physState pl') = Some st
    \<and> safe_at H m L Q P D (put_player p (pl'\<lparr>physState := st\<rparr>) w)"
proof -
  have ok: "player_ok Q pl"
    using room_invD(9) [OF safe_room [OF assms(1)] assms(2)] .
  then obtain st where st: "SimulatePlayer m cmd CLIENT_DT (physState pl) = Some st" "Q st"
    using safe_phys [OF assms(1)] assms(3) unfolding phys_safe_def player_ok_def by blast
  have "player_ok Q (pl'\<lparr>physState := st\<rparr>)"
    using ok st(2) assms(4) by (cases "inputBuffer pl") (auto simp: player_ok_def)
  then have "safe_at H m L Q P D (put_player p (pl'\<lparr>physState := st\<rparr>) w)"
    using assms(4) by (intro safe_put [OF assms(1,2)]) auto
  then show ?thesis
    using st(1) safe_phys [OF assms(1)] assms(4) by auto
qed

lemma task_step_ok:
  assumes "safe_at H m L Q P (dom (store (app w))) w" and "task_ok L (dom (store (app w))) t"
  shows "\<exists>js w'. task_step P t w = Some (js, w') \<and> safe_at H m L Q P (dom (store (app w))) w'
    \<and> (\<forall>k\<in>set js. job_ok L (dom (store (app w))) k)"
proof (cases t)
  case (Task_Enter p)
  then show ?thesis
    using assms Enter_ok [OF assms(1)] by (fastforce simp: task_step_def)
next
  case (Task_Leave pid)
  then show ?thesis
    using assms(1) broadcast_jobs_ok [OF safe_table [OF assms(1)]]
    by (auto simp: task_step_def proto_buffer_sendable split: option.split)
next
  case (Task_EnterGame p nm)
  then obtain pl where pl: "store (app w) p = Some pl"
    using assms(2) by auto
  have "player_ok Q (SetName nm pl)"
    using room_invD(9) [OF safe_room [OF assms(1)] pl] by (simp add: player_ok_def SetName_def)
  then have "safe_at H m L Q P (dom (store (app w))) (put_player p (SetName nm pl) w)"
    by (intro safe_put [OF assms(1) pl]) (simp_all add: SetName_def)
  then show ?thesis
    using assms pl safe_table [OF assms(1)] Task_EnterGame
    by (auto simp: task_step_def proto_buffer_sendable Let_def put_player_def)
next
  case (Task_HandleLadderState p on x y velx vely)
  then obtain pl where pl: "store (app w) p = Some pl" and L: "L x y"
    using assms(2) by auto
  have ok: "player_ok Q pl"
    using room_invD(9) [OF safe_room [OF assms(1)] pl] .
  then obtain st where st: "HandleLadderState m on x y velx vely (physState pl) = Some st" "Q st"
    using safe_phys [OF assms(1)] L by (auto simp: phys_safe_def player_ok_def) blast
  have "safe_at H m L Q P (dom (store (app w))) (put_player p (pl\<lparr>physState := st\<rparr>) w)"
    using ok st(2) by (intro safe_put [OF assms(1) pl]) (simp_all add: player_ok_def)
  then show ?thesis
    using Task_HandleLadderState pl st(1) safe_phys [OF assms(1)] by (simp add: task_step_def)
qed (use assms broadcast_jobs_ok [OF safe_table [OF assms(1)]] in \<open>auto simp: task_step_def proto_buffer_sendable\<close>)

lemma DequeueInput_cases:
  assumes "player_ok Q pl"
  obtains cmd pl' where "DequeueInput pl = (cmd, pl')" and "wf_f32 (deltaTime cmd)"
    and "pl' = pl \<or> pl' = pl\<lparr>inputBuffer := tl (inputBuffer pl)\<rparr>"
proof (cases "inputBuffer pl")
  case Nil
  have "wf_f32 (deltaTime zero_input)"
    by (simp add: zero_input_def float_eval representable_def)
  with Nil that show ?thesis
    by (simp add: DequeueInput_def)
next
  case (Cons cmd rest)
  with assms that show ?thesis
    by (simp add: DequeueInput_def player_ok_def)
qed

lemma job_step_ok:
  assumes "safe_at H m L Q P D w" and "job_ok L (dom (store (app w))) j"
  shows "\<exists>js w'. job_step os P j w = Some (js, w') \<and> safe_at H m L Q P (dom (store (app w))) w'
    \<and> (\<forall>k\<in>set js. job_ok L (dom (store (app w))) k)"
proof -
  let ?D = "dom (store (app w))"
  have w: "safe_at H m L Q P ?D w"
    using assms(1) by (rule safe_dom)
  note inv = room_invD [OF safe_room [OF w]] and table = safe_table [OF w]
  have stored: "\<exists>pl. store (app w) p = Some pl" if "p \<in> ?D" for p
    using that by auto
  show ?thesis
  proof (cases j)
    case Job_Drain
    have "room_inv m L Q ?D (live w) ((app w)\<lparr>taskQueue := []\<rparr>)"
      by (rule room_invI) (use inv in auto)
    with Job_Drain show ?thesis
      using safe_app [OF w] inv(8) by (auto simp: job_step_def)
  next
    case (Job_Task t)
    then show ?thesis
      using task_step_ok [OF w] assms(2) by (simp add: job_step_def)
  next
    case (Job_Send p buf)
    then show ?thesis
      using RoomSend_ok [OF w, of p os buf] assms(2) by (auto simp: job_step_def)
  next
    case (Job_List p qs)
    have "\<exists>infos. those (map (\<lambda>q. map_option FillPlayerInfo (store (app w) q)) qs) = Some infos"
      by (rule those_SomeI) (use Job_List assms(2) in auto)
    with Job_List show ?thesis
      using w assms(2) by (auto simp: job_step_def proto_buffer_sendable)
  next
    case (Job_Erase pid)
    then show ?thesis
      using safe_erase [OF w] by (simp add: job_step_def)
  next
    case Job_Tick
    then show ?thesis
      using w table by (auto simp: job_step_def)
  next
    case (Job_Step p n)
    then obtain pl where pl: "store (app w) p = Some pl"
      using stored assms(2) by auto
    obtain cmd pl' where d: "DequeueInput pl = (cmd, pl')" "wf_f32 (deltaTime cmd)"
        "pl' = pl \<or> pl' = pl\<lparr>inputBuffer := tl (inputBuffer pl)\<rparr>"
      using inv(9) [OF pl] by (rule DequeueInput_cases)
    then show ?thesis
      using Job_Step pl safe_simulate [OF w pl d(2,3)] assms(2) by (auto simp: job_step_def)
  next
    case (Job_Idle p)
    then obtain pl where pl: "store (app w) p = Some pl"
      using stored assms(2) by auto
    have "wf_f32 (deltaTime zero_input)"
      by (simp add: zero_input_def float_eval representable_def)
    then show ?thesis
      using Job_Idle pl safe_simulate [OF w pl, of zero_input pl] by (auto simp: job_step_def)
  next
    case Job_NextTick
    have "room_inv m L Q ?D (live w) ((app w)\<lparr>serverTick := serverTick (app w) + 1\<rparr>)"
      by (rule room_invI) (use inv in auto)
    with Job_NextTick show ?thesis
      using safe_app [OF w] by (simp add: job_step_def)
  qed (use w table assms(2) stored broadcast_jobs_ok [OF table] in \<open>auto simp: job_step_def proto_buffer_sendable\<close>)
qed

subsection \<open>A round ends\<close>

text \<open>
  Jobs are ordered by a rank. A job leaves only smaller jobs, so it makes the multiset of the jobs
  left to do smaller, whatever happens between the jobs.
\<close>

fun job_rank :: "job \<Rightarrow> nat" where
  "job_rank Job_Tick = 22"
| "job_rank (Job_Player p) = 21"
| "job_rank (Job_Input p n) = 3 + 2 * (MAX_STEPS_PER_TICK - n)"
| "job_rank (Job_Step p n) = 2 + 2 * (MAX_STEPS_PER_TICK - n)"
| "job_rank Job_Drain = 3"
| "job_rank (Job_Task t) = 2"
| "job_rank (Job_Report p) = 2"
| "job_rank (Job_List p qs) = 1"
| "job_rank (Job_Move p) = 1"
| "job_rank (Job_Send p buf) = 0"
| "job_rank (Job_Erase pid) = 0"
| "job_rank (Job_Idle p) = 0"
| "job_rank Job_NextTick = 0"

instantiation job :: preorder
begin

definition less_eq_job :: "job \<Rightarrow> job \<Rightarrow> bool" where "j \<le> k \<longleftrightarrow> job_rank j \<le> job_rank k"

definition less_job :: "job \<Rightarrow> job \<Rightarrow> bool" where "j < k \<longleftrightarrow> job_rank j < job_rank k"

instance
  by standard (auto simp: less_eq_job_def less_job_def)

end

lemma wf_jobs: "wf {(M, N). M < (N :: job multiset)}"
proof -
  have "{(j, k). j < (k :: job)} = measure job_rank"
    by (auto simp: less_job_def)
  then have "wfp ((<) :: job \<Rightarrow> job \<Rightarrow> bool)"
    using wf_measure [of job_rank] by (simp add: wfp_def)
  then have "wfp (multp ((<) :: job \<Rightarrow> job \<Rightarrow> bool))"
    by (rule wfp_multp)
  then show ?thesis
    by (simp add: less_multiset_def wfp_def)
qed

text \<open>A step job is only left by a test that found fewer than eight steps done.\<close>

fun counted :: "job \<Rightarrow> bool" where
  "counted (Job_Step p n) = (n < MAX_STEPS_PER_TICK)"
| "counted j = True"

lemma broadcast_jobs_rank:
  "k \<in> set (broadcast_jobs buf except r) \<Longrightarrow> job_rank k = 0 \<and> counted k"
  by (auto simp: broadcast_jobs_def)

lemma task_step_rank:
  "task_step P t w = Some (js, w') \<Longrightarrow> k \<in> set js \<Longrightarrow> job_rank k < 2 \<and> counted k"
  by (auto simp: task_step_def Let_def dest!: broadcast_jobs_rank split: task.splits option.splits bind_splits if_splits)

lemma job_step_rank:
  assumes "job_step os P j w = Some (js, w')" and "counted j" and "k \<in> set js"
  shows "k < j \<and> counted k"
  unfolding less_job_def using assms task_step_rank
  by (cases j) (fastforce simp: job_step_def MAX_STEPS_PER_TICK_def dest!: broadcast_jobs_rank
    split: bind_splits if_splits prod.splits)+

lemma jobs_decrease:
  assumes "job_step os P j w = Some (js', w')" and "counted j"
  shows "mset (js' @ js) < mset (j # js)"
proof -
  have "mset js' < {#j#}"
    using job_step_rank [OF assms] by (intro ex_gt_imp_less_multiset) auto
  from add_strict_right_mono [OF this, of "mset js"] show ?thesis
    by simp
qed

end
