(* ===== verification/Workers.thy ===== *)
theory Workers
  imports Effects
begin

text \<open>
  A worker thread between its accesses to shared data (\<open>NetService::WorkerLoop\<close>,
  \<open>Session::OnRecvComplete\<close>): a completion is handled in steps, one for each test of \<open>_closing\<close>,
  each packet taken off the stream, each packet handled, and the posting of the next operation.
  Other threads run in between; the reference that the completed operation held keeps the session
  in memory. The invariant of \<open>SessionInv\<close> survives every step, and the steps of a completion
  that nothing interrupts are \<open>worker_round\<close>.
\<close>

subsection \<open>What is left to do of a completion\<close>

datatype duty =
    On_Recv "byte list"   \<comment> \<open>\<open>OnRecvComplete\<close>: append the bytes, unless closing\<close>
  | On_Parse              \<comment> \<open>take the next packet off the stream\<close>
  | On_Packet Packet      \<comment> \<open>handle it\<close>
  | On_Check              \<comment> \<open>test \<open>_closing\<close> after the handler\<close>
  | On_Post               \<comment> \<open>post the next receive\<close>
  | On_Sent               \<comment> \<open>\<open>OnSendComplete\<close>\<close>
  | On_Close
  | On_Release            \<comment> \<open>release the reference of the completed operation\<close>

type_synonym worker = "sref \<times> IOType \<times> duty"

definition first_duty :: "IOType \<Rightarrow> bool \<Rightarrow> byte list \<Rightarrow> duty" where
  "first_duty ty success bytes =
     (if \<not> success \<or> bytes = [] then On_Close else if ty = RECV then On_Recv bytes else On_Sent)"

definition worker_step ::
  "os_api \<Rightarrow> (sref \<Rightarrow> ('x, 'm) net \<Rightarrow> ('x, 'm) net option)
    \<Rightarrow> (sref \<Rightarrow> Packet \<Rightarrow> ('x, 'm) net \<Rightarrow> (bool \<times> ('x, 'm) net) option)
    \<Rightarrow> sref \<Rightarrow> duty \<Rightarrow> ('x, 'm) net \<Rightarrow> (duty option \<times> ('x, 'm) net) option" where
  "worker_step os od hp s d w = (case d of
     On_Recv data \<Rightarrow> do {
       x \<leftarrow> heap w s;
       if closing x then Some (Some On_Release, w)
       else do {
         w \<leftarrow> on_session s (\<lambda>x. x\<lparr>recvStream := recvStream x @ data\<rparr>) w;
         Some (Some On_Parse, w)
       }
     }
   | On_Parse \<Rightarrow> do {
       x \<leftarrow> heap w s;
       let (result, stream, pkt) = TryGetPacket (recvStream x) Packet_new;
       w \<leftarrow> on_session s (\<lambda>x. x\<lparr>recvStream := stream\<rparr>) w;
       Some (Some (if result = Incomplete then On_Post else if result \<noteq> Success then On_Close else On_Packet pkt), w)
     }
   | On_Packet pkt \<Rightarrow> do {
       (handled, w) \<leftarrow> hp s pkt w;
       Some (Some (if handled then On_Check else On_Close), w)
     }
   | On_Check \<Rightarrow> do {
       x \<leftarrow> heap w s;
       Some (Some (if closing x then On_Release else On_Parse), w)
     }
   | On_Post \<Rightarrow> do { w \<leftarrow> PostRecv os od s w; Some (Some On_Release, w) }
   | On_Sent \<Rightarrow> do { w \<leftarrow> OnSendComplete os od s w; Some (Some On_Release, w) }
   | On_Close \<Rightarrow> do { w \<leftarrow> Close od s w; Some (Some On_Release, w) }
   | On_Release \<Rightarrow> do { w \<leftarrow> Release s w; Some (None, w) })"

subsection \<open>A completion without interruption\<close>

inductive worker_run ::
  "os_api \<Rightarrow> (sref \<Rightarrow> ('x, 'm) net \<Rightarrow> ('x, 'm) net option)
    \<Rightarrow> (sref \<Rightarrow> Packet \<Rightarrow> ('x, 'm) net \<Rightarrow> (bool \<times> ('x, 'm) net) option)
    \<Rightarrow> sref \<Rightarrow> duty \<Rightarrow> ('x, 'm) net \<Rightarrow> ('x, 'm) net \<Rightarrow> bool" for os od hp s where
  finished: "worker_step os od hp s d w = Some (None, w') \<Longrightarrow> worker_run os od hp s d w w'"
| next_duty: "worker_step os od hp s d w = Some (Some d', w1) \<Longrightarrow> worker_run os od hp s d' w1 w'
    \<Longrightarrow> worker_run os od hp s d w w'"

text \<open>What the sequential functions do from the same point on.\<close>

fun remainder ::
  "os_api \<Rightarrow> (sref \<Rightarrow> ('x, 'm) net \<Rightarrow> ('x, 'm) net option)
    \<Rightarrow> (sref \<Rightarrow> Packet \<Rightarrow> ('x, 'm) net \<Rightarrow> (bool \<times> ('x, 'm) net) option)
    \<Rightarrow> sref \<Rightarrow> duty \<Rightarrow> ('x, 'm) net \<Rightarrow> ('x, 'm) net option" where
  "remainder os od hp s (On_Recv data) w = OnRecvComplete os od hp s data w"
| "remainder os od hp s On_Parse w = recv_loop os od hp s w"
| "remainder os od hp s (On_Packet pkt) w = do {
     (handled, w) \<leftarrow> hp s pkt w;
     if \<not> handled then Close od s w
     else do {
       x \<leftarrow> heap w s;
       if closing x then Some w else recv_loop os od hp s w
     }
   }"
| "remainder os od hp s On_Check w = do {
     x \<leftarrow> heap w s;
     if closing x then Some w else recv_loop os od hp s w
   }"
| "remainder os od hp s On_Post w = PostRecv os od s w"
| "remainder os od hp s On_Sent w = OnSendComplete os od s w"
| "remainder os od hp s On_Close w = Close od s w"
| "remainder os od hp s On_Release w = Some w"

lemma remainder_step:
  assumes "worker_step os od hp s d w = Some (Some d', w1)"
  shows "remainder os od hp s d w = remainder os od hp s d' w1"
proof (cases "d = On_Parse")
  case True
  then show ?thesis
    using assms
    by (auto simp: worker_step_def recv_loop.simps [of os od hp s w] Let_def split: if_splits bind_splits prod.splits)
qed (use assms in \<open>cases d; auto simp: worker_step_def OnRecvComplete_def split: if_splits bind_splits\<close>)

lemma worker_step_None:
  "worker_step os od hp s d w = Some (None, w') \<longleftrightarrow> d = On_Release \<and> Release s w = Some w'"
  by (cases d) (auto simp: worker_step_def Let_def split: if_splits bind_splits prod.splits)

lemma worker_run_remainder:
  "worker_run os od hp s d w w' \<Longrightarrow> do { w \<leftarrow> remainder os od hp s d w; Release s w } = Some w'"
  by (induction rule: worker_run.induct) (auto simp: worker_step_None remainder_step)

lemma worker_run_release: "Release s w = Some w' \<Longrightarrow> worker_run os od hp s On_Release w w'"
  by (rule worker_run.finished) (simp add: worker_step_None)

lemma worker_run_loop:
  "recv_loop os od hp s w = Some w1 \<Longrightarrow> Release s w1 = Some w' \<Longrightarrow> worker_run os od hp s On_Parse w w'"
proof (rule recv_loop.raw_induct
    [where P = "\<lambda>os od hp s w w1. \<forall>w'. Release s w1 = Some w' \<longrightarrow> worker_run os od hp s On_Parse w w'", rule_format])
  fix loop os od hp s w w1 w'
  assume IH: "\<And>os od hp s w w1 w'. loop os od hp s w = Some w1 \<Longrightarrow> Release s w1 = Some w' \<Longrightarrow>
      worker_run os od hp s On_Parse w w'"
    and step: "(do {
     x \<leftarrow> heap w s;
     let (result, stream, pkt) = TryGetPacket (recvStream x) Packet_new;
     w \<leftarrow> on_session s (\<lambda>x. x\<lparr>recvStream := stream\<rparr>) w;
     if result = Incomplete then PostRecv os od s w
     else if result \<noteq> Success then Close od s w
     else do {
       (handled, w) \<leftarrow> hp s pkt w;
       if \<not> handled then Close od s w
       else do {
         x \<leftarrow> heap w s;
         if closing x then Some w else loop os od hp s w
       }
     }
   }) = Some w1"
    and release: "Release s w1 = Some w'"
  note last = worker_run_release [OF release]
  obtain x v result stream pkt where x: "heap w s = Some x"
    and t: "TryGetPacket (recvStream x) Packet_new = (result, stream, pkt)"
    and v: "on_session s (\<lambda>x. x\<lparr>recvStream := stream\<rparr>) w = Some v"
    using step by (auto simp: Let_def split: prod.splits bind_splits)
  note parse = worker_run.next_duty [of os od hp s On_Parse w _ v w']
  show "worker_run os od hp s On_Parse w w'"
  proof (cases "result = Success")
    case False
    have "worker_run os od hp s (if result = Incomplete then On_Post else On_Close) v w'"
      using step x t v False by (intro worker_run.next_duty [OF _ last]) (auto simp: worker_step_def split: if_splits)
    then show ?thesis
      by (rule parse [rotated]) (use x t v False in \<open>simp add: worker_step_def\<close>)
  next
    case True
    then obtain handled w2 where w2: "hp s pkt v = Some (handled, w2)"
      using step x t v by (auto split: bind_splits)
    have "worker_run os od hp s (if handled then On_Check else On_Close) w2 w'"
    proof (cases "\<exists>y. handled \<and> heap w2 s = Some y \<and> \<not> closing y")
      case False
      then show ?thesis
        using step x t v w2 True
        by (intro worker_run.next_duty [OF _ last]) (auto simp: worker_step_def split: if_splits bind_splits)
    next
      case go: True
      then have "loop os od hp s w2 = Some w1"
        using step x t v w2 True by auto
      from worker_run.next_duty [OF _ IH [OF this release], of On_Check w2] go show ?thesis
        by (auto simp: worker_step_def)
    qed
    then have "worker_run os od hp s (On_Packet pkt) v w'"
      by (rule worker_run.next_duty [rotated]) (simp add: worker_step_def w2)
    then show ?thesis
      by (rule parse [rotated]) (use x t v True in \<open>simp add: worker_step_def\<close>)
  qed
qed simp_all

text \<open>The steps of a completion, run through, do what the worker loop does in one go.\<close>

lemma remainder_worker_run:
  assumes "remainder os od hp s d w = Some w1" and "Release s w1 = Some w'"
  shows "worker_run os od hp s d w w'"
proof -
  note last = worker_run_release [OF assms(2)]
  have check: "worker_run os od hp s On_Check v w'" if run: "remainder os od hp s On_Check v = Some w1" for v
  proof -
    obtain x where x: "heap v s = Some x"
      using run by (auto split: bind_splits)
    have "worker_run os od hp s (if closing x then On_Release else On_Parse) v w'"
      using run x last worker_run_loop [OF _ assms(2)] by auto
    then show ?thesis
      by (rule worker_run.next_duty [rotated]) (simp add: worker_step_def x)
  qed
  have direct: "worker_run os od hp s d v w'" if "worker_step os od hp s d v = Some (Some On_Release, w1)" for d v
    using that last by (rule worker_run.next_duty)
  show ?thesis
  proof (cases d)
    case (On_Recv data)
    then obtain x where x: "heap w s = Some x"
      using assms(1) by (auto simp: OnRecvComplete_def)
    show ?thesis
    proof (cases "closing x")
      case True
      then show ?thesis
        using assms(1) x On_Recv by (intro direct) (simp add: OnRecvComplete_def worker_step_def)
    next
      case False
      obtain v where v: "on_session s (\<lambda>x. x\<lparr>recvStream := recvStream x @ data\<rparr>) w = Some v" "recv_loop os od hp s v = Some w1"
        using assms(1) x False On_Recv by (auto simp: OnRecvComplete_def split: bind_splits)
      show ?thesis
        by (rule worker_run.next_duty [OF _ worker_run_loop [OF v(2) assms(2)]])
          (simp add: worker_step_def On_Recv x False v(1))
    qed
  next
    case (On_Packet pkt)
    then obtain handled v where v: "hp s pkt w = Some (handled, v)"
      "if handled then remainder os od hp s On_Check v = Some w1 else Close od s v = Some w1"
      using assms(1) by (auto split: bind_splits if_splits)
    have "worker_run os od hp s (if handled then On_Check else On_Close) v w'"
      using v(2) by (cases handled) (simp_all add: check direct worker_step_def del: remainder.simps)
    then show ?thesis
      by (rule worker_run.next_duty [rotated]) (simp add: worker_step_def On_Packet v(1))
  qed (use assms check direct last worker_run_loop in \<open>simp_all add: worker_step_def\<close>)
qed

lemma worker_run_iff:
  "worker_run os od hp s d w w' \<longleftrightarrow> do { w \<leftarrow> remainder os od hp s d w; Release s w } = Some w'"
proof
  assume "do { w \<leftarrow> remainder os od hp s d w; Release s w } = Some w'"
  then show "worker_run os od hp s d w w'"
    by (auto split: bind_splits intro: remainder_worker_run)
qed (rule worker_run_remainder)

lemma worker_round_run:
  assumes "pending w ! i = (s, c)"
  shows "worker_round os od hp i success bytes w = Some w' \<longleftrightarrow>
    worker_run os od hp s (first_duty (ioType c) success bytes)
      (w\<lparr>pending := take i (pending w) @ drop (Suc i) (pending w)\<rparr>) w'"
  unfolding worker_run_iff using assms by (cases "ioType c") (simp_all add: worker_round_def first_duty_def Let_def)

subsection \<open>The invariant while workers are at work\<close>

text \<open>
  A worker holds a reference to its session until it releases it. Until then a worker on a send has
  not handed over the queue's next buffer, and a worker on a receive has not posted the next one.
\<close>

definition at_work :: "IOType \<Rightarrow> sref \<Rightarrow> worker list \<Rightarrow> nat" where
  "at_work ty s ws = length (filter (\<lambda>(t, u, d). t = s \<and> u = ty \<and> d \<noteq> On_Release) ws)"

definition held_by :: "worker list \<Rightarrow> sref \<Rightarrow> holding" where
  "held_by ws s = (length (filter (\<lambda>x. fst x = s) ws), 0 < at_work SEND s ws, 0 < at_work RECV s ws)"

text \<open>The duties of a receive and of a send; a session has at most one worker on each.\<close>

fun fits :: "IOType \<Rightarrow> duty \<Rightarrow> bool" where
  "fits ty On_Sent = (ty = SEND)"
| "fits ty On_Close = True"
| "fits ty On_Release = True"
| "fits ty d = (ty = RECV)"

definition workers_ok :: "worker list \<Rightarrow> ('x, 'm) net \<Rightarrow> bool" where
  "workers_ok ws w \<longleftrightarrow> held_ok (held_by ws) w \<and> (\<forall>(s, ty, d)\<in>set ws. fits ty d)
     \<and> (\<forall>s ty. live w s \<noteq> None \<longrightarrow> at_work ty s ws \<le> 1)"

definition closed_stays :: "('x, 'm) net \<Rightarrow> ('x, 'm) net \<Rightarrow> bool" where
  "closed_stays w w' \<longleftrightarrow> (\<forall>t. live w t = None \<longrightarrow> live w' t = None)"

definition resume :: "sref \<Rightarrow> IOType \<Rightarrow> duty option \<Rightarrow> worker list" where
  "resume s ty d' = (case d' of None \<Rightarrow> [] | Some d \<Rightarrow> [(s, ty, d)])"

lemma at_work_simps [simp]:
  "at_work ty s [] = 0"
  "at_work ty s (x # ws) = (if fst x = s \<and> fst (snd x) = ty \<and> snd (snd x) \<noteq> On_Release then Suc (at_work ty s ws) else at_work ty s ws)"
  "at_work ty s (ws @ vs) = at_work ty s ws + at_work ty s vs"
  by (auto simp: at_work_def split: prod.splits)

lemma held_by_split:
  "held_by (xs @ ys) s = (h, f, r) \<Longrightarrow>
     held_by (xs @ (s, ty, d) # ys) s = (Suc h, f \<or> ty = SEND \<and> d \<noteq> On_Release, r \<or> ty = RECV \<and> d \<noteq> On_Release)"
  "t \<noteq> s \<Longrightarrow> held_by (xs @ (s, ty, d) # ys) t = held_by (xs @ ys) t"
  by (auto simp: held_by_def)

lemma held_by_new:
  "held_by ws s = (h, f, r) \<Longrightarrow> d \<noteq> On_Release \<Longrightarrow> held_by (ws @ [(s, ty, d)]) s = (Suc h, f \<or> ty = SEND, r \<or> ty = RECV)"
  "t \<noteq> s \<Longrightarrow> held_by (ws @ [(s, ty, d)]) t = held_by ws t"
  by (auto simp: held_by_def)

lemma workers_okD:
  assumes "workers_ok ws w"
  shows "held_ok (held_by ws) w" and "(s, ty, d) \<in> set ws \<Longrightarrow> fits ty d"
    and "live w s \<noteq> None \<Longrightarrow> at_work ty s ws \<le> 1"
  using assms unfolding workers_ok_def by blast+

lemma workers_ok_other:
  assumes "workers_ok ws w" and "held_ok (held_by ws) w'"
    and "\<And>t. live w' t \<noteq> None \<Longrightarrow> live w t \<noteq> None \<or> heap w t = None"
  shows "workers_ok ws w'"
proof -
  have "at_work ty t ws = 0" if "heap w t = None" for t ty
  proof -
    have "length (filter (\<lambda>x. fst x = t) ws) = 0"
      using held_ok_view [OF workers_okD(1) [OF assms(1)], of t] that by (auto simp: held_by_def ok_def view_def)
    then show ?thesis
      by (auto simp: at_work_def filter_empty_conv)
  qed
  then have "live w' t \<noteq> None \<Longrightarrow> at_work ty t ws \<le> 1" for t ty
    using assms(3) [of t] workers_okD(3) [OF assms(1), of t ty] by fastforce
  with assms show ?thesis
    unfolding workers_ok_def by blast
qed

text \<open>A worker takes a completion.\<close>

lemma first_duty_fits: "fits ty (first_duty ty success bytes)" "first_duty ty success bytes \<noteq> On_Release"
  by (cases ty; simp add: first_duty_def)+

lemma take_ok:
  assumes "workers_ok ws w" and "i < length (pending w)" and "pending w ! i = (s, c)"
    and "fits (ioType c) d" and "d \<noteq> On_Release"
  defines "w1 \<equiv> w\<lparr>pending := take i (pending w) @ drop (Suc i) (pending w)\<rparr>"
  shows "workers_ok (ws @ [(s, ioType c, d)]) w1" and "live w1 = live w" and "app w1 = app w"
proof -
  obtain h f r where H: "held_by ws s = (h, f, r)"
    by (cases "held_by ws s")
  have ok: "ok h f r (view s w)"
    using held_ok_view [OF workers_okD(1) [OF assms(1)], of s] H by simp
  note t = take_operation [OF ok assms(2,3), folded w1_def]
  show lv: "live w1 = live w" and "app w1 = app w"
    using t(4,5) by simp_all
  have held: "held_ok (held_by (ws @ [(s, ioType c, d)])) w1"
    by (rule held_ok_only [OF workers_okD(1) [OF assms(1)] t(1)])
      (use t(2) held_by_new(1) [OF H assms(5)] held_by_new(2) in simp_all)
  have free: "at_work (ioType c) s ws = 0" if opened: "live w s \<noteq> None"
  proof -
    obtain x where x: "heap w s = Some x" "\<not> closing x"
      using opened by (auto simp: live_def split: option.splits if_splits)
    have "c \<in> set (map snd (filter (\<lambda>p. fst p = s) (pending w)))"
      using assms(2,3) by (force simp: in_set_conv_nth)
    with ok x have "if ioType c = SEND then \<not> f else \<not> r"
      by (cases "ioType c")
        (auto simp: ok_def view_def sends_def recvs_def filter_empty_conv split: if_splits)
    with H show ?thesis
      by (cases "ioType c") (simp_all add: held_by_def)
  qed
  then show "workers_ok (ws @ [(s, ioType c, d)]) w1"
    unfolding workers_ok_def
  proof (intro conjI allI impI)
    show "\<forall>(t, ty, e)\<in>set (ws @ [(s, ioType c, d)]). fits ty e"
      using workers_okD(2) [OF assms(1)] assms(4) by auto
    fix t ty assume "live w1 t \<noteq> None"
    then show "at_work ty t (ws @ [(s, ioType c, d)]) \<le> 1"
      using free workers_okD(3) [OF assms(1), of t ty] lv by auto
  qed (rule held)
qed

context packet_effect begin

lemma worker_step_quiet_R:
  assumes "worker_step os od hp s d w = Some (d', w')" and "\<And>data. d \<noteq> On_Recv data"
  shows "R w w'"
proof (cases "d = On_Parse")
  case True
  then obtain x result stream pkt where "heap w s = Some x" and t: "TryGetPacket (recvStream x) Packet_new = (result, stream, pkt)"
    and "on_session s (\<lambda>x. x\<lparr>recvStream := stream\<rparr>) w = Some w'"
    using assms(1) by (auto simp: worker_step_def Let_def split: prod.splits bind_splits)
  then show ?thesis
    using TryGetPacket_shrinks [OF t] by (intro R_untouched) (auto simp: on_session_def)
qed (use assms in \<open>cases d; auto simp: worker_step_def R_refl
    dest: hp_R PostRecv_R OnSendComplete_R Close_R R_untouched [OF Release_untouched] split: bind_splits\<close>)

end

context handler_effect begin

lemma worker_step_R:
  assumes "worker_step os od hp s d w = Some (d', w')"
  shows "R w w'"
proof (cases "\<exists>data. d = On_Recv data")
  case True
  then show ?thesis
    using assms by (auto simp: worker_step_def R_refl dest: append_R split: if_splits bind_splits)
qed (use worker_step_quiet_R [OF assms] in blast)

end

text \<open>What a worker needs of the callbacks.\<close>

locale worker_callbacks = late_handler od I hp A + effect: handler_effect od closed_stays hp
  for od :: "sref \<Rightarrow> ('x, 'm) net \<Rightarrow> ('x, 'm) net option"
    and I :: "(sref \<Rightarrow> 'x option) \<Rightarrow> 'm \<Rightarrow> bool"
    and hp :: "sref \<Rightarrow> Packet \<Rightarrow> ('x, 'm) net \<Rightarrow> (bool \<times> ('x, 'm) net) option"
    and A :: "('x, 'm) net \<Rightarrow> bool"
begin

text \<open>One session's share: \<open>h\<close>, \<open>f\<close> and \<open>r\<close> stand for the other workers on it.\<close>

lemma worker_step_view:
  assumes "ok (Suc h) (f \<or> ty = SEND \<and> d \<noteq> On_Release) (r \<or> ty = RECV \<and> d \<noteq> On_Release) (view s w)"
    and "fits ty d" and "I (live w) (app w)" and "A w"
    and "live w s \<noteq> None \<Longrightarrow> d \<noteq> On_Release \<Longrightarrow> (if ty = SEND then \<not> f else \<not> r)"
  shows "\<exists>d' w'. worker_step os od hp s d w = Some (d', w') \<and> only s w w' \<and> I (live w') (app w')
    \<and> (case d' of None \<Rightarrow> ok h f r (view s w')
      | Some e \<Rightarrow> fits ty e \<and> ok (Suc h) (f \<or> ty = SEND \<and> e \<noteq> On_Release) (r \<or> ty = RECV \<and> e \<noteq> On_Release) (view s w'))"
proof -
  obtain x where x: "heap w s = Some x"
    using assms(1) by (cases "heap w s") (auto simp: ok_def view_def)
  then have mem: "heap w s \<noteq> None"
    by simp
  have closed: "ok (Suc h) f' r' (view s w)" if "closing x" for f' r'
    using assms(1) x that by (simp add: ok_def view_def)
  have lv: "live w s \<noteq> None \<longleftrightarrow> \<not> closing x"
    using x by (simp add: live_def)
  show ?thesis
  proof (cases d)
    case (On_Recv data)
    then have ty: "ty = RECV" and ok: "ok (Suc h) f True (view s w)"
      using assms(1,2) by simp_all
    show ?thesis
    proof (cases "closing x")
      case True
      then show ?thesis
        using x On_Recv closed assms(3) by (simp add: worker_step_def)
    next
      case False
      have "ok (Suc h) f True (view s (w\<lparr>heap := (heap w)(s \<mapsto> x\<lparr>recvStream := recvStream x @ data\<rparr>)\<rparr>))"
        using ok x False by (simp add: ok_def view_def)
      moreover have "live (w\<lparr>heap := (heap w)(s \<mapsto> x\<lparr>recvStream := recvStream x @ data\<rparr>)\<rparr>) = live w"
        using x by (simp add: live_def fun_eq_iff)
      ultimately show ?thesis
        using x On_Recv False assms(3) ty by (simp add: worker_step_def on_session_def only_def view_def)
    qed
  next
    case On_Parse
    then have ty: "ty = RECV" and ok: "ok (Suc h) f True (view s w)"
      using assms(1,2) by simp_all
    obtain result stream pkt where t: "TryGetPacket (recvStream x) Packet_new = (result, stream, pkt)"
      by (cases "TryGetPacket (recvStream x) Packet_new") auto
    have "closing x \<Longrightarrow> stream = []"
      using ok x t by (auto simp: ok_def view_def TryGetPacket_def)
    then have "ok (Suc h) f True (view s (w\<lparr>heap := (heap w)(s \<mapsto> x\<lparr>recvStream := stream\<rparr>)\<rparr>))"
      using ok x by (simp add: ok_def view_def)
    moreover have "live (w\<lparr>heap := (heap w)(s \<mapsto> x\<lparr>recvStream := stream\<rparr>)\<rparr>) = live w"
      using x by (simp add: live_def fun_eq_iff)
    ultimately show ?thesis
      using x On_Parse t assms(3) ty by (simp add: worker_step_def on_session_def only_def view_def)
  next
    case (On_Packet pkt)
    then have ty: "ty = RECV" and ok: "ok (Suc h) f True (view s w)"
      using assms(1,2) by simp_all
    show ?thesis
      using hp_ok [OF ok _ assms(3) x, of pkt] hp_late [OF ok _ assms(3,4) x, of pkt] On_Packet ty
      by (cases "closing x") (fastforce simp: worker_step_def)+
  next
    case On_Check
    then show ?thesis
      using x closed assms(1-3) by (auto simp: worker_step_def)
  next
    case On_Post
    then have ty: "ty = RECV" and ok: "ok (Suc h) f True (view s w)"
      using assms(1,2) by simp_all
    obtain w' where w': "PostRecv os od s w = Some w'" "only s w w'" "ok (Suc h) f False (view s w')" "I (live w') (app w')"
      using PostRecv_ok [OF ok assms(3) mem] by blast
    have "ok (Suc h) f r (view s w')"
    proof (cases "closing x")
      case True
      then have "w' = w"
        using w'(1) x by (simp add: PostRecv_def)
      with closed True show ?thesis
        by simp
    qed (use w'(3) assms(5) On_Post ty lv in simp)
    with w' show ?thesis
      using On_Post by (simp add: worker_step_def)
  next
    case On_Sent
    then have ty: "ty = SEND" and ok: "ok (Suc h) True r (view s w)"
      using assms(1,2) by simp_all
    obtain w' where w': "OnSendComplete os od s w = Some w'" "only s w w'" "ok (Suc h) False r (view s w')" "I (live w') (app w')"
      using OnSendComplete_ok [OF ok assms(3) mem] by blast
    have "ok (Suc h) f r (view s w')"
    proof (cases "closing x")
      case True
      then have "\<exists>x'. heap w' s = Some x' \<and> closing x'"
        using w'(1) x by (auto simp: OnSendComplete_def on_session_def)
      with w'(3) show ?thesis
        by (auto simp: ok_def view_def)
    qed (use w'(3) assms(5) On_Sent ty lv in simp)
    with w' show ?thesis
      using On_Sent by (simp add: worker_step_def)
  next
    case On_Close
    from Close_ok [OF ok_closable [OF assms(1)] assms(3) mem, of f r] show ?thesis
      using On_Close by (auto simp: worker_step_def)
  next
    case On_Release
    then have "ok (Suc h) f r (view s w)"
      using assms(1) by simp
    from Release_ok [OF this] show ?thesis
      using On_Release assms(3) by (auto simp: worker_step_def)
  qed
qed

lemma worker_step_ok:
  assumes "workers_ok (xs @ (s, ty, d) # ys) w" and "I (live w) (app w)" and "A w"
  shows "\<exists>d' w'. worker_step os od hp s d w = Some (d', w') \<and> workers_ok (xs @ resume s ty d' @ ys) w'
    \<and> I (live w') (app w')"
proof -
  note ws = workers_okD [OF assms(1)]
  obtain h f r where H: "held_by (xs @ ys) s = (h, f, r)"
    by (cases "held_by (xs @ ys) s")
  have ok: "ok (Suc h) (f \<or> ty = SEND \<and> d \<noteq> On_Release) (r \<or> ty = RECV \<and> d \<noteq> On_Release) (view s w)"
    using held_ok_view [OF ws(1), of s] held_by_split(1) [OF H, of ty d] by simp
  have fit: "fits ty d"
    using ws(2) [of s ty d] by simp
  have alone: "at_work ty s (xs @ ys) = 0" if "live w s \<noteq> None" "d \<noteq> On_Release"
    using ws(3) [OF that(1), of ty] that(2) by simp
  then have free: "if ty = SEND then \<not> f else \<not> r" if "live w s \<noteq> None" "d \<noteq> On_Release"
    using that H by (cases ty) (auto simp: held_by_def)
  from worker_step_view [OF ok fit assms(2,3) free]
  obtain d' w' where step: "worker_step os od hp s d w = Some (d', w')" "only s w w'" "I (live w') (app w')"
    and ok': "case d' of None \<Rightarrow> ok h f r (view s w')
      | Some e \<Rightarrow> fits ty e \<and> ok (Suc h) (f \<or> ty = SEND \<and> e \<noteq> On_Release) (r \<or> ty = RECV \<and> e \<noteq> On_Release) (view s w')"
    by blast
  have "closed_stays w w'"
    using effect.worker_step_R [OF step(1)] .
  then have lv: "live w' t \<noteq> None \<Longrightarrow> live w t \<noteq> None" for t
    by (auto simp: closed_stays_def)
  have "workers_ok (xs @ resume s ty d' @ ys) w'"
    unfolding workers_ok_def
  proof (intro conjI allI impI)
    show "held_ok (held_by (xs @ resume s ty d' @ ys)) w'"
      by (rule held_ok_only [OF ws(1) step(2)])
        (use ok' H held_by_split in \<open>simp_all add: resume_def split: option.splits\<close>)
    show "\<forall>(t, u, e)\<in>set (xs @ resume s ty d' @ ys). fits u e"
      using ws(2) ok' by (auto simp: resume_def split: option.splits)
    fix t u assume t: "live w' t \<noteq> None"
    have "at_work u t (xs @ resume s ty d' @ ys) \<le> at_work u t (xs @ (s, ty, d) # ys)" if "d \<noteq> On_Release \<or> d' = None"
      using that by (auto simp: resume_def split: option.splits)
    moreover have "d \<noteq> On_Release \<or> d' = None"
      using step(1) by (auto simp: worker_step_def split: bind_splits)
    ultimately show "at_work u t (xs @ resume s ty d' @ ys) \<le> 1"
      using ws(3) [OF lv [OF t], of u] by linarith
  qed
  with step show ?thesis
    by blast
qed

end

end
