(* ===== verification/Process.thy ===== *)
theory Process
  imports Jobs Workers
begin

text \<open>
  The server with all its threads: the accept thread, the workers between two steps of a completion
  (\<open>Workers\<close>), and the game loop between two jobs (\<open>Jobs\<close>), interleaved in any order. The
  invariant: the sessions are well-formed with the references that the workers hold, and the room
  and the open sessions refer to each other as in \<open>ServerInv\<close>.
\<close>

subsection \<open>The process\<close>

text \<open>
  A state is the world, what the game loop has left to do of its round, and the busy workers.
  \<open>StopGameLoop\<close> and \<open>Stop\<close> wait for the loop and the workers to end.
\<close>

type_synonym process = "server \<times> job list \<times> worker list"

definition take_pending :: "nat \<Rightarrow> server \<Rightarrow> server" where
  "take_pending i w = w\<lparr>pending := take i (pending w) @ drop (Suc i) (pending w)\<rparr>"

inductive pstep :: "os_api \<Rightarrow> proto_api \<Rightarrow> process \<Rightarrow> process \<Rightarrow> bool" for os P where
  accept: "enabled (Accept client) w \<Longrightarrow> exec os P (Accept client) w = Some w'
    \<Longrightarrow> pstep os P (w, js, ws) (w', js, ws)"
| complete: "length ws < workers w \<Longrightarrow> i < length (pending w) \<Longrightarrow> pending w ! i = (s, c)
    \<Longrightarrow> ioType c = RECV \<longrightarrow> length bytes \<le> RECV_POST_SIZE
    \<Longrightarrow> pstep os P (w, js, ws) (take_pending i w, js, ws @ [(s, ioType c, first_duty (ioType c) success bytes)])"
| work: "k < length ws \<Longrightarrow> ws ! k = (s, ty, d)
    \<Longrightarrow> worker_step os OnDisconnected (HandlePacket os P) s d w = Some (d', w')
    \<Longrightarrow> pstep os P (w, js, ws) (w', js, take k ws @ resume s ty d' @ drop (Suc k) ws)"
| round: "loopRunning (app w) \<Longrightarrow> pstep os P (w, [], ws) (w, [Job_Drain, Job_Tick], ws)"
| job: "job_step os P j w = Some (js', w') \<Longrightarrow> pstep os P (w, j # js, ws) (w', js' @ js, ws)"
| shutdown: "exec os P Shutdown w = Some w' \<Longrightarrow> pstep os P (w, [], []) (w', [], [])"

code_pred pstep .

inductive_cases pstepE: "pstep os P (w, js, ws) st"

subsection \<open>What the room does to sessions and players\<close>

text \<open>
  The room reaches sessions only through \<open>EnqueueSend\<close>, and never frees a player; so a relation
  that the callbacks respect and that holds when the room alone changes is respected by every job.
\<close>

locale job_effect = callback_effect OnDisconnected R
  for R :: "server \<Rightarrow> server \<Rightarrow> bool" +
  assumes room_R: "dom (store (app w)) \<subseteq> dom (store r) \<Longrightarrow> R w (w\<lparr>app := r\<rparr>)"
begin

lemma put_player_R: "R w (put_player p pl w)"
  unfolding put_player_def by (rule room_R) auto

lemma HandlePacket_R:
  assumes "HandlePacket os P s pkt w = Some (b, w')"
  shows "R w w'"
  using assms
  by (rule HandlePacket_effect) (auto simp: R_refl PostTask_def put_player_R intro: room_R dest: EnqueueSend_packet_R)

sublocale handles: packet_effect OnDisconnected R "HandlePacket os P" for os P
  by unfold_locales (rule HandlePacket_R)

lemma RoomSend_R: "RoomSend os p buf w = Some w' \<Longrightarrow> R w w'"
  by (auto simp: RoomSend_def R_refl dest: EnqueueSend_R split: option.splits bind_splits)

lemma task_step_R: "task_step P t w = Some (js, w') \<Longrightarrow> R w w'"
  by (auto simp: task_step_def Enter_def Let_def R_refl put_player_R intro: room_R
      split: task.splits option.splits bind_splits if_splits)

lemma job_step_R: "job_step os P j w = Some (js, w') \<Longrightarrow> R w w'"
  by (cases j) (auto simp: job_step_def R_refl put_player_R intro: room_R dest: RoomSend_R task_step_R
      split: bind_splits prod.splits)

end

locale process_effect = job_effect +
  assumes append_R: "on_session s (\<lambda>x. x\<lparr>recvStream := recvStream x @ data\<rparr>) w = Some w' \<Longrightarrow> R w w'"
begin

sublocale receives: handler_effect OnDisconnected R "HandlePacket os P" for os P
  by unfold_locales (rule append_R)

end

lemma closed_stays_untouched: "untouched w w' \<Longrightarrow> closed_stays w w'"
  by (fastforce simp: untouched_def closed_stays_def same_fields_def live_def split: option.splits if_splits)

lemma OnDisconnected_heap_same: "OnDisconnected s w = Some w' \<Longrightarrow> heap w' = heap w"
  by (auto simp: OnDisconnected_def PostTask_def put_player_def split: option.splits bind_splits)

interpretation stays_closed: process_effect closed_stays
proof unfold_locales
  show "closed_stays w w'" if "OnDisconnected s w = Some w'" for s w w'
    using OnDisconnected_heap_same [OF that] by (simp add: closed_stays_def live_def)
  show "closed_stays w w'" if "on_session s (\<lambda>x. x\<lparr>recvStream := recvStream x @ data\<rparr>) w = Some w'" for s data w w'
    using that by (auto simp: on_session_def closed_stays_def live_def split: option.splits if_splits)
qed (auto simp: closed_stays_untouched, auto simp: closed_stays_def)

text \<open>Players stay in memory, and so do those of the sessions.\<close>

definition keeps_players :: "server \<Rightarrow> server \<Rightarrow> bool" where
  "keeps_players w w' \<longleftrightarrow> dom (store (app w)) \<subseteq> dom (store (app w')) \<and> (players_stored w \<longrightarrow> players_stored w')"

lemma keeps_playersI:
  assumes "dom (store (app w)) \<subseteq> dom (store (app w'))"
    and "\<And>s x p. heap w' s = Some x \<Longrightarrow> csPlayer x = Some p \<Longrightarrow>
      p \<in> dom (store (app w')) \<or> (\<exists>y. heap w s = Some y \<and> csPlayer y = Some p)"
  shows "keeps_players w w'"
  unfolding keeps_players_def players_stored_def using assms by blast

lemma OnDisconnected_keeps: "OnDisconnected s w = Some w' \<Longrightarrow> keeps_players w w'"
  by (rule keeps_playersI) (auto simp: OnDisconnected_def PostTask_def put_player_def split: option.splits bind_splits)

lemma OnConnected_keeps: "OnConnected s w = Some w' \<Longrightarrow> keeps_players w w'"
  by (rule keeps_playersI) (auto simp: OnConnected_def PostTask_def put_player_def on_session_def Let_def
      split: option.splits bind_splits if_splits)

lemma fields_csPlayer: "Session.more x = Session.more y \<Longrightarrow> csPlayer x = csPlayer y"
  for x y :: "unit ClientSession_ext Session_scheme"
  by (simp add: more_csPlayer)

interpretation keeps: process_effect keeps_players
proof unfold_locales
  show "keeps_players w w'" if "untouched w w'" for w w'
    using that by (intro keeps_playersI) (fastforce simp: untouched_def same_fields_def dest: fields_csPlayer)+
  show "keeps_players w (w\<lparr>app := r\<rparr>)" if "dom (store (app w)) \<subseteq> dom (store r)" for w r
    using that by (intro keeps_playersI) auto
  show "keeps_players w v" if "keeps_players w u" "keeps_players u v" for w u v
    using that by (auto simp: keeps_players_def)
  show "keeps_players w w'" if "on_session s (\<lambda>x. x\<lparr>recvStream := recvStream x @ data\<rparr>) w = Some w'" for s data w w'
    using that by (intro keeps_playersI) (auto simp: on_session_def split: option.splits if_splits)
qed (rule OnDisconnected_keeps)

interpretation keeps_connect: connect_effect OnDisconnected keeps_players OnConnected "ClientSession.fields None"
proof unfold_locales
  show "keeps_players w (w\<lparr>heap := (heap w)(a \<mapsto> Session_new (ClientSession.fields None))\<rparr>)" for w a
    by (rule keeps_playersI) (auto simp: Session_new_def ClientSession.fields_def split: if_splits)
qed (rule OnConnected_keeps)

interpretation working: worker_callbacks OnDisconnected "server_inv m L Q P D" "HandlePacket os P" players_stored
  for m L Q P D os
  by (intro worker_callbacks.intro late.late_handler_axioms stays_closed.receives.handler_effect_axioms)

subsection \<open>The invariant of the process\<close>

definition process_ok :: "tilemap \<Rightarrow> (f32 \<Rightarrow> f32 \<Rightarrow> bool) \<Rightarrow> (PhysicsState \<Rightarrow> bool) \<Rightarrow> proto_api \<Rightarrow> process \<Rightarrow> bool" where
  "process_ok m L Q P st = (case st of (w, js, ws) \<Rightarrow>
     workers_ok ws w \<and> server_inv m L Q P (dom (store (app w))) (live w) (app w) \<and> players_stored w
     \<and> (\<forall>j\<in>set js. job_ok L (dom (store (app w))) j))"

lemma process_okD:
  assumes "process_ok m L Q P (w, js, ws)"
  shows "workers_ok ws w" and "safe_at (held_by ws) m L Q P (dom (store (app w))) w" and "players_stored w"
    and "j \<in> set js \<Longrightarrow> job_ok L (dom (store (app w))) j"
  using assms workers_okD(1) by (auto simp: process_ok_def safe_at_def)

lemma process_okI:
  assumes "workers_ok ws w" and "safe_at H m L Q P D w" and "players_stored w" and "\<And>j. j \<in> set js \<Longrightarrow> job_ok L D j"
  shows "process_ok m L Q P (w, js, ws)"
proof -
  have "D \<subseteq> dom (store (app w))"
    using room_invD(2) [OF safe_room [OF assms(2)]] .
  then show ?thesis
    using assms(1,3) safe_dom [OF assms(2)] job_ok_mono [OF assms(4)] by (simp add: process_ok_def safe_at_def)
qed

lemma held_by_Nil: "held_by [] = (\<lambda>_. idle)"
  by (simp add: held_by_def idle_def fun_eq_iff)

lemma held_by_absent:
  assumes "held_ok (held_by ws) w" and "heap w a = None"
  shows "held_by ws a = idle"
proof -
  have "filter (\<lambda>x. fst x = a) ws = []"
    using held_ok_view [OF assms(1), of a] assms(2) by (auto simp: held_by_def ok_def view_def)
  then show ?thesis
    by (auto simp: held_by_def idle_def at_work_def filter_empty_conv)
qed

lemma accept_process:
  assumes "process_ok m L Q P (w, js, ws)" and "enabled (Accept client) w"
  shows "\<exists>w'. exec os P (Accept client) w = Some w' \<and> process_ok m L Q P (w', js, ws)"
proof -
  note p = process_okD [OF assms(1)]
  from accept_ok [OF p(2) assms(2) held_by_absent [OF workers_okD(1) [OF p(1)]], of os]
  obtain w' where w': "exec os P (Accept client) w = Some w'" "safe_at (held_by ws) m L Q P (dom (store (app w))) w'"
    "\<And>t. live w' t \<noteq> None \<Longrightarrow> live w t \<noteq> None \<or> heap w t = None"
    by blast
  have "players_stored w'"
    using keeps_connect.accept_round_R w'(1) p(3) by (fastforce simp: exec_def keeps_players_def)
  moreover have "held_ok (held_by ws) w'"
    using w'(2) by (simp add: safe_at_def)
  from workers_ok_other [OF p(1) this w'(3)] have "workers_ok ws w'" .
  ultimately show ?thesis
    using w'(1,2) p(4) process_okI by blast
qed

lemma complete_process:
  assumes "process_ok m L Q P (w, js, ws)" and "i < length (pending w)" and "pending w ! i = (s, c)"
  shows "process_ok m L Q P (take_pending i w, js, ws @ [(s, ioType c, first_duty (ioType c) success bytes)])"
proof -
  note p = process_okD [OF assms(1)]
  note t = take_ok(1) [OF p(1) assms(2,3) first_duty_fits, of success bytes, folded take_pending_def]
    take_ok(2,3) [OF p(1) assms(2,3) first_duty_fits, folded take_pending_def]
  have "players_stored (take_pending i w)"
    using p(3) by (simp add: players_stored_def take_pending_def)
  with t p(4) assms(1) show ?thesis
    by (simp add: process_ok_def)
qed

lemma work_process:
  assumes "process_ok m L Q P (w, js, ws)" and "k < length ws" and "ws ! k = (s, ty, d)"
  shows "\<exists>d' w'. worker_step os OnDisconnected (HandlePacket os P) s d w = Some (d', w')
    \<and> process_ok m L Q P (w', js, take k ws @ resume s ty d' @ drop (Suc k) ws)"
proof -
  note p = process_okD [OF assms(1)]
  have "ws = take k ws @ (s, ty, d) # drop (Suc k) ws"
    using id_take_nth_drop [OF assms(2)] assms(3) by simp
  with p(1) have "workers_ok (take k ws @ (s, ty, d) # drop (Suc k) ws) w"
    by simp
  moreover have "server_inv m L Q P (dom (store (app w))) (live w) (app w)"
    using p(2) by (simp add: safe_at_def)
  ultimately obtain d' w' where w': "worker_step os OnDisconnected (HandlePacket os P) s d w = Some (d', w')"
    "workers_ok (take k ws @ resume s ty d' @ drop (Suc k) ws) w'"
    "server_inv m L Q P (dom (store (app w))) (live w') (app w')"
    using working.worker_step_ok p(3) by blast
  have "players_stored w'"
    using keeps.receives.worker_step_R [OF w'(1)] p(3) by (simp add: keeps_players_def)
  moreover have "safe_at (held_by (take k ws @ resume s ty d' @ drop (Suc k) ws)) m L Q P (dom (store (app w))) w'"
    using workers_okD(1) [OF w'(2)] w'(3) by (simp add: safe_at_def)
  ultimately show ?thesis
    using w'(1,2) p(4) process_okI by blast
qed

lemma job_process:
  assumes "process_ok m L Q P (w, j # js, ws)"
  shows "\<exists>js' w'. job_step os P j w = Some (js', w') \<and> process_ok m L Q P (w', js' @ js, ws)"
proof -
  note p = process_okD [OF assms]
  obtain js' w' where w': "job_step os P j w = Some (js', w')" "safe_at (held_by ws) m L Q P (dom (store (app w))) w'"
    "\<forall>k\<in>set js'. job_ok L (dom (store (app w))) k"
    using job_step_ok [OF p(2), of j os] p(4) [of j] by auto
  have "players_stored w'"
    using keeps.job_step_R [OF w'(1)] p(3) by (simp add: keeps_players_def)
  moreover have "held_ok (held_by ws) w'" and closed: "live w' t \<noteq> None \<Longrightarrow> live w t \<noteq> None" for t
    using stays_closed.job_step_R [OF w'(1)] w'(2) by (auto simp: safe_at_def closed_stays_def)
  from workers_ok_other [OF p(1) this(1)] closed have "workers_ok ws w'"
    by blast
  moreover have "k \<in> set (js' @ js) \<Longrightarrow> job_ok L (dom (store (app w))) k" for k
    using w'(3) p(4) [of k] by auto
  ultimately show ?thesis
    using w'(1,2) process_okI by blast
qed

lemma Stop_keeps:
  assumes "Stop OnDisconnected w = Some w'"
  shows "keeps_players w w'"
proof (cases "running w")
  case True
  let ?w1 = "w\<lparr>running := False, listening := False\<rparr>"
  obtain w2 where w2: "for_each (Close OnDisconnected) (sessions ?w1) ?w1 = Some w2"
    and w': "heap w' = heap w2" "app w' = app w2"
    using assms True by (auto simp: Stop_def Let_def split: bind_splits)
  from w2 have "keeps_players ?w1 w2"
    by (rule keeps.for_each_R) (rule keeps.Close_R)
  with w' show ?thesis
    by (simp add: keeps_players_def players_stored_def)
qed (use assms in \<open>simp add: Stop_def keeps.R_refl\<close>)

lemma shutdown_process:
  assumes "process_ok m L Q P (w, [], [])"
  shows "\<exists>w'. exec os P Shutdown w = Some w' \<and> process_ok m L Q P (w', [], [])"
proof -
  note p = process_okD [OF assms, unfolded held_by_Nil]
  obtain w' where w': "exec os P Shutdown w = Some w'" "safe m L Q P (dom (store (app w))) w'"
    using exec_ok [OF p(2), of Shutdown os] by (auto simp: enabled_def)
  have "keeps_players w (StopGameLoop w)"
    unfolding StopGameLoop_def by (rule keeps.room_R) simp
  moreover have "keeps_players (StopGameLoop w) w'"
    using w'(1) by (intro Stop_keeps) (simp add: exec_def)
  ultimately have "keeps_players w w'"
    by (rule keeps.R_trans)
  then have "players_stored w'"
    using p(3) by (simp add: keeps_players_def)
  moreover have "workers_ok [] w'"
    using w'(2) by (simp add: workers_ok_def held_by_Nil safe_at_def)
  ultimately show ?thesis
    using w' process_okI by fastforce
qed

lemma pstep_ok: "pstep os P st st' \<Longrightarrow> process_ok m L Q P st \<Longrightarrow> process_ok m L Q P st'"
proof (induction rule: pstep.induct)
  case (accept client w w' js ws)
  from accept_process [OF this(3,1), of os] this(2) show ?case
    by simp
next
  case (complete ws w i s c bytes js success)
  then show ?case
    using complete_process by blast
next
  case (work k ws s ty d w d' w' js)
  from work_process [OF this(4,1,2), of os] this(3) show ?case
    by simp
next
  case (round w ws)
  then show ?case
    by (simp add: process_ok_def)
next
  case (job j w js' w' js ws)
  from job_process [OF this(2), of os] this(1) show ?case
    by simp
next
  case (shutdown w w')
  from shutdown_process [OF this(2), of os] this(1) show ?case
    by simp
qed

lemma psteps_ok: "(pstep os P)\<^sup>*\<^sup>* st st' \<Longrightarrow> process_ok m L Q P st \<Longrightarrow> process_ok m L Q P st'"
  by (induction rule: rtranclp_induct) (auto intro: pstep_ok)

end
