(* ===== verification/Interleaving.thy ===== *)
theory Interleaving
  imports Process
begin

text \<open>
  The sequential process of \<open>Server\<close>, whose steps are whole completions and whole rounds, against
  the interleaved one of \<open>Process\<close>: what nothing interrupts has the same result in both, so every
  state of the sequential process is one of the interleaved process; and every round ends, however
  the threads interleave.
\<close>

subsection \<open>A round without interruption\<close>

inductive job_run :: "os_api \<Rightarrow> proto_api \<Rightarrow> job list \<Rightarrow> server \<Rightarrow> server \<Rightarrow> bool" for os P where
  finished: "job_run os P [] w w"
| next_job: "job_step os P j w = Some (js', w1) \<Longrightarrow> job_run os P (js' @ js) w1 w2 \<Longrightarrow> job_run os P (j # js) w w2"

inductive_cases job_run_NilE [elim!]: "job_run os P [] w w'"
inductive_cases job_run_ConsE: "job_run os P (j # js) w w'"

lemma job_run_append: "job_run os P js w w1 \<Longrightarrow> job_run os P ks w1 w2 \<Longrightarrow> job_run os P (js @ ks) w w2"
  by (induction rule: job_run.induct) (auto intro: job_run.intros)

lemma job_run_one: "job_step os P j w = Some (js, w1) \<Longrightarrow> job_run os P js w1 w2 \<Longrightarrow> job_run os P [j] w w2"
  by (rule job_run.next_job) simp_all

lemma job_run_deterministic: "job_run os P js w w1 \<Longrightarrow> job_run os P js w w2 \<Longrightarrow> w1 = w2"
proof (induction arbitrary: w2 rule: job_run.induct)
  case (next_job j w js' v js u)
  from next_job.prems show ?case
    by (rule job_run_ConsE) (use next_job in simp)
qed auto

lemma job_run_psteps_before: "job_run os P js w w' \<Longrightarrow> (pstep os P)\<^sup>*\<^sup>* (w, js @ ks, ws) (w', ks, ws)"
proof (induction rule: job_run.induct)
  case (next_job j w js' w1 js w2)
  from pstep.job [OF next_job.hyps(1), of "js @ ks" ws] have "pstep os P (w, (j # js) @ ks, ws) (w1, (js' @ js) @ ks, ws)"
    by simp
  with next_job.IH show ?case
    by (rule converse_rtranclp_into_rtranclp [rotated])
qed simp

lemma job_run_psteps: "job_run os P js w w' \<Longrightarrow> (pstep os P)\<^sup>*\<^sup>* (w, js, ws) (w', [], ws)"
  using job_run_psteps_before [of os P js w w' "[]"] by simp

lemma job_run_for_each:
  assumes "\<And>x w w'. x \<in> set xs \<Longrightarrow> f x w = Some w' \<Longrightarrow> job_run os P [g x] w w'"
    and "for_each f xs w = Some w'"
  shows "job_run os P (map g xs) w w'"
  using assms
proof (induction xs arbitrary: w)
  case (Cons x xs)
  then obtain w1 where "f x w = Some w1" and "for_each f xs w1 = Some w'"
    by (auto split: bind_splits)
  then show ?case
    using Cons.IH [of w1] Cons.prems(1) job_run_append [of os P "[g x]" w w1 "map g xs" w'] by simp
qed (simp add: job_run.finished)

lemma job_run_send: "RoomSend os p buf w = Some w' \<Longrightarrow> job_run os P [Job_Send p buf] w w'"
  by (rule job_run_one [OF _ job_run.finished]) (simp add: job_step_def)

lemma for_each_skip:
  "for_each (\<lambda>x w. if c x then Some w else f x w) xs = for_each f (filter (\<lambda>x. \<not> c x) xs)"
proof (induction xs)
  case (Cons x xs)
  then show ?case
    by (intro ext) simp
qed (simp add: fun_eq_iff)

lemma job_run_broadcast:
  "RoomBroadcast os buf except w = Some w' \<Longrightarrow> job_run os P (broadcast_jobs buf except (app w)) w w'"
  unfolding RoomBroadcast_def broadcast_jobs_def for_each_skip
  by (rule job_run_for_each [of _ "\<lambda>p. RoomSend os p buf"]) (simp_all add: job_run_send)

lemma job_run_task: "run_task os P t w = Some w' \<Longrightarrow> job_run os P [Job_Task t] w w'"
proof (cases t)
  case (Task_Leave pid)
  assume run: "run_task os P t w = Some w'"
  show ?thesis
  proof (cases "map_of (players (app w)) pid")
    case None
    with run Task_Leave show ?thesis
      by (intro job_run_one [OF _ job_run.finished]) (simp add: job_step_def task_step_def run_task_def Leave_def)
  next
    case (Some p)
    then obtain buf w1 where buf: "proto_buffer P OP_S_DESPAWN (S_Despawn [pid]) = Some buf"
      and w1: "RoomBroadcast os buf None w = Some w1"
      and w': "w' = w1\<lparr>app := (app w1)\<lparr>players := AList.delete pid (players (app w1))\<rparr>\<rparr>"
      using run Task_Leave by (auto simp: run_task_def Leave_def split: bind_splits)
    have "job_run os P [Job_Erase pid] w1 w'"
      by (rule job_run_one [OF _ job_run.finished]) (simp add: job_step_def w')
    then show ?thesis
      by (intro job_run_one [OF _ job_run_append [OF job_run_broadcast [OF w1]]])
        (simp_all add: job_step_def task_step_def Task_Leave Some buf)
  qed
next
  case (Task_EnterGame p nm)
  assume run: "run_task os P t w = Some w'"
  show ?thesis
  proof (cases "nm = [] \<or> length nm > 20 \<or> (\<exists>pl. store (app w) p = Some pl \<and> entered pl)")
    case True
    with run Task_EnterGame show ?thesis
      by (intro job_run_one [OF _ job_run.finished])
        (auto simp: job_step_def task_step_def run_task_def EnterGame_def split: bind_splits)
  next
    case False
    obtain pl where pl: "store (app w) p = Some pl"
      using run Task_EnterGame False by (auto simp: run_task_def EnterGame_def split: bind_splits)
    define v where "v = put_player p (SetName nm pl) w"
    define others where "others = filter (\<lambda>q. q \<noteq> p) (map snd (players (app v)))"
    obtain b1 w1 infos b2 w2 b3 where b1: "proto_buffer P OP_S_ENTER_GAME (S_EnterGame True (FillPlayerInfo (SetName nm pl))) = Some b1"
      and w1: "RoomSend os p b1 v = Some w1"
      and infos: "those (map (\<lambda>q. map_option FillPlayerInfo (store (app w1) q)) others) = Some infos"
      and b2: "proto_buffer P OP_S_PLAYER_LIST (S_PlayerList infos) = Some b2"
      and w2: "RoomSend os p b2 w1 = Some w2"
      and b3: "proto_buffer P OP_S_SPAWN (S_Spawn [FillPlayerInfo (SetName nm pl)]) = Some b3"
      and w': "for_each (\<lambda>q. RoomSend os q b3) others w2 = Some w'"
      using run Task_EnterGame False pl
      by (auto simp: run_task_def EnterGame_def Let_def v_def others_def split: bind_splits)
    have "job_run os P [Job_List p others] w1 w2"
      by (rule job_run_one [OF _ job_run_send [OF w2]]) (simp add: job_step_def infos b2)
    from job_run_append [OF job_run_send [OF w1] job_run_append [OF this
        job_run_for_each [of others "\<lambda>q. RoomSend os q b3" os P "\<lambda>q. Job_Send q b3", OF job_run_send w']]]
    have "job_run os P ([Job_Send p b1, Job_List p others] @ map (\<lambda>q. Job_Send q b3) others) v w'"
      by simp
    then show ?thesis
      by (rule job_run_one [rotated])
        (use False pl b1 b3 Task_EnterGame in \<open>auto simp: job_step_def task_step_def Let_def v_def others_def\<close>)
  qed
next
  case (Task_Chat p message type)
  assume run: "run_task os P t w = Some w'"
  then obtain pl buf where "store (app w) p = Some pl" and "proto_buffer P OP_S_CHAT (S_Chat_msg
      \<lparr>sc_player_id = playerId pl, sc_name = playerName pl, sc_type = type, sc_message = message\<rparr>) = Some buf"
    and w': "RoomBroadcast os buf None w = Some w'"
    using Task_Chat by (auto simp: run_task_def Chat_def split: bind_splits)
  then show ?thesis
    by (intro job_run_one [OF _ job_run_broadcast [OF w']]) (simp add: job_step_def task_step_def Task_Chat)
next
  case (Task_BroadcastAttack p k ty x y)
  assume run: "run_task os P t w = Some w'"
  then obtain pl buf where "store (app w) p = Some pl" and "proto_buffer P OP_S_ATTACK_RESULT (S_AttackResult_msg
      \<lparr>ar_attacker_id = playerId pl, ar_skill_id = k, ar_attack_type = ty,
       ar_origin = pos (physState pl), ar_aim_dir = \<lparr>vecx = x, vecy = y\<rparr>\<rparr>) = Some buf"
    and w': "RoomBroadcast os buf None w = Some w'"
    using Task_BroadcastAttack by (auto simp: run_task_def BroadcastAttack_def split: bind_splits)
  then show ?thesis
    by (intro job_run_one [OF _ job_run_broadcast [OF w']]) (simp add: job_step_def task_step_def Task_BroadcastAttack)
qed (intro job_run_one [OF _ job_run.finished], auto simp: job_step_def task_step_def run_task_def split: bind_splits)+

lemma put_player_simps [simp]:
  "store (app (put_player p pl w)) p = Some pl" "tmap (app (put_player p pl w)) = tmap (app w)"
  "put_player p pl' (put_player p pl w) = put_player p pl' w"
  by (simp_all add: put_player_def)

lemma put_player_same: "store (app w) p = Some pl \<Longrightarrow> put_player p pl w = w"
  by (simp add: put_player_def fun_upd_idem)

lemma job_run_inputs:
  assumes "run_inputs (tmap (app w)) n pl = Some (k, pl')" and "store (app w) p = Some pl"
    and "c + n = MAX_STEPS_PER_TICK"
    and "job_run os P (if c + k = 0 then replicate 3 (Job_Idle p) @ [Job_Report p] else [Job_Report p])
      (put_player p pl' w) w'"
  shows "job_run os P [Job_Input p c] w w'"
  using assms
proof (induction n arbitrary: w pl k c)
  case 0
  then have "job_run os P (if c = 0 then replicate 3 (Job_Idle p) @ [Job_Report p] else [Job_Report p]) w w'"
    by (simp add: put_player_same)
  then show ?case
    by (rule job_run_one [rotated]) (use 0 in \<open>simp add: job_step_def\<close>)
next
  case (Suc n)
  show ?case
  proof (cases "HasInput pl")
    case False
    then have "job_run os P (if c = 0 then replicate 3 (Job_Idle p) @ [Job_Report p] else [Job_Report p]) w w'"
      using Suc.prems by (simp add: put_player_same)
    then show ?thesis
      by (rule job_run_one [rotated]) (use Suc.prems(2) False in \<open>simp add: job_step_def\<close>)
  next
    case True
    obtain cmd pl1 where d: "DequeueInput pl = (cmd, pl1)"
      by fastforce
    obtain st k1 where st: "SimulatePlayer (tmap (app w)) cmd CLIENT_DT (physState pl1) = Some st"
      and run: "run_inputs (tmap (app w)) n (pl1\<lparr>physState := st\<rparr>) = Some (k1, pl')" and k: "k = Suc k1"
      using Suc.prems(1) True d by (auto split: bind_splits)
    have "job_run os P [Job_Input p (c + 1)] (put_player p (pl1\<lparr>physState := st\<rparr>) w) w'"
      by (rule Suc.IH [of _ "pl1\<lparr>physState := st\<rparr>" k1]) (use run k Suc.prems(3,4) in simp_all)
    then have "job_run os P [Job_Step p c] w w'"
      by (rule job_run_one [rotated]) (simp add: job_step_def Suc.prems(2) d st)
    then show ?thesis
      by (rule job_run_one [rotated]) (use True Suc.prems(2,3) in \<open>simp add: job_step_def\<close>)
  qed
qed

lemma job_run_idle:
  assumes "run_idle (tmap (app w)) n pl = Some pl'" and "store (app w) p = Some pl"
    and "job_run os P js (put_player p pl' w) w'"
  shows "job_run os P (replicate n (Job_Idle p) @ js) w w'"
  using assms
proof (induction n arbitrary: w pl)
  case 0
  then show ?case
    by (simp add: put_player_same)
next
  case (Suc n)
  obtain st where st: "SimulatePlayer (tmap (app w)) zero_input CLIENT_DT (physState pl) = Some st"
    and run: "run_idle (tmap (app w)) n (pl\<lparr>physState := st\<rparr>) = Some pl'"
    using Suc.prems(1) by (auto split: bind_splits)
  have "job_run os P (replicate n (Job_Idle p) @ js) (put_player p (pl\<lparr>physState := st\<rparr>) w) w'"
    by (rule Suc.IH [of _ "pl\<lparr>physState := st\<rparr>"]) (use run Suc.prems(3) in simp_all)
  then show ?case
    by (simp add: job_run.next_job [of os P _ w "[]"] job_step_def Suc.prems(2) st)
qed

lemma broadcast_move_msg_session [simp]: "broadcast_move_msg t (pl\<lparr>session := ss\<rparr>) = broadcast_move_msg t pl"
  by (simp add: broadcast_move_msg_def)

lemma job_run_player: "tick_player os P p w = Some w' \<Longrightarrow> job_run os P [Job_Player p] w w'"
proof -
  assume tick: "tick_player os P p w = Some w'"
  then obtain pl where pl: "store (app w) p = Some pl"
    by (cases "store (app w) p") (simp_all add: tick_player_def)
  show ?thesis
  proof (cases "entered pl")
    case False
    with tick pl show ?thesis
      by (intro job_run_one [OF _ job_run.finished]) (simp add: job_step_def tick_player_def)
  next
    case True
    from tick pl True obtain pl2 b1 w1 b2 where sim: "simulate_tick (tmap (app w)) pl = Some pl2"
      and b1: "proto_buffer P OP_S_PLAYER_STATE (S_PlayerState_msg (player_state_msg pl2)) = Some b1"
      and w1: "RoomSend os p b1 (put_player p pl2 w) = Some w1"
      and b2: "proto_buffer P OP_S_BROADCAST_MOVE (S_BroadcastMove_msg (broadcast_move_msg (serverTick (app w1)) pl2)) = Some b2"
      and w': "RoomBroadcast os b2 (Some p) w1 = Some w'"
      unfolding tick_player_def Let_def by (auto elim!: bind_SomeE)
    from sim obtain k pl1 where inputs: "run_inputs (tmap (app w)) MAX_STEPS_PER_TICK pl = Some (k, pl1)"
      and idle: "(if k = 0 then run_idle (tmap (app w)) 3 pl1 else Some pl1) = Some pl2"
      unfolding simulate_tick_def by (auto elim!: bind_SomeE)
    obtain ss where "store (app w1) p = Some (pl2\<lparr>session := ss\<rparr>)"
      using room_frameD(4) [OF RoomSend_frame [OF w1], of p pl2] by auto
    then have "job_run os P [Job_Move p] w1 w'"
      by (intro job_run_one [OF _ job_run_broadcast [OF w']])
        (use b2 in \<open>simp add: job_step_def\<close>)
    from job_run_append [OF job_run_send [OF w1] this]
    have report: "job_run os P [Job_Report p] (put_player p pl2 w) w'"
      by (intro job_run_one [of os P _ _ "[Job_Send p b1, Job_Move p]"]) (simp_all add: job_step_def b1)
    have "job_run os P (if k = 0 then replicate 3 (Job_Idle p) @ [Job_Report p] else [Job_Report p]) (put_player p pl1 w) w'"
    proof (cases "k = 0")
      case True
      then have "run_idle (tmap (app (put_player p pl1 w))) 3 pl1 = Some pl2"
        using idle by (simp only: put_player_simps if_True refl)
      from job_run_idle [OF this, of p os P "[Job_Report p]" w'] True report show ?thesis
        by (simp only: put_player_simps if_True refl)
    next
      case False
      with idle report show ?thesis by (simp only: if_False option.inject)
    qed
    from job_run_inputs [OF inputs pl, of 0 os P w', unfolded add_0, OF refl this]
    have "job_run os P [Job_Input p 0] w w'" .
    then show ?thesis
      by (rule job_run_one [rotated]) (simp add: job_step_def pl True)
  qed
qed

lemma job_run_drain: "DrainTasks os P w = Some w' \<Longrightarrow> job_run os P [Job_Drain] w w'"
  unfolding DrainTasks_def by (rule job_run_one [OF _ job_run_for_each [OF job_run_task]]) (simp_all add: job_step_def)

lemma job_run_round:
  assumes "loopRunning (app w)" and "game_loop_round os P w = Some w'"
  shows "job_run os P [Job_Drain, Job_Tick] w w'"
proof -
  obtain w1 w2 where w1: "DrainTasks os P w = Some w1"
    and w2: "for_each (tick_player os P) (map snd (players (app w1))) w1 = Some w2"
    and w': "w' = w2\<lparr>app := (app w2)\<lparr>serverTick := serverTick (app w2) + 1\<rparr>\<rparr>"
    using assms by (auto simp: game_loop_round_def TickAll_def split: bind_splits)
  have "job_run os P [Job_NextTick] w2 w'"
    by (rule job_run_one [OF _ job_run.finished]) (simp add: job_step_def w')
  from job_run_append [OF job_run_for_each [OF job_run_player w2] this]
  have "job_run os P (map Job_Player (map snd (players (app w1))) @ [Job_NextTick]) w1 w'" .
  then have "job_run os P [Job_Tick] w1 w'"
    by (intro job_run_one [of os P Job_Tick w1]) (simp_all add: job_step_def)
  from job_run_append [OF job_run_drain [OF w1] this] show ?thesis
    by simp
qed

subsection \<open>The sequential process inside the interleaved one\<close>

lemma worker_run_psteps:
  assumes "worker_run os OnDisconnected (HandlePacket os P) s d w w'"
  shows "(pstep os P)\<^sup>*\<^sup>* (w, js, [(s, ty, d)]) (w', js, [])"
  using assms
proof (induction rule: worker_run.induct)
  case (finished d w w')
  from pstep.work [OF _ _ this, of 0 "[(s, ty, d)]" ty js] show ?case
    by (auto simp: resume_def)
next
  case (next_duty d w d' w1 w')
  from pstep.work [OF _ _ this(1), of 0 "[(s, ty, d)]" ty js]
  have "pstep os P (w, js, [(s, ty, d)]) (w1, js, [(s, ty, d')])"
    by (simp add: resume_def)
  with next_duty.IH show ?case
    by (rule converse_rtranclp_into_rtranclp [rotated])
qed

lemma exec_psteps:
  assumes "enabled l w" and "exec os P l w = Some w'"
  shows "(pstep os P)\<^sup>*\<^sup>* (w, [], []) (w', [], [])"
proof (cases l)
  case (Accept client)
  with assms have "pstep os P (w, [], []) (w', [], [])"
    using pstep.accept by simp
  then show ?thesis
    by blast
next
  case (Complete i success bytes)
  obtain s c where c: "pending w ! i = (s, c)"
    by fastforce
  with assms Complete have en: "length ([] :: worker list) < workers w" "i < length (pending w)"
    "ioType c = RECV \<longrightarrow> length bytes \<le> RECV_POST_SIZE"
    by (auto simp: enabled_def)
  have "worker_run os OnDisconnected (HandlePacket os P) s (first_duty (ioType c) success bytes) (take_pending i w) w'"
    using assms(2) Complete worker_round_run [OF c] by (simp add: exec_def take_pending_def)
  from worker_run_psteps [OF this] pstep.complete [OF en(1,2) c en(3)] show ?thesis
    by (fastforce intro: converse_rtranclp_into_rtranclp)
next
  case Tick
  show ?thesis
  proof (cases "loopRunning (app w)")
    case True
    have "job_run os P [Job_Drain, Job_Tick] w w'"
      using job_run_round [OF True] assms(2) Tick by (simp add: exec_def)
    from job_run_psteps [OF this] pstep.round [of w, OF True] show ?thesis
      by (rule converse_rtranclp_into_rtranclp [rotated])
  next
    case False
    then show ?thesis
      using assms(2) Tick by (simp add: exec_def game_loop_round_def)
  qed
next
  case Shutdown
  with assms have "pstep os P (w, [], []) (w', [], [])"
    using pstep.shutdown by simp
  then show ?thesis
    by blast
qed

lemma reachable_psteps: "reachable os P w0 w \<Longrightarrow> (pstep os P)\<^sup>*\<^sup>* (w0, [], []) (w, [], [])"
  by (induction rule: reachable.induct) (auto dest: exec_psteps)

subsection \<open>A round ends\<close>

abbreviation loop :: "process \<Rightarrow> job list" where
  "loop st \<equiv> fst (snd st)"

lemma pstep_jobs:
  assumes "pstep os P s s'" and "\<forall>k\<in>set (loop s). counted k"
  shows "\<forall>k\<in>set (loop s'). counted k"
    and "loop s \<noteq> [] \<Longrightarrow> loop s' = loop s \<or> mset (loop s') < mset (loop s)"
  using assms by (cases rule: pstep.cases; auto dest: job_step_rank jobs_decrease)+

lemma infinite_run_ends:
  assumes "\<And>i. pstep os P (f i) (f (Suc i))" and "\<forall>k\<in>set (loop (f 0)). counted k"
    and "\<And>N. \<exists>i\<ge>N. loop (f (Suc i)) \<noteq> loop (f i)"
  shows "\<exists>i\<ge>N. loop (f i) = []"
proof (rule ccontr)
  assume "\<not> (\<exists>i\<ge>N. loop (f i) = [])"
  then have busy: "loop (f i) \<noteq> []" if "N \<le> i" for i
    using that by blast
  have counted: "\<forall>k\<in>set (loop (f i)). counted k" for i
  proof (induction i)
    case (Suc i)
    show ?case
      by (rule pstep_jobs(1) [OF assms(1) Suc])
  qed (rule assms(2))
  note step = pstep_jobs(2) [OF assms(1) counted]
  have down: "mset (loop (f (i + d))) \<le> mset (loop (f i))" if "N \<le> i" for i d
  proof (induction d)
    case (Suc d)
    have "mset (loop (f (Suc (i + d)))) \<le> mset (loop (f (i + d)))"
      using step [of "i + d"] busy [of "i + d"] that by auto
    with Suc show ?case
      by simp
  qed simp
  obtain i where i: "N \<le> i" and least: "\<And>k. N \<le> k \<Longrightarrow> \<not> mset (loop (f k)) < mset (loop (f i))"
  proof (rule wfE_min [OF wf_jobs, of "mset (loop (f N))" "(\<lambda>k. mset (loop (f k))) ` {N..}"])
    show "mset (loop (f N)) \<in> (\<lambda>k. mset (loop (f k))) ` {N..}"
      by simp
    fix z assume z: "z \<in> (\<lambda>k. mset (loop (f k))) ` {N..}"
      and min: "\<And>y. (y, z) \<in> {(M, N). M < N} \<Longrightarrow> y \<notin> (\<lambda>k. mset (loop (f k))) ` {N..}"
    from z obtain i where i: "N \<le> i" "z = mset (loop (f i))"
      by auto
    have "\<not> mset (loop (f k)) < mset (loop (f i))" if "N \<le> k" for k
      using min [of "mset (loop (f k))"] that i(2) by auto
    with i(1) show thesis
      by (rule that)
  qed
  obtain k where k: "i \<le> k" "loop (f (Suc k)) \<noteq> loop (f k)"
    using assms(3) by blast
  have "mset (loop (f (Suc k))) < mset (loop (f k))"
    using step [of k] busy [of k] k i by auto
  also have "\<dots> \<le> mset (loop (f i))"
    using down [OF i, of "k - i"] k(1) by simp
  finally show False
    using least [of "Suc k"] k(1) i by simp
qed

subsection \<open>Properties\<close>

text \<open>C37: The sequential model, whose steps are whole completions and whole rounds, and the interleaved one agree on what nothing interrupts: the steps of a worker, run from taking a completion to releasing its reference, end in exactly the state that \<open>worker_round\<close> computes, if any; the jobs of a round end in exactly the state that \<open>DrainTasks\<close> and \<open>TickAll\<close> compute; and every state the sequential process reaches is one the interleaved process reaches, with no thread at work.\<close>

theorem sequential_refines_interleaved:
  assumes "safe m L Q P D w" and "loopRunning (app w)" and "pending w ! i = (s, c)" and "reachable os P w0 w"
  shows "(worker_round os OnDisconnected (HandlePacket os P) i success bytes w = Some w' \<longleftrightarrow>
      worker_run os OnDisconnected (HandlePacket os P) s (first_duty (ioType c) success bytes) (take_pending i w) w')
    \<and> (game_loop_round os P w = Some w' \<longleftrightarrow> job_run os P [Job_Drain, Job_Tick] w w')
    \<and> (pstep os P)\<^sup>*\<^sup>* (w0, [], []) (w, [], [])"
proof -
  obtain v where v: "game_loop_round os P w = Some v"
    using game_loop_round_ok [OF assms(1)] by blast
  from job_run_round [OF assms(2) this] have "game_loop_round os P w = Some w' \<longleftrightarrow> job_run os P [Job_Drain, Job_Tick] w w'"
    using job_run_deterministic v by auto
  then show ?thesis
    using worker_round_run [OF assms(3)] reachable_psteps [OF assms(4)] by (simp add: take_pending_def)
qed

lemma demo_world_loop: "loopRunning (app demo_world)"
  by (simp add: demo_world_app)

theorem sequential_refines_interleaved_witness:
  "\<exists>w'. job_run demo_os demo_proto [Job_Drain, Job_Tick] demo_world w'
     \<and> (pstep demo_os demo_proto)\<^sup>*\<^sup>* (demo_server, [], []) (demo_world, [], [])"
proof -
  note run = reachable_running [OF demo_start demo_phys demo_proto_ok demo_reachable]
  obtain w' where w': "game_loop_round demo_os demo_proto demo_world = Some w'"
    using game_loop_round_ok [OF run] by blast
  have "pending demo_world ! 0 = (5, \<lparr>ioType = RECV, ioBuffer = None\<rparr>)"
    by (simp add: demo_world_simps)
  from sequential_refines_interleaved [OF run demo_world_loop this demo_reachable, of True "[0]" w'] w' show ?thesis
    by auto
qed

text \<open>C40: Every round of the game loop ends, whatever the other threads do in between: in any infinite execution in which the loop's thread keeps being scheduled, the loop is between two rounds infinitely often. (Each job leaves only smaller jobs, so the multiset of the jobs left to do decreases; workers can add tasks and inputs only for the next round and the next player's turn.)\<close>

theorem every_round_ends:
  assumes "\<And>i. pstep os P (f i) (f (Suc i))" and "loop (f 0) = []"
    and "\<And>N. \<exists>i\<ge>N. loop (f (Suc i)) \<noteq> loop (f i)"
  shows "\<exists>i\<ge>N. loop (f i) = []"
  using infinite_run_ends [OF assms(1) _ assms(3)] assms(2) by simp

text \<open>A server without players, whose loop goes round for ever.\<close>

definition idle_run :: "nat \<Rightarrow> process" where
  "idle_run i = (demo_server\<lparr>app := (app demo_server)\<lparr>serverTick := of_nat (i div 4)\<rparr>\<rparr>,
     [[], [Job_Drain, Job_Tick], [Job_Tick], [Job_NextTick]] ! (i mod 4), [])"

lemma idle_run_step: "pstep demo_os demo_proto (idle_run i) (idle_run (Suc i))"
proof -
  let ?w = "demo_server\<lparr>app := (app demo_server)\<lparr>serverTick := of_nat (i div 4)\<rparr>\<rparr>"
  have steps: "pstep demo_os demo_proto (?w, [], []) (?w, [Job_Drain, Job_Tick], [])"
    "pstep demo_os demo_proto (?w, [Job_Drain, Job_Tick], []) (?w, [Job_Tick], [])"
    "pstep demo_os demo_proto (?w, [Job_Tick], []) (?w, [Job_NextTick], [])"
    "pstep demo_os demo_proto (?w, [Job_NextTick], []) (?w\<lparr>app := (app ?w)\<lparr>serverTick := of_nat (i div 4) + 1\<rparr>\<rparr>, [], [])"
    using pstep.round [of ?w demo_os demo_proto]
      pstep.job [of demo_os demo_proto Job_Drain ?w "[]" ?w "[Job_Tick]"]
      pstep.job [of demo_os demo_proto Job_Tick ?w "[Job_NextTick]" ?w "[]"]
      pstep.job [of demo_os demo_proto Job_NextTick ?w "[]" "?w\<lparr>app := (app ?w)\<lparr>serverTick := of_nat (i div 4) + 1\<rparr>\<rparr>" "[]"]
    by (simp_all add: demo_app job_step_def room_new_def)
  have "i mod 4 = 0 \<or> i mod 4 = 1 \<or> i mod 4 = 2 \<or> i mod 4 = 3"
    by linarith
  then show ?thesis
    by (elim disjE) (use steps in \<open>simp_all add: idle_run_def mod_Suc div_Suc add.commute\<close>)
qed

theorem every_round_ends_witness: "\<forall>N. \<exists>i\<ge>N. loop (idle_run i) = []"
proof (rule allI, rule every_round_ends [of demo_os demo_proto idle_run, OF idle_run_step])
  show "loop (idle_run 0) = []"
    by (simp add: idle_run_def)
  fix N
  have "loop (idle_run (Suc (4 * N))) \<noteq> loop (idle_run (4 * N))"
    by (simp add: idle_run_def Suc_times_mod_eq)
  then show "\<exists>i\<ge>N. loop (idle_run (Suc i)) \<noteq> loop (idle_run i)"
    by (intro exI [of _ "4 * N"]) simp
qed

end
