(* ===== verification/FloatState.thy ===== *)
theory FloatState
  imports WorldBounds
begin

text \<open>
  The physics computes with floats and nothing else: whatever the map and the commands, if the
  floats that go in are well-formed binary32 numbers (\<open>wf_f32\<close>: finite and representable, infinite
  or NaN), so are those of the physics state that comes out.
\<close>

subsection \<open>The operations\<close>

named_theorems wf_float "well-formed results of floating-point operations"

lemma wf_fadd [wf_float]: "wf_f32 a \<Longrightarrow> wf_f32 b \<Longrightarrow> wf_f32 (fadd a b)"
  using rounds_to_wf [OF rounds_fadd [of a b]] by (cases a; cases b) auto

lemma wf_fsub [wf_float]: "wf_f32 a \<Longrightarrow> wf_f32 b \<Longrightarrow> wf_f32 (fsub a b)"
  by (simp add: fsub_def wf_fadd)

lemma wf_fmul [wf_float]: "wf_f32 a \<Longrightarrow> wf_f32 b \<Longrightarrow> wf_f32 (fmul a b)"
  using rounds_to_wf [OF rounds_fmul [of a b]] by (cases a; cases b) auto

lemma wf_fdiv [wf_float]: "wf_f32 a \<Longrightarrow> wf_f32 b \<Longrightarrow> wf_f32 (fdiv a b)"
  using rounds_to_wf [OF rounds_fdiv [of a b]]
  by (cases a; cases b) (auto simp: sval_def representable_def split: if_splits)

lemma wf_fneg_iff [wf_float]: "wf_f32 a \<Longrightarrow> wf_f32 (fneg a)"
  by simp

lemma wf_fmax [wf_float]: "wf_f32 a \<Longrightarrow> wf_f32 b \<Longrightarrow> wf_f32 (fmax a b)"
  by (simp add: fmax_def)

lemma wf_flit [wf_float]: "0 < d \<Longrightarrow> 0 \<le> n \<Longrightarrow> wf_f32 (flit n d)"
  by (rule rounds_to_wf [OF rounds_flit])

lemma wf_int_to_f32 [wf_float]: "wf_f32 (int_to_f32 i)"
  by (rule rounds_to_wf [OF rounds_int_to_f32])

lemma wf_fzero [wf_float]: "wf_f32 fzero"
  by (simp add: fzero_def representable_def)

lemma wf_consts [wf_float]:
  "wf_f32 MOVE_SPEED" "wf_f32 JUMP_FORCE" "wf_f32 GRAVITY" "wf_f32 GROUND_THRESHOLD" "wf_f32 MAX_FALL_SPEED"
  "wf_f32 CLIMB_SPEED" "wf_f32 PLAYER_HALF_W" "wf_f32 PLAYER_HALF_H" "wf_f32 CLIENT_DT"
  by (simp_all add: const_vals float_eval representable_def CLIENT_DT_val cong: eval_cong)

subsection \<open>Maps and tests\<close>

definition cells_wf :: "tilemap \<Rightarrow> bool" where
  "cells_wf m \<longleftrightarrow> (loaded m \<longrightarrow> wf_f32 (cellSizeX m) \<and> wf_f32 (cellSizeY m))"

lemma world_ok_cells_wf: "world_ok m \<Longrightarrow> cells_wf m"
  by (auto simp: cells_wf_def world_ok_def map_ok_def cell_size_ok_def bnd_def)

text \<open>The faces of cells are well-formed, so what the tests find is.\<close>

lemma cell_faces_wf:
  assumes "wf_f32 (cellSizeX m)" and "wf_f32 (cellSizeY m)"
  shows "wf_f32 (CellBottomY m c)" and "wf_f32 (CellLeftX m c)"
    and "CellTopY m c = Some t \<Longrightarrow> wf_f32 t" and "CellRightX m c = Some t \<Longrightarrow> wf_f32 t"
  using assms by (auto simp: CellBottomY_def CellLeftX_def CellTopY_def CellRightX_def wf_float split: bind_splits)

lemma ground_loop_wf:
  assumes "ground_loop m ig f cy hi cx best = Some (y, hit)" and "wf_f32 (cellSizeX m)" and "wf_f32 (cellSizeY m)"
    and "wf_f32 (fst best)"
  shows "wf_f32 y"
  using assms(1,4)
proof (induction "nat (hi + 1 - cx)" arbitrary: cx best rule: less_induct)
  case less
  obtain b h where b: "best = (b, h)"
    by (cases best)
  show ?case
  proof (cases "cx \<le> hi")
    case True
    then obtain best' where step: "ground_loop m ig f cy hi (cx + 1) best' = Some (y, hit)"
      and best': "best' = best \<or> (\<exists>t. CellTopY m cy = Some t \<and> best' = (t, True))"
      using less.prems(1) by (auto simp: b ground_loop.simps [of m ig f cy hi cx] split: if_splits bind_splits)
    have "wf_f32 (fst best')"
      using best' less.prems(2) cell_faces_wf(3) [OF assms(2,3)] by auto
    with less.hyps [OF _ step] True show ?thesis
      by simp
  qed (use less.prems in \<open>simp add: b ground_loop.simps [of m ig f cy hi cx]\<close>)
qed

lemma CheckGround_wf:
  assumes "CheckGround m p ig = Some g" and "cells_wf m"
  shows "wf_f32 (groundY g)"
proof (cases "loaded m")
  case True
  have "wf_f32 (fneg (flit 1000000000 1))"
    by (intro wf_float) simp_all
  with True assms show ?thesis
    by (auto simp: CheckGround_def cells_wf_def Let_def wf_fzero elim!: ground_loop_wf split: bind_splits)
qed (use assms(1) in \<open>auto simp: CheckGround_def Let_def wf_fzero\<close>)

lemma ceil_loop_wf:
  assumes "ceil_loop m cy hi cx best = Some (y, hit)" and "wf_f32 (cellSizeX m)" and "wf_f32 (cellSizeY m)" and "wf_f32 (fst best)"
  shows "wf_f32 y"
  using assms(1,4)
proof (induction "nat (hi + 1 - cx)" arbitrary: cx best rule: less_induct)
  case less
  obtain b h where b: "best = (b, h)"
    by (cases best)
  show ?case
  proof (cases "cx \<le> hi")
    case True
    then obtain best' where step: "ceil_loop m cy hi (cx + 1) best' = Some (y, hit)"
      and best': "best' = best \<or> best' = (CellBottomY m cy, True)"
      using less.prems(1) by (auto simp: b ceil_loop.simps [of m cy hi cx] Let_def split: if_splits)
    have "wf_f32 (fst best')"
      using best' less.prems(2) cell_faces_wf(1) [OF assms(2,3)] by auto
    with less.hyps [OF _ step] True show ?thesis
      by simp
  qed (use less.prems in \<open>simp add: b ceil_loop.simps [of m cy hi cx]\<close>)
qed

lemma CheckCeiling_wf:
  assumes "CheckCeiling m p = Some c" and "cells_wf m"
  shows "wf_f32 (ceilY c)"
proof (cases "loaded m")
  case True
  have "wf_f32 (flit 1000000000 1)"
    by (rule wf_flit) simp_all
  with True assms show ?thesis
    by (auto simp: CheckCeiling_def cells_wf_def Let_def wf_fzero elim!: ceil_loop_wf split: bind_splits)
qed (use assms(1) in \<open>auto simp: CheckCeiling_def wf_fzero\<close>)

lemma wall_loop_wf:
  assumes "wall_loop m d cx hi cy = Some c" and "wf_f32 (cellSizeX m)" and "wf_f32 (cellSizeY m)"
  shows "wf_f32 (wallX c)"
  using assms(1)
proof (induction "nat (hi + 1 - cy)" arbitrary: cy rule: less_induct)
  case less
  show ?case
  proof (cases "cy \<le> hi \<and> \<not> IsSolid m cx cy")
    case True
    then have "wall_loop m d cx hi (cy + 1) = Some c"
      using less.prems by (auto simp: wall_loop.simps [of m d cx hi cy] split: if_splits)
    with less.hyps [OF _ this] True show ?thesis
      by simp
  next
    case False
    then show ?thesis
      using less.prems cell_faces_wf(2) [OF assms(2,3)] cell_faces_wf(4) [OF assms(2,3)]
      by (auto simp: wall_loop.simps [of m d cx hi cy] wf_fzero wf_consts wf_fadd wf_fsub split: if_splits bind_splits)
  qed
qed

lemma CheckWall_wf:
  assumes "CheckWall m p d = Some c" and "cells_wf m"
  shows "wf_f32 (wallX c)"
  using assms
  by (auto simp: CheckWall_def cells_wf_def Let_def wf_fzero dest: wall_loop_wf split: if_splits bind_splits)

lemma GetLadderExtent_wf:
  assumes "GetLadderExtent m cx cy = Some (c, lo, hi)" and "cells_wf m" and "loaded m"
  shows "wf_f32 c" and "wf_f32 lo" and "wf_f32 hi"
  using assms by (auto simp: GetLadderExtent_def cells_wf_def Let_def wf_float split: bind_splits)

subsection \<open>The simulation\<close>

definition wf_vec :: "Vec2 \<Rightarrow> bool" where
  "wf_vec v \<longleftrightarrow> wf_f32 (vecx v) \<and> wf_f32 (vecy v)"

definition wf_state :: "PhysicsState \<Rightarrow> bool" where
  "wf_state s \<longleftrightarrow> wf_vec (pos s) \<and> wf_vec (vel s) \<and> wf_f32 (ladderCenterX s) \<and> wf_f32 (ladderMinY s)
     \<and> wf_f32 (ladderMaxY s) \<and> wf_f32 (dropThroughTimer s)"

lemma wf_state_new: "wf_state PhysicsState_new"
  by (simp add: wf_state_def wf_vec_def PhysicsState_new_def wf_fzero)

lemma wf_state_set [wf_float]:
  "wf_state s \<Longrightarrow> wf_f32 v \<Longrightarrow> wf_state (set_px v s)" "wf_state s \<Longrightarrow> wf_f32 v \<Longrightarrow> wf_state (set_py v s)"
  "wf_state s \<Longrightarrow> wf_f32 v \<Longrightarrow> wf_state (set_vx v s)" "wf_state s \<Longrightarrow> wf_f32 v \<Longrightarrow> wf_state (set_vy v s)"
  by (simp_all add: wf_state_def wf_vec_def)

lemma wf_state_flags [simp]:
  "wf_state (s\<lparr>isMoving := b\<rparr>) = wf_state s" "wf_state (s\<lparr>isJumping := b\<rparr>) = wf_state s"
  "wf_state (s\<lparr>isGrounded := b\<rparr>) = wf_state s" "wf_state (s\<lparr>isOnLadder := b\<rparr>) = wf_state s"
  "wf_state (s\<lparr>isCrouching := b\<rparr>) = wf_state s" "wf_state (s\<lparr>dir := d\<rparr>) = wf_state s"
  "wf_state (s\<lparr>lastInputSeq := n\<rparr>) = wf_state s"
  by (simp_all add: wf_state_def)

lemma wf_stateD [wf_float]:
  assumes "wf_state s"
  shows "wf_f32 (px s)" "wf_f32 (py s)" "wf_f32 (vx s)" "wf_f32 (vy s)" "wf_f32 (ladderCenterX s)" "wf_f32 (ladderMinY s)"
    "wf_f32 (ladderMaxY s)" "wf_f32 (dropThroughTimer s)"
  using assms by (simp_all add: wf_state_def wf_vec_def)

lemma use_dt_wf [wf_float]: "wf_f32 (deltaTime cmd) \<Longrightarrow> wf_f32 dt \<Longrightarrow> wf_f32 (use_dt cmd dt)"
  by (simp add: use_dt_def)

lemma move_x_wf [wf_float]: "wf_f32 (move_x cmd)"
  by (simp add: move_x_def Let_def wf_float)

lemma fall_loop_wf:
  assumes "fall_loop m ig d n s = Some s'" and "cells_wf m" and "wf_f32 d" and "wf_state s"
  shows "wf_state s'"
  using assms(1,4)
proof (induction n arbitrary: s)
  case (Suc n)
  let ?s1 = "set_py (fadd (py s) (fmul (vy s) d)) s"
  have s1: "wf_state ?s1"
    using Suc.prems(2) assms(3) by (intro wf_float)
  obtain gr where gr: "CheckGround m (pos ?s1) ig = Some gr"
    using Suc.prems(1) by (auto simp: Let_def split: bind_splits)
  show ?case
  proof (cases "groundHit gr")
    case True
    have "wf_f32 (groundY gr)"
      using gr assms(2) by (rule CheckGround_wf)
    then have "wf_state (set_vy (fneg (flit 2 1)) (set_py (fadd (groundY gr) PLAYER_HALF_H)
               (?s1\<lparr>isGrounded := True, isJumping := False\<rparr>)))"
      using s1 by (intro wf_float) simp_all
    then show ?thesis
      using Suc.prems(1) gr True by (simp add: Let_def)
  next
    case False
    then show ?thesis
      using Suc.prems(1) gr Suc.IH [OF _ s1] by (simp add: Let_def)
  qed
qed simp

lemma move_vertical_wf:
  assumes "move_vertical m d ig s = Some s'" and "cells_wf m" and "wf_f32 d" and "wf_state s"
  shows "wf_state s'"
proof (cases "fgt (vy s) fzero")
  case True
  let ?s1 = "set_py (fadd (py s) (fmul (vy s) d)) s"
  have s1: "wf_state ?s1"
    using assms(3,4) by (intro wf_float)
  obtain c where c: "CheckCeiling m (pos ?s1) = Some c"
    and s': "s' = (if ceilHit c then set_vy fzero (set_py (fsub (ceilY c) PLAYER_HALF_H) ?s1) else ?s1)"
    using assms(1) True by (auto simp: move_vertical_def Let_def split: bind_splits)
  have "wf_f32 (ceilY c)"
    using c assms(2) by (rule CheckCeiling_wf)
  then have "wf_state (set_vy fzero (set_py (fsub (ceilY c) PLAYER_HALF_H) ?s1))"
    using assms(3,4) by (intro wf_float)
  with s1 show ?thesis
    by (simp add: s')
next
  case False
  then obtain n where "fall_loop m ig (fdiv d (int_to_f32 n)) (nat n) s = Some s'"
    using assms(1) by (auto simp: move_vertical_def Let_def split: bind_splits)
  moreover have "wf_f32 (fdiv d (int_to_f32 n))"
    using assms(3) by (intro wf_float)
  ultimately show ?thesis
    using fall_loop_wf assms(2,4) by blast
qed

lemma move_horizontal_wf:
  assumes "move_horizontal m mx d s = Some s'" and "cells_wf m" and "wf_f32 d" and "wf_f32 mx" and "wf_state s"
  shows "wf_state s'"
proof -
  let ?s1 = "set_px (fadd (px s) (fmul (fmul mx MOVE_SPEED) d)) s"
  have s1: "wf_state ?s1"
    using assms(3-5) by (intro wf_float)
  show ?thesis
  proof (cases "feq mx fzero")
    case False
    then obtain c where c: "CheckWall m (pos ?s1) mx = Some c"
      and s': "s' = (if wallHit c then set_vx fzero (set_px (wallX c) ?s1) else ?s1)"
      using assms(1) by (auto simp: move_horizontal_def Let_def split: bind_splits)
    have "wf_f32 (wallX c)"
      using c assms(2) by (rule CheckWall_wf)
    then have "wf_state (set_vx fzero (set_px (wallX c) ?s1))"
      using assms(3-5) by (intro wf_float)
    with s1 show ?thesis
      by (simp add: s')
  qed (use assms(1) s1 in \<open>simp add: move_horizontal_def\<close>)
qed

lemma after_ground_wf:
  assumes "wf_f32 d" and "wf_state s"
  shows "wf_state (after_ground cmd d hit s)"
proof -
  have gravity: "wf_f32 (fsub v (fmul GRAVITY d))" if "wf_f32 v" for v
    using that assms(1) by (intro wf_float)
  have down: "wf_f32 (flit 2 1)"
    by (rule wf_flit) simp_all
  have "wf_f32 (vy (after_ground cmd d hit s))"
    using gravity [OF wf_stateD(4) [OF assms(2)]] gravity [OF wf_consts(2)] down wf_consts(2,5) wf_stateD(4) [OF assms(2)]
    by (auto simp: after_ground_def Let_def split: if_splits)
  then show ?thesis
    using assms(2) by (simp add: wf_state_def wf_vec_def)
qed

lemma ground_jump_gravity_wf:
  "ground_jump_gravity m cmd d ig s = Some s' \<Longrightarrow> wf_f32 d \<Longrightarrow> wf_state s \<Longrightarrow> wf_state s'"
  by (auto simp: ground_jump_gravity_eq after_ground_wf split: bind_splits)

lemma update_drop_timer_wf: "wf_f32 d \<Longrightarrow> wf_state s \<Longrightarrow> wf_state (update_drop_timer cmd d s)"
  by (simp add: update_drop_timer_def wf_state_def wf_vec_def wf_fmax wf_fsub wf_fzero wf_flit)

lemma update_direction_wf [simp]: "wf_state (update_direction cmd d s) = wf_state s"
  by (simp add: update_direction_def Let_def)

lemma update_last_seq_wf [simp]: "wf_state (update_last_seq cmd s) = wf_state s"
  by (simp add: update_last_seq_def)

lemma walk_step_wf:
  assumes "walk_step m cmd dt s = Some s'" and "cells_wf m" and "wf_f32 (deltaTime cmd)" and "wf_f32 dt" and "wf_state s"
  shows "wf_state s'"
proof -
  let ?d = "use_dt cmd dt"
  let ?s0 = "update_direction cmd (move_x cmd) (update_drop_timer cmd ?d s)"
  let ?ig = "fgt (dropThroughTimer (update_drop_timer cmd ?d s)) fzero"
  obtain s1 s2 s3 where s1: "ground_jump_gravity m cmd ?d ?ig ?s0 = Some s1"
    and s2: "move_horizontal m (move_x cmd) ?d s1 = Some s2" and s3: "move_vertical m ?d ?ig s2 = Some s3"
    and s': "s' = update_last_seq cmd s3"
    using assms(1) by (auto simp: walk_step_def Let_def split: bind_splits)
  have d: "wf_f32 ?d"
    using assms(3,4) by (rule use_dt_wf)
  have "wf_state ?s0"
    using update_drop_timer_wf [OF d assms(5)] by simp
  from ground_jump_gravity_wf [OF s1 d this] have "wf_state s1" .
  from move_horizontal_wf [OF s2 assms(2) d move_x_wf this] have "wf_state s2" .
  from move_vertical_wf [OF s3 assms(2) d this] show ?thesis
    by (simp add: s')
qed

lemma ladder_climb_wf:
  assumes "ladder_climb cmd d s = (v, s')" and "wf_f32 d" and "wf_state s"
  shows "wf_state s'"
proof -
  have v: "wf_f32 v"
    using assms(1) by (auto simp: ladder_climb_def Let_def wf_fzero wf_consts split: if_splits)
  have y: "wf_f32 (fadd (py s) (fmul v d))" "wf_f32 (fadd (ladderMaxY s) PLAYER_HALF_H)" "wf_f32 (ladderMinY s)"
      "wf_f32 (ladderCenterX s)"
    using assms(2,3) v by (intro wf_float; simp)+
  show ?thesis
    using assms(1,3) v y by (auto simp: ladder_climb_def Let_def wf_state_def wf_vec_def wf_fzero)
qed

lemma ladder_step_wf:
  assumes "ladder_step m cmd dt s = Some r" and "cells_wf m" and "wf_f32 (deltaTime cmd)" and "wf_f32 dt" and "wf_state s"
  shows "wf_state (flow_state r)"
proof (cases "jump cmd")
  case True
  then show ?thesis
    using assms(1,5) by (auto simp: ladder_step_def intro!: wf_state_set wf_consts wf_fzero)
next
  case False
  obtain v s1 where c: "ladder_climb cmd (use_dt cmd dt) (s\<lparr>isCrouching := False\<rparr>) = (v, s1)"
    by fastforce
  have s1: "wf_state s1"
    using ladder_climb_wf [OF c use_dt_wf [OF assms(3,4)]] assms(5) by simp
  have y: "wf_f32 (fadd (groundY gr) PLAYER_HALF_H)" if "CheckGround m (pos s1) True = Some gr" for gr
    using CheckGround_wf [OF that assms(2)] by (intro wf_float)
  show ?thesis
    using assms(1) False c s1 y
    by (auto simp: ladder_step_def Let_def intro!: wf_state_set wf_fzero split: if_splits bind_splits)
qed

lemma SimulatePlayer_wf:
  assumes "SimulatePlayer m cmd dt s = Some s'" and "cells_wf m" and "wf_f32 (deltaTime cmd)" and "wf_f32 dt" and "wf_state s"
  shows "wf_state s'"
  using assms ladder_step_wf [OF _ assms(2-5)]
  by (fastforce simp: SimulatePlayer_def intro: walk_step_wf split: if_splits bind_splits flow.splits)

lemma HandleLadderState_wf:
  assumes "HandleLadderState m on x y velx vely s = Some s'" and "cells_wf m" and "wf_f32 x" and "wf_f32 y" and "wf_state s"
  shows "wf_state s'"
proof -
  have "wf_f32 (fsub y (flit 1 2))" and "wf_f32 (fadd y (flit 10 1))"
    using assms(4) by (intro wf_float; simp)+
  then show ?thesis
    using assms GetLadderExtent_wf [OF _ assms(2)]
    by (fastforce simp: HandleLadderState_def wf_state_def wf_vec_def Let_def wf_fzero split: if_splits bind_splits)
qed

end
