(* ===== verification/Threads.thy ===== *)
theory Threads
  imports Interleaving FloatState
begin

text \<open>
  What holds in every state of the interleaved process: every step of every thread is defined, the
  references are accounted for, players and sessions refer to each other consistently, players stay
  in the world, and floats are floats.
\<close>

subsection \<open>The states the process reaches\<close>

abbreviation interleaved_ok :: "proto_api \<Rightarrow> server \<Rightarrow> process \<Rightarrow> bool" where
  "interleaved_ok P w0 \<equiv> process_ok (tmap (app w0)) (near_place (tmap (app w0))) (motion_ok (tmap (app w0))) P"

lemma start_process_ok:
  assumes "main_start os J file = Some (True, w0)" and "phys_safe (tmap (app w0)) L Q" and "proto_ok L P"
  shows "process_ok (tmap (app w0)) L Q P (w0, [], [])"
proof -
  note s = start_safe [OF assms]
  have "players_stored w0" and "workers_ok [] w0"
    using s main_start_fresh(1) [OF assms(1)] by (simp_all add: players_stored_def workers_ok_def held_by_Nil safe_at_def)
  then show ?thesis
    using s by (auto intro: process_okI)
qed

lemmas start_process = start_process_ok [OF _ world_phys_safe]

lemma interleaved_process:
  assumes "main_start os J file = Some (True, w0)" and "world_ok (tmap (app w0))"
    and "proto_ok (near_place (tmap (app w0))) P" and "(pstep os P)\<^sup>*\<^sup>* (w0, [], []) (w, js, ws)"
  shows "interleaved_ok P w0 (w, js, ws)"
  by (rule psteps_ok [OF assms(4) start_process [OF assms(1-3)]])

lemma interleaved_room:
  assumes "interleaved_ok P w0 (w, js, ws)"
  shows "room_inv (tmap (app w0)) (near_place (tmap (app w0))) (motion_ok (tmap (app w0))) (dom (store (app w))) (live w) (app w)"
  by (rule safe_room [OF process_okD(2) [OF assms]])

lemma interleaved_view:
  assumes "interleaved_ok P w0 (w, js, ws)"
  shows "ok (length (filter (\<lambda>x. fst x = s) ws)) (0 < at_work SEND s ws) (0 < at_work RECV s ws) (view s w)"
  using held_ok_view [OF workers_okD(1) [OF process_okD(1) [OF assms]], of s] by (simp add: held_by_def)

text \<open>The demonstration server with its first client.\<close>

lemma demo_psteps: "(pstep demo_os demo_proto)\<^sup>*\<^sup>* (demo_server, [], []) (demo_world, [], [])"
  by (rule reachable_psteps [OF demo_reachable])

subsection \<open>Properties\<close>

lemma demo_world_workers: "workers demo_world = 4"
  by (simp add: demo_world_def exec_def accept_round_def demo_app CreateAndRegisterSession_def demo_os_def Start_def
      OnConnected_def put_player_def on_session_def PostTask_def PostRecv_def AddRef_def emit_def AddSession_def
      Session_new_def Let_def demo_server_def StartServer_def InitIocpAndWorkers_def server_new_def StartGameLoop_def
      numeral_eq_Suc)











lemma world_phys_floats:
  assumes "world_ok m"
  shows "phys_safe m (\<lambda>x y. near_place m x y \<and> wf_f32 x \<and> wf_f32 y) (\<lambda>s. motion_ok m s \<and> wf_state s)"
proof -
  note safe = world_phys_safe [OF assms, unfolded phys_safe_def] and cells = world_ok_cells_wf [OF assms]
  have "\<exists>st'. SimulatePlayer m cmd CLIENT_DT st = Some st' \<and> motion_ok m st' \<and> wf_state st'"
    if "motion_ok m st" "wf_state st" "wf_f32 (deltaTime cmd)" for st cmd
    using safe that SimulatePlayer_wf [OF _ cells that(3) wf_consts(9) that(2)] by blast
  moreover have "\<exists>st'. HandleLadderState m on x y velx vely st = Some st' \<and> motion_ok m st' \<and> wf_state st'"
    if "motion_ok m st" "wf_state st" "near_place m x y" "wf_f32 x" "wf_f32 y" for st on x y velx vely
    using safe that HandleLadderState_wf [OF _ cells that(4,5,2)] by blast
  ultimately show ?thesis
    using wf_state_new by (auto simp: phys_safe_def)
qed



end
