(* ===== verification/Delivery.thy ===== *)
theory Delivery
  imports RoomTick
begin

text \<open>
  What reaches whom: an operation on one session leaves the others as they are, so a message
  broadcast in the room reaches every other player's open session once; stopping closes every
  session; and the receive path of a session delivers the packets of the stream.
\<close>

subsection \<open>One session at a time\<close>

definition elsewhere :: "sref \<Rightarrow> ('x, 'm) net \<Rightarrow> ('x, 'm) net \<Rightarrow> bool" where
  "elsewhere t w w' \<longleftrightarrow> heap w' t = heap w t \<and> sent_to t (events w') = sent_to t (events w)"

lemma elsewhere_refl [simp]: "elsewhere t w w"
  by (simp add: elsewhere_def)

lemma elsewhere_trans: "elsewhere t a b \<Longrightarrow> elsewhere t b c \<Longrightarrow> elsewhere t a c"
  by (simp add: elsewhere_def)

lemma elsewhere_accepted: "elsewhere t w w' \<Longrightarrow> accepted t w' = accepted t w \<and> live w' t = live w t"
  by (simp add: elsewhere_def accepted_def live_def)

lemma on_session_elsewhere: "on_session s f w = Some w' \<Longrightarrow> t \<noteq> s \<Longrightarrow> elsewhere t w w'"
  by (auto simp: on_session_def elsewhere_def split: option.splits)

lemma Release_elsewhere: "Release s w = Some w' \<Longrightarrow> t \<noteq> s \<Longrightarrow> elsewhere t w w'"
  by (auto simp: Release_def on_session_def elsewhere_def emit_def split: option.splits if_splits bind_splits)

lemma PostSendFront_elsewhere:
  assumes "PostSendFront_NoLock os s w = Some (b, w')" and "t \<noteq> s"
  shows "elsewhere t w w'"
proof -
  obtain x where x: "heap w s = Some x"
    using assms by (auto simp: PostSendFront_NoLock_def split: bind_splits)
  show ?thesis
  proof (cases "sendQ x = [] \<or> closing x")
    case True
    then show ?thesis
      using assms x by (auto simp: PostSendFront_NoLock_def dest: on_session_elsewhere split: list.splits bind_splits)
  next
    case False
    then obtain front rest where q: "sendQ x = front # rest"
      by (auto simp: neq_Nil_conv)
    let ?w2 = "w\<lparr>heap := (heap w)(s \<mapsto> x\<lparr>refCount := refCount x + 1\<rparr>), calls := calls w + 1\<rparr>"
    have u: "elsewhere t w ?w2"
      using assms(2) by (simp add: elsewhere_def)
    show ?thesis
    proof (cases "send_ok os (calls w)")
      case True
      then show ?thesis
        using assms x False q
        by (auto simp: PostSendFront_NoLock_def AddRef_def on_session_def Let_def elsewhere_def emit_def)
    next
      case refused: False
      obtain w3 where w3: "Release s ?w2 = Some w3" "on_session s (\<lambda>x. x\<lparr>sending := False\<rparr>) w3 = Some w'"
        using assms x False q refused
        by (auto simp: PostSendFront_NoLock_def AddRef_def on_session_def Let_def split: bind_splits)
      show ?thesis
        by (rule elsewhere_trans [OF elsewhere_trans [OF u Release_elsewhere [OF w3(1) assms(2)]]
              on_session_elsewhere [OF w3(2) assms(2)]])
    qed
  qed
qed

text \<open>No operation opens a session or changes the fields of its derived class.\<close>

definition keeps_open :: "sref \<Rightarrow> ('x, 'm) net \<Rightarrow> ('x, 'm) net \<Rightarrow> bool" where
  "keeps_open t w w' \<longleftrightarrow> live w' t = None \<or> live w' t = live w t"

lemma keeps_open_refl [simp]: "keeps_open t w w"
  by (simp add: keeps_open_def)

lemma keeps_open_trans: "keeps_open t a b \<Longrightarrow> keeps_open t b c \<Longrightarrow> keeps_open t a c"
  by (auto simp: keeps_open_def)

lemma elsewhere_keeps_open: "elsewhere t w w' \<Longrightarrow> keeps_open t w w'"
  by (simp add: keeps_open_def elsewhere_accepted)

lemma Release_keeps_open: "Release s w = Some w' \<Longrightarrow> keeps_open t w w'"
  by (auto simp: Release_def on_session_def keeps_open_def live_def emit_def split: option.splits if_splits bind_splits)

lemma on_session_keeps_open:
  "on_session s f w = Some w' \<Longrightarrow> (\<And>x. closing (f x) = closing x \<and> Session.more (f x) = Session.more x) \<Longrightarrow> keeps_open t w w'"
proof -
  assume on: "on_session s f w = Some w'" and f: "\<And>x. closing (f x) = closing x \<and> Session.more (f x) = Session.more x"
  obtain x where "heap w s = Some x" "w' = w\<lparr>heap := (heap w)(s \<mapsto> f x)\<rparr>"
    using on by (auto simp: on_session_def split: option.splits)
  then show ?thesis
    using f [of x] by (simp add: keeps_open_def live_def)
qed

lemma PostSendFront_keeps_open:
  assumes "PostSendFront_NoLock os s w = Some (b, w')"
  shows "keeps_open t w w'"
proof -
  obtain x where x: "heap w s = Some x"
    using assms by (auto simp: PostSendFront_NoLock_def split: bind_splits)
  show ?thesis
  proof (cases "sendQ x = [] \<or> closing x")
    case True
    then have "on_session s (\<lambda>x. x\<lparr>sending := False\<rparr>) w = Some w'"
      using assms x by (cases "sendQ x") (auto simp: PostSendFront_NoLock_def split: bind_splits)
    then show ?thesis
      by (rule on_session_keeps_open) simp
  next
    case False
    then obtain front rest where q: "sendQ x = front # rest"
      by (auto simp: neq_Nil_conv)
    let ?w2 = "w\<lparr>heap := (heap w)(s \<mapsto> x\<lparr>refCount := refCount x + 1\<rparr>), calls := calls w + 1\<rparr>"
    have u: "keeps_open t w ?w2"
      using x by (simp add: keeps_open_def live_def)
    show ?thesis
    proof (cases "send_ok os (calls w)")
      case True
      then show ?thesis
        using assms x False q
        by (auto simp: PostSendFront_NoLock_def AddRef_def on_session_def Let_def keeps_open_def live_def emit_def)
    next
      case refused: False
      obtain w3 where w3: "Release s ?w2 = Some w3" and w': "on_session s (\<lambda>x. x\<lparr>sending := False\<rparr>) w3 = Some w'"
        using assms x False q refused
        by (auto simp: PostSendFront_NoLock_def AddRef_def on_session_def Let_def split: bind_splits)
      have "keeps_open t w3 w'"
        using w' by (rule on_session_keeps_open) simp
      then show ?thesis
        by (rule keeps_open_trans [OF keeps_open_trans [OF u Release_keeps_open [OF w3]]])
    qed
  qed
qed

locale quiet_callback =
  fixes od :: "sref \<Rightarrow> ('x, 'm) net \<Rightarrow> ('x, 'm) net option"
  assumes od_quiet: "od s w = Some w' \<Longrightarrow> map_option closing (heap w' t) = map_option closing (heap w t)
      \<and> heap w' t = heap w t \<and> events w' = events w"
begin

lemma Close_elsewhere:
  assumes "Close od s w = Some w'" and "t \<noteq> s"
  shows "elsewhere t w w'"
proof -
  obtain x where x: "heap w s = Some x"
    using assms by (auto simp: Close_def split: bind_splits)
  show ?thesis
  proof (cases "closing x")
    case True
    then show ?thesis
      using assms x by (simp add: Close_def)
  next
    case False
    let ?w1 = "emit (Disconnected s) (RemoveSession s (w\<lparr>heap := (heap w)(s \<mapsto> closed_session x)\<rparr>))"
    obtain w2 where w2: "od s ?w1 = Some w2" "Release s w2 = Some w'"
      using assms x False by (auto simp: Close_def on_session_def NotifyDisconnected_def split: bind_splits)
    have "elsewhere t w ?w1"
      using assms(2) by (simp add: elsewhere_def emit_def RemoveSession_def)
    moreover have "elsewhere t ?w1 w2"
      using od_quiet [OF w2(1)] by (simp add: elsewhere_def)
    ultimately show ?thesis
      using Release_elsewhere [OF w2(2) assms(2)] elsewhere_trans by blast
  qed
qed

lemma EnqueueSend_elsewhere:
  assumes "EnqueueSend os od s buf w = Some w'" and "t \<noteq> s"
  shows "elsewhere t w w'"
proof (cases "buf = None \<or> writeSize (the buf) \<le> 0")
  case True
  then show ?thesis
    using assms by (auto simp: EnqueueSend_def split: option.splits)
next
  case False
  then obtain sb x where sb: "buf = Some sb" "\<not> writeSize sb \<le> 0" and x: "heap w s = Some x"
    using assms by (auto simp: EnqueueSend_def split: bind_splits)
  let ?q = "w\<lparr>heap := (heap w)(s \<mapsto> x\<lparr>sendQ := sendQ x @ [sb]\<rparr>)\<rparr>"
  show ?thesis
  proof (cases "closing x \<or> MAX_SEND_QUEUE_SIZE \<le> length (sendQ x) \<or> sending x")
    case True
    then have "w' = w \<or> Close od s w = Some w' \<or> w' = ?q"
      using assms sb x by (auto simp: EnqueueSend_def on_session_def split: if_splits)
    moreover have "elsewhere t w ?q"
      using assms(2) by (simp add: elsewhere_def)
    ultimately show ?thesis
      using Close_elsewhere assms(2) by auto
  next
    case False
    let ?w1 = "w\<lparr>heap := (heap w)(s \<mapsto> x\<lparr>sendQ := sendQ x @ [sb], sending := True\<rparr>)\<rparr>"
    obtain b w2 where w2: "PostSendFront_NoLock os s ?w1 = Some (b, w2)" "(if b then Some w2 else Close od s w2) = Some w'"
      using assms sb x False by (auto simp: EnqueueSend_def on_session_def split: if_splits bind_splits)
    have "elsewhere t w ?w1"
      using assms(2) by (simp add: elsewhere_def)
    then have "elsewhere t w w2"
      using PostSendFront_elsewhere [OF w2(1) assms(2)] elsewhere_trans by blast
    then show ?thesis
      using w2(2) elsewhere_trans [of t w w2 w'] Close_elsewhere [of s w2 w' t] assms(2) by (cases b) auto
  qed
qed

lemma Close_keeps_open:
  assumes "Close od s w = Some w'"
  shows "keeps_open t w w'"
proof (cases "t = s")
  case True
  obtain x where "heap w s = Some x"
    using assms by (auto simp: Close_def split: bind_splits)
  from Close_closes [OF assms this] od_quiet have "live w' s = None"
    by (auto simp: live_def split: option.splits)
  then show ?thesis
    using True by (simp add: keeps_open_def)
qed (use Close_elsewhere [OF assms] elsewhere_keeps_open in blast)

lemma EnqueueSend_keeps_open:
  assumes "EnqueueSend os od s buf w = Some w'"
  shows "keeps_open t w w'"
proof (cases "buf = None \<or> writeSize (the buf) \<le> 0")
  case True
  then show ?thesis
    using assms by (auto simp: EnqueueSend_def keeps_open_def split: option.splits)
next
  case False
  then obtain sb x where sb: "buf = Some sb" "\<not> writeSize sb \<le> 0" and x: "heap w s = Some x"
    using assms by (auto simp: EnqueueSend_def split: bind_splits)
  let ?q = "w\<lparr>heap := (heap w)(s \<mapsto> x\<lparr>sendQ := sendQ x @ [sb]\<rparr>)\<rparr>"
  show ?thesis
  proof (cases "closing x \<or> MAX_SEND_QUEUE_SIZE \<le> length (sendQ x) \<or> sending x")
    case True
    then have "w' = w \<or> Close od s w = Some w' \<or> w' = ?q"
      using assms sb x by (auto simp: EnqueueSend_def on_session_def split: if_splits)
    moreover have "keeps_open t w ?q" and "keeps_open t w w"
      using x by (simp_all add: keeps_open_def live_def)
    ultimately show ?thesis
      using Close_keeps_open by auto
  next
    case False
    let ?w1 = "w\<lparr>heap := (heap w)(s \<mapsto> x\<lparr>sendQ := sendQ x @ [sb], sending := True\<rparr>)\<rparr>"
    obtain b w2 where w2: "PostSendFront_NoLock os s ?w1 = Some (b, w2)" "(if b then Some w2 else Close od s w2) = Some w'"
      using assms sb x False by (auto simp: EnqueueSend_def on_session_def split: if_splits bind_splits)
    have "keeps_open t w ?w1"
      using x by (simp add: keeps_open_def live_def)
    then have "keeps_open t w w2"
      using PostSendFront_keeps_open [OF w2(1)] by (rule keeps_open_trans)
    then show ?thesis
      using w2(2) keeps_open_trans [of t w w2 w'] Close_keeps_open [of s w2 w' t] by (cases b) auto
  qed
qed

text \<open>Closing a list of sessions closes them and opens none.\<close>

lemma Close_all:
  "for_each (Close od) ss w = Some w' \<Longrightarrow> live w' t \<noteq> None \<Longrightarrow> live w t \<noteq> None \<and> t \<notin> set ss"
proof (induction ss arbitrary: w)
  case (Cons s ss)
  then obtain w1 where w1: "Close od s w = Some w1" "for_each (Close od) ss w1 = Some w'"
    by (auto split: bind_splits)
  have IH: "live w1 t \<noteq> None \<and> t \<notin> set ss"
    by (rule Cons.IH [OF w1(2) Cons.prems(2)])
  obtain x where x: "heap w s = Some x"
    using w1(1) by (auto simp: Close_def split: bind_splits)
  have "live w1 s = None"
    using Close_closes [OF w1(1) x] od_quiet by (auto simp: live_def split: option.splits)
  then have "t \<noteq> s"
    using IH by auto
  then show ?case
    using IH elsewhere_accepted [OF Close_elsewhere [OF w1(1)]] by simp
qed simp

end

interpretation server_quiet: quiet_callback OnDisconnected
  by unfold_locales (auto simp: OnDisconnected_def PostTask_def put_player_def split: option.splits bind_splits)

subsection \<open>Broadcasting in the room\<close>

text \<open>Sending to another player leaves this player's session as it is.\<close>

lemma RoomSend_elsewhere:
  assumes "safe_at H m L Q P D w" and "RoomSend os q buf w = Some w'" and "live w s = Some (ClientSession.fields (Some p))"
    and "q \<noteq> p"
  shows "elsewhere s w w'"
proof -
  obtain ql where ql: "store (app w) q = Some ql"
    using assms(2) by (auto simp: RoomSend_def split: bind_splits)
  show ?thesis
  proof (cases "session ql")
    case None
    then show ?thesis
      using assms(2) ql by (simp add: RoomSend_def)
  next
    case (Some t)
    have "live w t = Some (ClientSession.fields (Some q))"
      by (rule room_invD(5) [OF safe_room [OF assms(1)] ql Some])
    then have "t \<noteq> s"
      using assms(3,4) by (auto simp: fields_inject)
    then show ?thesis
      using server_quiet.EnqueueSend_elsewhere [of os t buf w w' s] assms(2) ql Some by (simp add: RoomSend_def)
  qed
qed

lemma RoomSend_others:
  assumes "for_each (\<lambda>q w. if Some q = except then Some w else RoomSend os q buf w) qs w = Some w'"
    and "safe_at H m L Q P D w" and "set qs \<subseteq> D" and "live w s = Some (ClientSession.fields (Some p))"
    and "p \<notin> set qs \<or> Some p = except"
  shows "safe_at H m L Q P D w' \<and> elsewhere s w w'"
  using assms
proof (induction qs arbitrary: w)
  case (Cons q qs)
  show ?case
  proof (cases "Some q = except")
    case True
    then show ?thesis
      using Cons by auto
  next
    case False
    then obtain w1 where w1: "RoomSend os q buf w = Some w1"
        "for_each (\<lambda>q w. if Some q = except then Some w else RoomSend os q buf w) qs w1 = Some w'"
      using Cons.prems(1) by (auto split: bind_splits)
    have "q \<in> dom (store (app w))"
      using room_invD(2) [OF safe_room [OF Cons.prems(2)]] Cons.prems(3) by auto
    then have s1: "safe_at H m L Q P D w1"
      using RoomSend_ok [OF Cons.prems(2), of q os buf] w1(1) by auto
    have "q \<noteq> p"
      using Cons.prems(5) False by auto
    then have e1: "elsewhere s w w1"
      by (rule RoomSend_elsewhere [OF Cons.prems(2) w1(1) Cons.prems(4)])
    then have "live w1 s = Some (ClientSession.fields (Some p))"
      using elsewhere_accepted [OF e1] Cons.prems(4) by simp
    then show ?thesis
      using Cons.IH [OF w1(2) s1] Cons.prems(3,5) elsewhere_trans [OF e1] by auto
  qed
qed simp

lemma RoomSend_keeps_open: "RoomSend os q buf w = Some w' \<Longrightarrow> keeps_open t w w'"
  by (auto simp: RoomSend_def dest: server_quiet.EnqueueSend_keeps_open split: option.splits bind_splits)

lemma RoomSends_keep_open:
  "for_each (\<lambda>q w. if Some q = except then Some w else RoomSend os q buf w) qs w = Some w' \<Longrightarrow> keeps_open t w w'"
proof (induction qs arbitrary: w)
  case (Cons q qs)
  then obtain w1 where "(if Some q = except then Some w else RoomSend os q buf w) = Some w1"
      "for_each (\<lambda>q w. if Some q = except then Some w else RoomSend os q buf w) qs w1 = Some w'"
    by (auto split: bind_splits)
  then have "keeps_open t w w1" and "keeps_open t w1 w'"
    using Cons.IH RoomSend_keeps_open by (auto simp: keeps_open_def split: if_splits)
  then show ?case
    by (rule keeps_open_trans)
qed (simp add: keeps_open_def)

lemma RoomBroadcast_delivers:
  assumes "safe_at H m L Q P D w" and "RoomBroadcast os (Some sb) except w = Some w'" and "0 < writeSize sb"
    and "live w s = Some (ClientSession.fields (Some p))"
  shows "if p \<in> snd ` set (players (app w)) \<and> Some p \<noteq> except
    then live w' s \<noteq> None \<longrightarrow> accepted s w' = accepted s w @ [sb]
    else elsewhere s w w'"
proof -
  let ?f = "\<lambda>q w. if Some q = except then Some w else RoomSend os q (Some sb) w"
  let ?ps = "map snd (players (app w))" and ?D = "dom (store (app w))"
  have safe: "safe_at H m L Q P ?D w"
    using assms(1) by (rule safe_dom)
  have D: "set ?ps \<subseteq> ?D"
    using room_invD(6) [OF safe_room [OF assms(1)]] by fastforce
  have run: "for_each ?f ?ps w = Some w'"
    using assms(2) by (simp add: RoomBroadcast_def)
  show ?thesis
  proof (cases "p \<in> set ?ps \<and> Some p \<noteq> except")
    case False
    then show ?thesis
      using RoomSend_others [OF run safe D assms(4)] by auto
  next
    case True
    then obtain ps1 ps2 where ps: "?ps = ps1 @ p # ps2"
      by (meson split_list)
    then have notin: "p \<notin> set ps1" "p \<notin> set ps2"
      using room_inv_distinct [OF safe_room [OF assms(1)]] by auto
    obtain w1 w2 where w1: "for_each ?f ps1 w = Some w1" and w2: "RoomSend os p (Some sb) w1 = Some w2"
      and w3: "for_each ?f ps2 w2 = Some w'"
      using run True ps by (auto simp: for_each_append split: bind_splits)
    have s1: "safe_at H m L Q P ?D w1" "elsewhere s w w1"
      using RoomSend_others [OF w1 safe _ assms(4)] D ps notin by auto
    have p: "p \<in> ?D"
      using D ps by auto
    then have "p \<in> dom (store (app w1))"
      using room_invD(2) [OF safe_room [OF s1(1)]] by auto
    then have s2: "safe_at H m L Q P ?D w2"
      using RoomSend_ok [OF s1(1), of p os "Some sb"] w2 by auto
    have l1: "live w1 s = Some (ClientSession.fields (Some p))"
      using elsewhere_accepted [OF s1(2)] assms(4) by simp
    then obtain pl where pl: "store (app w1) p = Some pl" "session pl = Some s"
      using room_invD(4) [OF safe_room [OF s1(1)]] by blast
    then have send: "EnqueueSend os OnDisconnected s (Some sb) w1 = Some w2"
      using w2 by (simp add: RoomSend_def)
    show ?thesis
    proof (cases "live w2 s = None")
      case True
      then have "live w' s = None"
        using RoomSends_keep_open [OF w3, of s] by (simp add: keeps_open_def)
      then show ?thesis
        using \<open>p \<in> set ?ps \<and> Some p \<noteq> except\<close> by auto
    next
      case False
      obtain h f r where "ok h f r (view s w1)"
        using s1(1) by (cases "H s") (auto simp: safe_at_def dest: held_ok_view [of _ _ s])
      then have a2: "accepted s w2 = accepted s w1 @ [sb]"
        using EnqueueSend_accepted [OF send _ _ assms(3) False] l1 OnDisconnected_heap by simp
      have "live w2 s = Some (ClientSession.fields (Some p))"
        using RoomSend_keeps_open [OF w2, of s] False l1 by (simp add: keeps_open_def)
      then have "elsewhere s w2 w'"
        using RoomSend_others [OF w3 s2] D ps notin by auto
      then show ?thesis
        using a2 elsewhere_accepted [OF s1(2)] elsewhere_accepted [of s w2 w'] \<open>p \<in> set ?ps \<and> Some p \<noteq> except\<close> by auto
    qed
  qed
qed

subsection \<open>Stopping\<close>

interpretation serving: callback_effect OnDisconnected "\<lambda>w w'. service w' = service w"
  by unfold_locales (auto simp: untouched_def OnDisconnected_def PostTask_def put_player_def service_def
      split: option.splits bind_splits)

lemma service_eqD:
  assumes "service w = service w'"
  shows "mode w = mode w'" and "running w = running w'" and "listening w = listening w'"
  using assms by (simp_all only: service_def prod.inject)

lemma Stop_closes:
  assumes "Stop OnDisconnected w = Some w'" and "running w" and "net_ok w" and "net_ok w'"
  shows "live w' s = None"
proof (rule ccontr)
  assume l: "live w' s \<noteq> None"
  let ?w1 = "w\<lparr>running := False, listening := False\<rparr>"
  obtain w2 where w2: "for_each (Close OnDisconnected) (sessions ?w1) ?w1 = Some w2"
    and w': "w' = (if iocp_open w2 then w2\<lparr>workers := 0, iocp_open := False\<rparr> else w2)"
    using assms(1,2) by (auto simp: Stop_def Let_def split: bind_splits)
  have "live w2 s \<noteq> None"
    using l by (simp add: w' live_def split: if_splits)
  from server_quiet.Close_all [OF w2 this] have "live w s \<noteq> None" and "s \<notin> set (sessions w)"
    by (simp_all add: live_def)
  then show False
    using net_ok_session [OF assms(3)] by simp
qed

subsection \<open>Receiving refines the stream decoder\<close>

text \<open>A handler that accepts every packet and keeps it, and what such a session has delivered.\<close>

definition collect :: "sref \<Rightarrow> Packet \<Rightarrow> ('x, Packet list) net \<Rightarrow> (bool \<times> ('x, Packet list) net) option" where
  "collect s pkt w = Some (True, w\<lparr>app := app w @ [pkt]\<rparr>)"

definition received :: "sref \<Rightarrow> ('x, Packet list) net \<Rightarrow> Packet list \<times> byte list option" where
  "received s w = (app w, case heap w s of None \<Rightarrow> None
     | Some x \<Rightarrow> if closing x then None else Some (recvStream x))"

lemma Close_received:
  assumes "heap w s = Some x" and "\<not> closing x"
  shows "\<exists>w'. Close (\<lambda>_. Some) s w = Some w' \<and> received s w' = (app w, None)"
  using assms
  by (auto simp: Close_def on_session_def NotifyDisconnected_def Release_def emit_def RemoveSession_def
      received_def closed_session_def)

lemma PostRecv_received:
  assumes "heap w s = Some x" and "\<not> closing x" and "\<And>n. recv_ok os n"
  shows "\<exists>w'. PostRecv os (\<lambda>_. Some) s w = Some w' \<and> received s w' = (app w, Some (recvStream x))"
  using assms by (simp add: PostRecv_def AddRef_def on_session_def Let_def received_def)

lemma TryGetPacket_failure: "TryGetPacket stream out = (result, rest, p) \<Longrightarrow> result \<noteq> Success \<Longrightarrow> rest = stream"
  by (auto simp: TryGetPacket_def Let_def split: if_splits)

lemma recv_loop_received:
  assumes "heap w s = Some x" and "\<not> closing x" and "\<And>n. recv_ok os n"
  shows "\<exists>w'. recv_loop os (\<lambda>_. Some) collect s w = Some w'
    \<and> received s w' = (app w @ fst (read_packets (recvStream x)), snd (read_packets (recvStream x)))"
  using assms(1,2)
proof (induction "length (recvStream x)" arbitrary: w x rule: less_induct)
  case less
  obtain result rest pkt where t: "TryGetPacket (recvStream x) Packet_new = (result, rest, pkt)"
    by (metis prod_cases3)
  let ?x1 = "x\<lparr>recvStream := rest\<rparr>"
  let ?w1 = "w\<lparr>heap := (heap w)(s \<mapsto> ?x1)\<rparr>"
  have x1: "heap ?w1 s = Some ?x1" "\<not> closing ?x1"
    using less.prems by simp_all
  show ?case
  proof (cases "result = Success")
    case True
    let ?w2 = "?w1\<lparr>app := app w @ [pkt]\<rparr>"
    have step: "recv_loop os (\<lambda>_. Some) collect s w = recv_loop os (\<lambda>_. Some) collect s ?w2"
      using less.prems t True by (subst recv_loop.simps) (simp add: on_session_def collect_def)
    have "length (recvStream ?x1) < length (recvStream x)" and "heap ?w2 s = Some ?x1"
      using packets.frame_shorter t True by (auto simp: decode_packet_simps)
    from less.hyps [OF this x1(2)] obtain w' where "recv_loop os (\<lambda>_. Some) collect s ?w2 = Some w'"
      "received s w' = (app w @ [pkt] @ fst (read_packets rest), snd (read_packets rest))"
      by auto
    then show ?thesis
      using step t True by (simp add: packets.drain_cases(1) [of _ pkt rest] decode_packet_simps)
  next
    case False
    then have rest: "rest = recvStream x"
      using TryGetPacket_failure [OF t] by simp
    have w1: "?w1 = w"
      using less.prems(1) by (simp add: rest fun_upd_idem)
    show ?thesis
    proof (cases "result = Incomplete")
      case True
      then have "recv_loop os (\<lambda>_. Some) collect s w = PostRecv os (\<lambda>_. Some) s w"
        using less.prems t w1 by (subst recv_loop.simps) (simp add: on_session_def)
      then show ?thesis
        using PostRecv_received [OF less.prems assms(3)] t True
        by (simp add: packets.drain_cases(2) decode_packet_simps)
    next
      case bad: False
      then have "recv_loop os (\<lambda>_. Some) collect s w = Close (\<lambda>_. Some) s w"
        using less.prems t w1 False by (subst recv_loop.simps) (simp add: on_session_def)
      then show ?thesis
        using Close_received [OF less.prems] t False bad
        by (simp add: packets.drain_cases(3) decode_packet_simps)
    qed
  qed
qed

subsection \<open>Properties\<close>

text \<open>C15: A broadcast in the room reaches everyone it should, once: after \<open>Broadcast (buf, except)\<close> the buffer has joined the end of the accepted buffers of the session of every player of the table but \<open>except\<close>, if that session is still open, and the sessions of all other players are untouched.\<close>

theorem broadcast_reaches_everyone:
  assumes "safe_at H m L Q P D w" and "RoomBroadcast os (Some sb) except w = Some w'" and "0 < writeSize sb"
    and "store (app w) p = Some pl" and "session pl = Some s"
  shows "if p \<in> snd ` set (players (app w)) \<and> Some p \<noteq> except
    then live w' s \<noteq> None \<longrightarrow> accepted s w' = accepted s w @ [sb]
    else heap w' s = heap w s \<and> accepted s w' = accepted s w"
  using RoomBroadcast_delivers [OF assms(1-3) room_invD(5) [OF safe_room [OF assms(1)] assms(4,5)]]
    elsewhere_accepted [of s w w']
  by (auto simp: elsewhere_def split: if_splits)

theorem broadcast_reaches_everyone_witness:
  "\<exists>w'. RoomBroadcast demo_os (Some (buffer_of [1])) (Some 0) demo_playing = Some w' \<and> accepted 5 w' = accepted 5 demo_playing"
proof -
  obtain w' where w': "RoomBroadcast demo_os (Some (buffer_of [1])) (Some 0) demo_playing = Some w'"
    using RoomBroadcast_ok [OF demo_playing_safe] by blast
  have "session (demo_player\<lparr>entered := True, inputBuffer := [zero_input\<lparr>inputSeq := 7\<rparr>, zero_input]\<rparr>) = Some 5"
    by (simp add: demo_player_def SetSession_def)
  from broadcast_reaches_everyone [OF demo_playing_safe w' _ demo_playing_player(1) this] w' show ?thesis
    by simp
qed

text \<open>C16: Stopping closes everything: after \<open>NetService::Stop\<close> of the running server no session is open, the registry is empty, and the service no longer runs or listens; what is still outstanding stays on sessions that are closing.\<close>

theorem stop_closes_all:
  assumes "safe m L Q P D w" and "running w"
  shows "\<exists>w'. Stop OnDisconnected w = Some w' \<and> safe m L Q P D w' \<and> sessions w' = [] \<and> \<not> running w' \<and> \<not> listening w'
    \<and> (\<forall>s x. heap w' s = Some x \<longrightarrow> closing x)"
proof -
  have w: "net_ok w" "server_inv m L Q P D (live w) (app w)"
    using assms(1) by (simp_all add: safe_def)
  from disc.Stop_ok [OF w]
  obtain w' where w': "Stop OnDisconnected w = Some w'" "net_ok w'" "server_inv m L Q P D (live w') (app w')"
    by (elim exE conjE)
  have dead: "live w' s = None" for s
    by (rule Stop_closes [OF w'(1) assms(2) w(1) w'(2)])
  have "t \<notin> set (sessions w')" for t
    using net_ok_session [OF w'(2), of t] dead [of t] by simp
  then have "sessions w' = []"
    by (cases "sessions w'") auto
  moreover have "\<forall>s x. heap w' s = Some x \<longrightarrow> closing x"
  proof (intro allI impI)
    fix s x assume "heap w' s = Some x"
    then show "closing x"
      using dead [of s] by (simp add: live_def split: if_splits)
  qed
  moreover have "\<not> running w' \<and> \<not> listening w'"
  proof -
    let ?w1 = "w\<lparr>running := False, listening := False\<rparr>"
    obtain w2 where w2: "for_each (Close OnDisconnected) (sessions ?w1) ?w1 = Some w2"
      and w'2: "w' = (if iocp_open w2 then w2\<lparr>workers := 0, iocp_open := False\<rparr> else w2)"
      using w'(1) assms(2) by (auto simp: Stop_def Let_def split: bind_splits)
    have same: "service w2 = service ?w1"
      by (rule serving.for_each_R [OF w2]) (rule serving.Close_R)
    have "\<not> running w2" and "\<not> listening w2"
      using service_eqD(2,3) [OF same] by simp_all
    then show ?thesis
      by (simp add: w'2)
  qed
  moreover have "safe m L Q P D w'"
    using w'(2,3) by (simp add: safe_def)
  ultimately show ?thesis
    using w'(1) by (intro exI [of _ w'] conjI) simp_all
qed

theorem stop_closes_all_witness:
  "\<exists>w'. Stop OnDisconnected demo_playing = Some w' \<and> sessions w' = [] \<and> \<not> running w'"
proof -
  have "running demo_playing"
    by (simp add: demo_playing_def demo_world_def exec_def accept_round_def demo_app CreateAndRegisterSession_def demo_os_def Start_def
      OnConnected_def put_player_def on_session_def PostTask_def PostRecv_def AddRef_def emit_def AddSession_def
      Session_new_def Let_def)
  from stop_closes_all [OF demo_playing_safe this] show ?thesis by blast
qed

text \<open>C5: The session's receive path implements the stream decoder: with a handler that accepts every packet and receives that can be posted, \<open>OnRecvComplete\<close> returns, and does to the packets delivered and the buffer kept (none, once the session closed) exactly what the decoder's step does with the bytes received.\<close>

theorem receive_path_refines_decoder:
  assumes "heap w s = Some x" and "\<And>n. recv_ok os n"
  shows "\<exists>w'. OnRecvComplete os (\<lambda>_. Some) collect s bytes w = Some w'
    \<and> received s w' = receive_piece bytes (received s w)"
proof (cases "closing x")
  case True
  then show ?thesis
    using assms(1) by (simp add: OnRecvComplete_def received_def receive_piece_def)
next
  case False
  let ?x1 = "x\<lparr>recvStream := recvStream x @ bytes\<rparr>"
  let ?w1 = "w\<lparr>heap := (heap w)(s \<mapsto> ?x1)\<rparr>"
  have "OnRecvComplete os (\<lambda>_. Some) collect s bytes w = recv_loop os (\<lambda>_. Some) collect s ?w1"
    using assms(1) False by (simp add: OnRecvComplete_def on_session_def)
  moreover have "heap ?w1 s = Some ?x1" and "\<not> closing ?x1"
    using False by simp_all
  from recv_loop_received [OF this assms(2)] obtain w' where "recv_loop os (\<lambda>_. Some) collect s ?w1 = Some w'"
    "received s w' = (app w @ fst (read_packets (recvStream x @ bytes)), snd (read_packets (recvStream x @ bytes)))"
    by auto
  ultimately show ?thesis
    using assms(1) False by (simp add: received_def receive_piece_def split_def)
qed

theorem receive_path_refines_decoder_witness:
  "\<exists>w'. OnRecvComplete demo_os (\<lambda>_. Some) collect 5 [4, 0, 234, 3, 7]
       \<lparr>heap = [5 \<mapsto> Session_new ()], sessions = [5], pending = [], calls = 0, events = [], mode = Mode_Server,
        running = True, listening = True, iocp_open = True, workers = 1, app = []\<rparr> = Some w'
     \<and> received 5 w' = receive_piece [4, 0, 234, 3, 7] ([], Some [])"
proof -
  let ?w = "\<lparr>heap = [5 \<mapsto> Session_new ()], sessions = [5], pending = [], calls = 0, events = [], mode = Mode_Server,
        running = True, listening = True, iocp_open = True, workers = 1, app = []\<rparr> :: (unit, Packet list) net"
  have "heap ?w 5 = Some (Session_new ())" and "\<And>n. recv_ok demo_os n"
    by (simp_all add: demo_os_def)
  from receive_path_refines_decoder [OF this, of "[4, 0, 234, 3, 7]"] show ?thesis
    by (simp add: received_def Session_new_def)
qed

text \<open>The receive loop ends: every packet taken off a stream consumes at least the four bytes of its header, so a completion of at most 4096 bytes on a buffer of \<open>n\<close> bytes is over after at most \<open>(n + 4096) / 4\<close> packets.\<close>

theorem receive_loop_bounded:
  assumes "length bytes \<le> RECV_POST_SIZE"
  shows "length (fst (read_packets (buf @ bytes))) \<le> (length buf + RECV_POST_SIZE) div 4"
proof -
  have "4 * length (fst (read_packets s)) \<le> length s" for s
  proof (induction "length s" arbitrary: s rule: less_induct)
    case less
    show ?case
    proof (cases "decode_packet s")
      case (Frame p r)
      then have r: "length r + 4 \<le> length s"
        using TryGetPacket_progress by (fastforce simp: decode_packet_simps)
      then show ?thesis
        using less [of r] by (simp add: packets.drain_cases(1) [OF Frame])
    qed (simp_all add: packets.drain_cases)
  qed
  from this [of "buf @ bytes"] assms show ?thesis
    by simp
qed

theorem receive_loop_bounded_witness:
  "length (fst (read_packets ([] @ [4, 0, 234, 3]))) \<le> (length ([] :: byte list) + RECV_POST_SIZE) div 4"
  by (rule receive_loop_bounded) (simp add: RECV_POST_SIZE_def)

end
