(* ===== verification/Races.thy ===== *)
theory Races
  imports Threads Delivery
begin

text \<open>
  What the threads can do to each other where the code takes no lock: the room reads a session
  pointer and uses it later, and a packet is handled after its session has closed.
\<close>

subsection \<open>A send in two halves\<close>

text \<open>
  \<open>Send\<close> and \<open>Broadcast\<close> read the player's session pointer and then call through it, without a
  reference and without a lock around both.
\<close>

definition read_session :: "pref \<Rightarrow> server \<Rightarrow> sref option option" where
  "read_session p w = map_option session (store (app w) p)"

definition send_through :: "os_api \<Rightarrow> sref option \<Rightarrow> SendBufferRef \<Rightarrow> server \<Rightarrow> server option" where
  "send_through os ss buf w = (case ss of None \<Rightarrow> Some w | Some s \<Rightarrow> EnqueueSend os OnDisconnected s buf w)"

lemma RoomSend_halves: "RoomSend os p buf w = do { ss \<leftarrow> read_session p w; send_through os ss buf w }"
  by (cases "store (app w) p") (simp_all add: RoomSend_def read_session_def send_through_def)

text \<open>A call through the pointer is defined exactly as long as the session is allocated.\<close>

lemma send_through_iff:
  assumes "safe m L Q P D w" and "0 < writeSize sb"
  shows "send_through os (Some s) (Some sb) w = None \<longleftrightarrow> heap w s = None"
proof (cases "heap w s")
  case None
  then show ?thesis
    using assms(2) by (simp add: send_through_def EnqueueSend_def)
next
  case (Some x)
  with disc.EnqueueSend_net_ok [of w m L Q P D s os "Some sb"] assms(1) show ?thesis
    by (auto simp: send_through_def safe_def)
qed

text \<open>The failure of the only outstanding operation of an open session frees it.\<close>

lemma single_operation:
  assumes "ok 0 False False (view s w)" and "heap w s = Some x" and "\<not> closing x" and "sendQ x = []"
  obtains i where "i < length (pending w)" and "fst (pending w ! i) = s" and "ioType (snd (pending w ! i)) = RECV"
    and "refCount x = 2"
proof -
  let ?v = "filter (\<lambda>p. fst p = s) (pending w)"
  have v: "recvs (map snd ?v) = 1" "sends (map snd ?v) = []" "refCount x = 1 + int (length ?v)"
    using assms by (auto simp: ok_def view_def)
  have "length cs = recvs cs + length (sends cs)" for cs
  proof (induction cs)
    case (Cons c cs)
    then show ?case
      by (cases "ioType c") simp_all
  qed simp
  from this [of "map snd ?v"] have "length ?v = recvs (map snd ?v) + length (sends (map snd ?v))"
    by simp
  with v have len: "length ?v = 1"
    by simp
  then obtain c where c: "?v = [c]"
    by (auto simp: length_Suc_conv)
  then have "c \<in> set (pending w)" "fst c = s"
    by (auto simp: filter_eq_Cons_iff)
  then show ?thesis
    using that v len c by (auto simp: in_set_conv_nth split: if_splits)
qed

lemma failed_receive_frees:
  assumes "i < length (pending w)" and "pending w ! i = (s, c)" and "heap w s = Some x" and "\<not> closing x"
    and "refCount x = 2" and "csPlayer x = Some p" and "store (app w) p = Some pl"
  shows "\<exists>w'. worker_round os OnDisconnected hp i False [] w = Some w' \<and> heap w' s = None"
  using assms
  by (simp add: worker_round_def Close_def on_session_def NotifyDisconnected_def emit_def RemoveSession_def OnDisconnected_def
    closed_session_def PostTask_def put_player_def Release_def Let_def)

subsection \<open>A connection in two halves\<close>

text \<open>
  \<open>Start\<close> runs the connect callback, which makes the new player known to the game loop, and then posts
  the first receive. Up to the callback, \<open>CreateAndRegisterSession\<close> does this.
\<close>

definition connect_session ::
  "os_api \<Rightarrow> (sref \<Rightarrow> ('x, 'm) net \<Rightarrow> ('x, 'm) net option) \<Rightarrow> 'x \<Rightarrow> sref \<Rightarrow> ('x, 'm) net \<Rightarrow> (bool \<times> ('x, 'm) net) option" where
  "connect_session os oc x a w = do {
     let w = w\<lparr>heap := (heap w)(a \<mapsto> Session_new x)\<rparr>;
     let associated = assoc_ok os (calls w);
     let w = w\<lparr>calls := calls w + 1\<rparr>;
     if \<not> associated then Some (False, w\<lparr>heap := (heap w)(a := None)\<rparr>)
     else do { w \<leftarrow> NotifyConnected oc a (AddSession a w); Some (True, w) }
   }"

lemma CreateAndRegisterSession_halves:
  "CreateAndRegisterSession os oc od x a w = do {
     (ok, w) \<leftarrow> connect_session os oc x a w;
     if ok then do { w \<leftarrow> PostRecv os od a w; Some (True, w) } else Some (False, w)
   }"
  by (simp add: CreateAndRegisterSession_def connect_session_def Start_def Let_def)

text \<open>A refused send on a session nobody else refers to closes and frees it.\<close>

lemma refused_send_frees:
  assumes "heap w a = Some x" and "\<not> closing x" and "refCount x = 1" and "sendQ x = []" and "\<not> sending x"
    and "csPlayer x = Some p" and "store (app w) p = Some pl" and "\<not> send_ok os (calls w)" and "0 < writeSize sb"
  shows "\<exists>w'. EnqueueSend os OnDisconnected a (Some sb) w = Some w' \<and> heap w' a = None"
  using assms
  by (simp add: EnqueueSend_def on_session_def PostSendFront_NoLock_def AddRef_def MAX_SEND_QUEUE_SIZE_def Let_def
    Release_def Close_def closed_session_def NotifyDisconnected_def RemoveSession_def OnDisconnected_def emit_def
    put_player_def PostTask_def)

lemma connect_session_OnConnected:
  fixes w :: server
  assumes "assoc_ok os (calls w)"
  obtains w1 where "connect_session os OnConnected (ClientSession.fields None) a w = Some (True, w1)"
    and "heap w1 a = Some (Session_new (ClientSession.fields (Some (nextRef (app w)))))" and "calls w1 = calls w + 1"
    and "store (app w1) (nextRef (app w)) = Some (SetSession (Some a) (Player_new (nextPlayerId (app w)) ''''))"
    and "Task_Enter (nextRef (app w)) \<in> set (taskQueue (app w1))"
  using assms that
  by (simp add: connect_session_def OnConnected_def on_session_def Let_def put_player_def PostTask_def emit_def AddSession_def
    Session_new_def ClientSession.fields_def)

subsection \<open>Properties\<close>






end
