(* ===== verification/RoomProtocol.thy ===== *)
theory RoomProtocol
  imports PlayerTable
begin

text \<open>
  What the room tells its clients: the velocity it reports, the messages around entering the
  game, and who may chat.
\<close>

subsection \<open>The horizontal velocity is never set\<close>

lemma move_horizontal_vel_x:
  "move_horizontal m mx d s = Some s' \<Longrightarrow> vecx (vel s) = fzero \<Longrightarrow> vecx (vel s') = fzero"
  by (auto simp: move_horizontal_def Let_def split: if_splits bind_splits)

lemma fall_loop_vel_x: "fall_loop m ig d n s = Some s' \<Longrightarrow> vecx (vel s') = vecx (vel s)"
proof (induction n arbitrary: s)
  case (Suc n)
  then show ?case
    by (fastforce simp: Let_def split: if_splits bind_splits)
qed simp

lemma move_vertical_vel_x: "move_vertical m d ig s = Some s' \<Longrightarrow> vecx (vel s') = vecx (vel s)"
  by (auto simp: move_vertical_def Let_def dest: fall_loop_vel_x split: if_splits bind_splits)

lemma walk_step_vel_x:
  assumes "walk_step m cmd dt s = Some s'" and "vecx (vel s) = fzero"
  shows "vecx (vel s') = fzero"
proof -
  let ?d = "use_dt cmd dt"
  let ?s0 = "update_direction cmd (move_x cmd) (update_drop_timer cmd ?d s)"
  let ?ig = "fgt (dropThroughTimer (update_drop_timer cmd ?d s)) fzero"
  obtain s1 s2 s3 where s1: "ground_jump_gravity m cmd ?d ?ig ?s0 = Some s1"
    and s2: "move_horizontal m (move_x cmd) ?d s1 = Some s2" and s3: "move_vertical m ?d ?ig s2 = Some s3"
    and s': "s' = update_last_seq cmd s3"
    using assms(1) by (auto simp: walk_step_def Let_def split: bind_splits)
  have "vecx (vel s1) = fzero"
    using s1 assms(2) by (auto simp: ground_jump_gravity_eq split: bind_splits)
  then show ?thesis
    using move_horizontal_vel_x [OF s2] move_vertical_vel_x [OF s3] by (simp add: s')
qed

lemma ladder_climb_vel_x: "ladder_climb cmd d s = (v, s') \<Longrightarrow> vecx (vel s') = fzero"
  by (metis ladder_climb_frame(1) snd_conv)

lemma ladder_step_vel_x: "ladder_step m cmd dt s = Some r \<Longrightarrow> vecx (vel (flow_state r)) = fzero"
  by (auto simp: ladder_step_def Let_def dest: ladder_climb_vel_x split: if_splits bind_splits prod.splits)

lemma SimulatePlayer_vel_x:
  "SimulatePlayer m cmd dt s = Some s' \<Longrightarrow> vecx (vel s) = fzero \<Longrightarrow> vecx (vel s') = fzero"
  using ladder_step_vel_x [of m cmd dt s]
  by (fastforce simp: SimulatePlayer_def dest: walk_step_vel_x split: if_splits bind_splits flow.splits)

lemma HandleLadderState_vel_x:
  "HandleLadderState m on x y velx vely s = Some s' \<Longrightarrow> vecx (vel s) = fzero \<Longrightarrow> vecx (vel s') = fzero"
  by (auto simp: HandleLadderState_def Let_def split: if_splits bind_splits)

lemma sim_cmds_vel_x: "sim_cmds m cmds s = Some s' \<Longrightarrow> vecx (vel s) = fzero \<Longrightarrow> vecx (vel s') = fzero"
proof (induction cmds arbitrary: s)
  case (Cons cmd cmds)
  then obtain s1 where "SimulatePlayer m cmd CLIENT_DT s = Some s1" "sim_cmds m cmds s1 = Some s'"
    by (auto simp: sim_cmds_def split: bind_splits)
  then show ?case
    using Cons.IH SimulatePlayer_vel_x Cons.prems(2) by blast
qed (simp add: sim_cmds_def)

lemma simulate_tick_vel_x:
  "simulate_tick m pl = Some pl' \<Longrightarrow> vecx (vel (physState pl)) = fzero \<Longrightarrow> vecx (vel (physState pl')) = fzero"
  by (auto simp: simulate_tick_def run_inputs_spec run_idle_spec split: if_splits bind_splits)
    (blast dest: sim_cmds_vel_x)+

definition vx_zero :: "room \<Rightarrow> bool" where
  "vx_zero r \<longleftrightarrow> (\<forall>p pl. store r p = Some pl \<longrightarrow> vecx (vel (physState pl)) = fzero)"

lemma vx_zero_put:
  "vx_zero (app w) \<Longrightarrow> vecx (vel (physState pl)) = fzero \<Longrightarrow> vx_zero (app (put_player p pl w))"
  by (simp add: vx_zero_def put_player_def)

lemma vx_zero_store: "vx_zero r \<Longrightarrow> store r' = store r \<Longrightarrow> vx_zero r'"
  by (simp add: vx_zero_def)

lemma room_frame_vx: "room_frame r r' \<Longrightarrow> vx_zero r \<Longrightarrow> vx_zero r'"
proof -
  assume f: "room_frame r r'" and z: "vx_zero r"
  have "vecx (vel (physState pl')) = fzero" if "store r' p = Some pl'" for p pl'
  proof -
    have "session_cleared (store r p) (store r' p)"
      using f by (simp add: room_frame_def)
    then show ?thesis
      using that z by (auto simp: session_cleared_def SetSession_def vx_zero_def)
  qed
  then show ?thesis
    by (simp add: vx_zero_def)
qed

lemma EnterGame_vx:
  assumes "EnterGame os P p nm w = Some w'" and "vx_zero (app w)"
  shows "vx_zero (app w')"
proof (cases "w' = w")
  case False
  then obtain pl where pl: "store (app w) p = Some pl"
    and f: "room_frame (app (put_player p (SetName nm pl) w)) (app w')"
    using EnterGame_frame [OF assms(1)] by blast
  have "vecx (vel (physState (SetName nm pl))) = fzero"
    using assms(2) pl by (simp add: vx_zero_def SetName_def)
  then show ?thesis
    using room_frame_vx [OF f] vx_zero_put [OF assms(2)] by blast
qed (use assms in simp)


lemma run_task_vx:
  assumes "run_task os P t w = Some w'" and "vx_zero (app w)"
  shows "vx_zero (app w')"
proof (cases t)
  case (Task_HandleLadderState p on x y velx vely)
  then obtain pl st where pl: "store (app w) p = Some pl" "w' = put_player p (pl\<lparr>physState := st\<rparr>) w"
    and st: "HandleLadderState (tmap (app w)) on x y velx vely (physState pl) = Some st"
    using assms(1) by (auto simp: run_task_def split: bind_splits)
  have "vecx (vel st) = fzero"
    using HandleLadderState_vel_x [OF st] assms(2) pl(1) by (simp add: vx_zero_def)
  then show ?thesis
    using vx_zero_put [OF assms(2)] by (simp add: pl(2))
next
  case (Task_Leave pid)
  show ?thesis
  proof (cases "map_of (players (app w)) pid")
    case None
    then show ?thesis
      using assms Task_Leave by (simp add: run_task_def Leave_def)
  next
    case (Some p)
    then obtain buf w1 where w1: "RoomBroadcast os buf None w = Some w1"
      and w': "w' = w1\<lparr>app := (app w1)\<lparr>players := AList.delete pid (players (app w1))\<rparr>\<rparr>"
      using assms(1) Task_Leave by (auto simp: run_task_def Leave_def split: bind_splits)
    have "vx_zero (app w1)"
      using room_frame_vx [OF RoomBroadcast_frame [OF w1]] assms(2) by simp
    then show ?thesis
      by (rule vx_zero_store) (simp add: w')
  qed
next
  case (Task_Enter p)
  then show ?thesis
    using assms by (auto simp: run_task_def Enter_def vx_zero_def split: bind_splits)
next
  case (Task_EnterGame p nm)
  then show ?thesis
    using assms EnterGame_vx by (simp add: run_task_def)
next
  case (Task_Chat p message type)
  then show ?thesis
    using assms by (auto simp: run_task_def Chat_def dest!: RoomBroadcast_frame intro: room_frame_vx split: bind_splits)
next
  case (Task_BroadcastAttack p k ty x y)
  then show ?thesis
    using assms
    by (auto simp: run_task_def BroadcastAttack_def dest!: RoomBroadcast_frame intro: room_frame_vx split: bind_splits)
qed

lemma for_each_vx:
  assumes "for_each f xs w = Some w'" and "\<And>x w w'. f x w = Some w' \<Longrightarrow> vx_zero (app w) \<Longrightarrow> vx_zero (app w')"
    and "vx_zero (app w)"
  shows "vx_zero (app w')"
  using assms(1,3)
proof (induction xs arbitrary: w)
  case (Cons x xs)
  then show ?case
    using assms(2) by (auto split: bind_splits)
qed simp

lemma tick_player_vx:
  assumes "tick_player os P p w = Some w'" and "vx_zero (app w)"
  shows "vx_zero (app w')"
proof -
  obtain pl where pl: "store (app w) p = Some pl"
    using assms(1) by (auto simp: tick_player_def split: bind_splits)
  show ?thesis
  proof (cases "entered pl")
    case False
    then show ?thesis
      using assms pl by (simp add: tick_player_def)
  next
    case True
    then obtain pl1 b1 b2 w2 where pl1: "simulate_tick (tmap (app w)) pl = Some pl1"
      and w2: "RoomSend os p b1 (put_player p pl1 w) = Some w2" and w': "RoomBroadcast os b2 (Some p) w2 = Some w'"
      using assms(1) pl by (auto simp: tick_player_def Let_def split: bind_splits)
    have "vecx (vel (physState pl1)) = fzero"
      using simulate_tick_vel_x [OF pl1] assms(2) pl by (simp add: vx_zero_def)
    then show ?thesis
      using vx_zero_put [OF assms(2)] room_frame_vx RoomSend_frame [OF w2] RoomBroadcast_frame [OF w'] by blast
  qed
qed

interpretation velocity: room_invariant vx_zero
proof unfold_locales
  show "vx_zero (app w')" if c: "OnConnected s w = Some w'" and z: "vx_zero (app w)" for s w w'
  proof -
    have "store (app w') = (store (app w))(nextRef (app w) \<mapsto> SetSession (Some s) (Player_new (nextPlayerId (app w)) ''''))"
      using c by (auto simp: OnConnected_def PostTask_def put_player_def on_session_def Let_def
          split: option.splits bind_splits)
    then show ?thesis
      using z by (simp add: vx_zero_def SetSession_def Player_new_def PhysicsState_new_def)
  qed
  show "vx_zero (app w')" if "OnDisconnected s w = Some w'" "vx_zero (app w)" for s w w'
    by (rule room_frame_vx [OF OnDisconnected_frame [OF that(1)] that(2)])
  show "vx_zero (app w')" if "DrainTasks os P w = Some w'" "vx_zero (app w)" for os P w w'
  proof (rule for_each_vx [OF that(1) [unfolded DrainTasks_def]])
    show "vx_zero (app (w\<lparr>app := (app w)\<lparr>taskQueue := []\<rparr>\<rparr>))"
      using that(2) by (simp add: vx_zero_def)
  qed (rule run_task_vx)
  show "vx_zero (app w')" if t: "TickAll os P w = Some w'" and z: "vx_zero (app w)" for os P w w'
  proof -
    obtain w1 where w1: "for_each (tick_player os P) (map snd (players (app w))) w = Some w1"
      and "w' = w1\<lparr>app := (app w1)\<lparr>serverTick := serverTick (app w1) + 1\<rparr>\<rparr>"
      using t by (auto simp: TickAll_def split: bind_splits)
    then show ?thesis
      using for_each_vx [OF w1 tick_player_vx z] by (simp add: vx_zero_def)
  qed
  show "vx_zero (r\<lparr>store := (store r)(p \<mapsto> EnqueueInput cmd pl)\<rparr>)" if "store r p = Some pl" "vx_zero r" for r p pl cmd
    using that by (simp add: vx_zero_def EnqueueInput_def Let_def)
qed (simp_all add: vx_zero_def)

subsection \<open>Entering the game\<close>

lemma FillPlayerInfo_session [simp]: "FillPlayerInfo (pl\<lparr>session := ss\<rparr>) = FillPlayerInfo pl"
  by (simp add: FillPlayerInfo_def Let_def)

text \<open>The infos of players are what they were, however the session pointers changed.\<close>

lemma infos_frame:
  assumes "room_frame r r'" and "set qs \<subseteq> dom (store r)"
  shows "those (map (\<lambda>q. map_option FillPlayerInfo (store r' q)) qs)
    = Some (map (\<lambda>q. FillPlayerInfo (the (store r q))) qs)"
  using assms(2)
proof (induction qs)
  case (Cons q qs)
  then obtain ql where "store r q = Some ql"
    by auto
  moreover from this obtain ss where "store r' q = Some (ql\<lparr>session := ss\<rparr>)"
    using room_frameD(4) [OF assms(1)] by blast
  ultimately show ?case
    using Cons by simp
qed simp

text \<open>The messages of an entry, with their addressees, in the order they are sent.\<close>

definition entry_messages :: "pref \<Rightarrow> string \<Rightarrow> room \<Rightarrow> (pref \<times> u16 \<times> message) list" where
  "entry_messages p nm r =
     (let info = FillPlayerInfo (SetName nm (the (store r p)));
          others = filter (\<lambda>q. q \<noteq> p) (map snd (players r))
      in [(p, OP_S_ENTER_GAME, S_EnterGame True info),
          (p, OP_S_PLAYER_LIST, S_PlayerList (map (\<lambda>q. FillPlayerInfo (the (store r q))) others))]
         @ map (\<lambda>q. (q, OP_S_SPAWN, S_Spawn [info])) others)"

definition send_message :: "os_api \<Rightarrow> proto_api \<Rightarrow> pref \<times> u16 \<times> message \<Rightarrow> server \<Rightarrow> server option" where
  "send_message os P msg w = (case msg of (p, opcode, body) \<Rightarrow> do {
     buf \<leftarrow> proto_buffer P opcode body;
     RoomSend os p buf w
   })"

lemma for_each_send_spawn:
  "proto_buffer P opcode body = Some buf \<Longrightarrow>
     for_each (send_message os P) (map (\<lambda>q. (q, opcode, body)) qs) = for_each (\<lambda>q w. RoomSend os q buf w) qs"
proof (induction qs)
  case (Cons q qs)
  have "send_message os P (q, opcode, body) w = RoomSend os q buf w" for w
    using Cons.prems by (simp add: send_message_def)
  with Cons show ?case
    by (intro ext) simp
qed (simp add: fun_eq_iff)

lemma EnterGame_messages:
  assumes "store (app w) p = Some pl" and "\<not> entered pl" and "nm \<noteq> []" and "length nm \<le> 20"
    and "snd ` set (players (app w)) \<subseteq> dom (store (app w))"
  shows "EnterGame os P p nm w = for_each (send_message os P) (entry_messages p nm (app w)) (put_player p (SetName nm pl) w)"
proof -
  let ?w0 = "put_player p (SetName nm pl) w" and ?info = "FillPlayerInfo (SetName nm pl)"
  let ?others = "filter (\<lambda>q. q \<noteq> p) (map snd (players (app w)))"
  let ?infos = "map (\<lambda>q. FillPlayerInfo (the (store (app w) q))) ?others"
  obtain b1 where b1: "proto_buffer P OP_S_ENTER_GAME (S_EnterGame True ?info) = Some b1"
    by (simp add: proto_buffer_sendable)
  obtain b2 where b2: "proto_buffer P OP_S_PLAYER_LIST (S_PlayerList ?infos) = Some b2"
    by (simp add: proto_buffer_sendable)
  obtain b3 where b3: "proto_buffer P OP_S_SPAWN (S_Spawn [?info]) = Some b3"
    by (simp add: proto_buffer_sendable)
  show ?thesis
  proof (cases "RoomSend os p b1 ?w0")
    case None
    then show ?thesis
      using assms(1-4) b1 by (simp add: EnterGame_def Let_def entry_messages_def send_message_def put_player_def)
  next
    case (Some w1)
    have "set ?others \<subseteq> dom (store (app ?w0))"
      using assms(5) by (auto simp: put_player_def)
    from infos_frame [OF RoomSend_frame [OF Some] this]
    have i: "those (map (\<lambda>q. map_option FillPlayerInfo (store (app w1) q)) ?others)
        = Some (map (\<lambda>q. FillPlayerInfo (the (store (app ?w0) q))) ?others)" .
    have "map (\<lambda>q. FillPlayerInfo (the (store (app ?w0) q))) ?others = ?infos"
      by (simp add: put_player_def)
    with i have infos: "those (map (\<lambda>q. map_option FillPlayerInfo (store (app w1) q)) ?others) = Some ?infos"
      by simp
    have "EnterGame os P p nm w = do { w \<leftarrow> RoomSend os p b2 w1; for_each (\<lambda>q w. RoomSend os q b3 w) ?others w }"
      using assms(1-4) b1 b2 b3 Some infos by (simp add: EnterGame_def Let_def put_player_def)
    also have "\<dots> = for_each (send_message os P) (entry_messages p nm (app w)) ?w0"
      using assms(1) b1 b2 b3 Some for_each_send_spawn [OF b3]
      by (simp add: entry_messages_def Let_def send_message_def)
    finally show ?thesis .
  qed
qed

subsection \<open>Properties\<close>

text \<open>C18: Entering the game sends, in this order, the confirmation with his own data to the player, the list of everyone else in the table to the player, and his data to each of the others, and names the player; it does nothing at all, not even answer, when the name is empty or longer than 20 bytes or the player has entered before.\<close>

theorem enter_game_messages:
  assumes "safe m L Q P D w" and "store (app w) p = Some pl"
  shows "EnterGame os P p nm w =
    (if nm = [] \<or> 20 < length nm \<or> entered pl then Some w
     else for_each (send_message os P) (entry_messages p nm (app w)) (put_player p (SetName nm pl) w))"
proof -
  have "snd ` set (players (app w)) \<subseteq> dom (store (app w))"
    using room_invD(6) [OF safe_room [OF assms(1)]] by fastforce
  then show ?thesis
    using assms(2) EnterGame_messages [OF assms(2)] by (auto simp: EnterGame_def)
qed

theorem enter_game_messages_witness:
  "EnterGame demo_os demo_proto 0 ''again'' demo_playing = Some demo_playing"
  using enter_game_messages [OF demo_playing_safe demo_playing_player(1)] by simp

text \<open>The first player gets no list: a message whose serialisation is empty is not sent, and the protocol buffer of an empty list is empty, so a player entering a table with nobody else in it is sent the confirmation alone.\<close>

theorem first_player_gets_no_list:
  assumes "store (app w) p = Some pl" and "\<not> entered pl" and "nm \<noteq> []" and "length nm \<le> 20"
    and "snd ` set (players (app w)) \<subseteq> {p}" and "serialize P (S_PlayerList []) = Some []"
  shows "EnterGame os P p nm w
    = send_message os P (p, OP_S_ENTER_GAME, S_EnterGame True (FillPlayerInfo (SetName nm pl)))
        (put_player p (SetName nm pl) w)"
proof -
  have "filter (\<lambda>q. q \<noteq> p) (map snd (players (app w))) = []"
    using assms(5) by (auto simp: filter_empty_conv)
  then have msgs: "entry_messages p nm (app w) = [(p, OP_S_ENTER_GAME, S_EnterGame True (FillPlayerInfo (SetName nm pl))),
      (p, OP_S_PLAYER_LIST, S_PlayerList [])]"
    using assms(1) by (simp add: entry_messages_def)
  have "RoomSend os p None v = Some v" if "store (app v) p \<noteq> None" for v
    using that by (auto simp: RoomSend_def EnqueueSend_def split: option.split)
  then have none: "send_message os P (p, OP_S_PLAYER_LIST, S_PlayerList []) v = Some v"
    if "store (app v) p \<noteq> None" for v
    using that assms(6) by (simp add: send_message_def proto_buffer_sendable sendable_def)
  have kept: "store (app v) p \<noteq> None"
    if sent: "send_message os P (p, OP_S_ENTER_GAME, S_EnterGame True (FillPlayerInfo (SetName nm pl)))
      (put_player p (SetName nm pl) w) = Some v" for v
  proof -
    obtain buf where "RoomSend os p buf (put_player p (SetName nm pl) w) = Some v"
      using sent by (auto simp: send_message_def split: bind_splits)
    from room_frameD(4) [OF RoomSend_frame [OF this], of p] show ?thesis
      by (auto simp: put_player_def)
  qed
  have "snd ` set (players (app w)) \<subseteq> dom (store (app w))"
    using assms(1,5) by auto
  from EnterGame_messages [OF assms(1-4) this, of os P] show ?thesis
    using none kept
    by (cases "send_message os P (p, OP_S_ENTER_GAME, S_EnterGame True (FillPlayerInfo (SetName nm pl)))
      (put_player p (SetName nm pl) w)") (auto simp: msgs)
qed

theorem first_player_gets_no_list_witness:
  "EnterGame demo_os demo_proto 0 ''bot'' demo_world
    = send_message demo_os demo_proto (0, OP_S_ENTER_GAME, S_EnterGame True (FillPlayerInfo (SetName ''bot'' demo_player)))
        (put_player 0 (SetName ''bot'' demo_player) demo_world)"
  by (rule first_player_gets_no_list)
    (simp_all add: demo_world_app room_new_def demo_player_def SetSession_def Player_new_def demo_proto_def)

text \<open>The server never reports a horizontal velocity: nothing the simulation or a client does sets the horizontal velocity of a player to anything but zero, so every player's state and movement message says 0 for it, however he moves.\<close>

theorem reported_velocity_vertical:
  assumes "main_start os J file = Some (True, w0)" and "reachable os P w0 w" and "store (app w) p = Some pl"
  shows "vecx (ps_velocity (player_state_msg pl)) = fzero \<and> vecx (bm_velocity (broadcast_move_msg tick pl)) = fzero"
proof -
  obtain m where "app w0 = room_new\<lparr>tmap := m, loopRunning := True\<rparr>"
    using main_start_app [OF assms(1)] by blast
  then have "vx_zero (app w0)"
    by (simp add: vx_zero_def room_new_def)
  from velocity.reachable_I [OF assms(2) this] show ?thesis
    using assms(3) by (simp add: vx_zero_def player_state_msg_def broadcast_move_msg_def Let_def)
qed

theorem reported_velocity_vertical_witness:
  "vecx (ps_velocity (player_state_msg demo_player)) = fzero"
proof -
  have "store (app demo_world) 0 = Some demo_player"
    by (simp add: demo_world_simps)
  from reported_velocity_vertical [OF demo_start demo_reachable this] show ?thesis
    by blast
qed

text \<open>Chatting needs no entry: a chat packet of any connected player, named or not, is queued, and when its task runs the message goes to everyone in the table, the author included, under the name he has, which is empty before he entered.\<close>

theorem chat_without_entering:
  assumes "heap w s = Some x" and "csPlayer x = Some p" and "handlerRoom (app w)"
    and "parse_C_Chat P (payload pkt) = Some req" and "store (app w') p = Some pl"
  shows "HandleChat P s pkt w = Some (True, PostTask (Task_Chat p (cc_message req) (cc_type req)) w)
    \<and> (\<exists>buf. proto_buffer P OP_S_CHAT (S_Chat_msg
          \<lparr>sc_player_id = playerId pl, sc_name = playerName pl, sc_type = cc_type req, sc_message = cc_message req\<rparr>) = Some buf
        \<and> run_task os P (Task_Chat p (cc_message req) (cc_type req)) w' = RoomBroadcast os buf None w')"
  using assms by (simp add: HandleChat_def GetPlayer_def run_task_def Chat_def proto_buffer_sendable)

theorem chat_without_entering_witness:
  "\<not> entered demo_player \<and> HandleChat demo_proto 5 (packet_of OP_C_CHAT [10, 0]) demo_world
     = Some (True, PostTask (Task_Chat 0 ''hi'' 0) demo_world)"
proof -
  have "heap demo_world 5 = Some demo_session" "csPlayer demo_session = Some 0" "handlerRoom (app demo_world)"
    "store (app demo_world) 0 = Some demo_player" "\<not> entered demo_player"
    by (simp_all add: demo_world_simps demo_world_app room_new_def demo_session_def Session_new_def
        ClientSession.defs demo_player_def SetSession_def Player_new_def)
  moreover have "parse_C_Chat demo_proto (payload (packet_of OP_C_CHAT [10, 0])) = Some \<lparr>cc_type = 0, cc_message = ''hi''\<rparr>"
    by (simp add: demo_proto_def)
  ultimately show ?thesis
    using chat_without_entering [of demo_world 5 demo_session 0 demo_proto "packet_of OP_C_CHAT [10, 0]"] by simp
qed

end
