(* ===== verification/LateEntry.thy ===== *)
theory LateEntry
  imports Threads Delivery RoomProtocol
begin

text \<open>
  A packet can be handled after its session has closed: the worker that holds it does not test
  \<open>_closing\<close> again, and \<open>HandleEnterGame\<close> and \<open>EnterGame\<close> do not look at the player's session. What
  the other players are then told.
\<close>

subsection \<open>Entering without a session\<close>

text \<open>Without a session a player is sent nothing, so his entry is the announcement to the others alone.\<close>

lemma RoomSend_no_session: "store (app w) p = Some pl \<Longrightarrow> session pl = None \<Longrightarrow> RoomSend os p buf w = Some w"
  by (simp add: RoomSend_def)

lemma EnterGame_no_session:
  assumes "store (app w) p = Some pl" and "session pl = None" and "\<not> entered pl" and "nm \<noteq> []" and "length nm \<le> 20"
    and "snd ` set (players (app w)) \<subseteq> dom (store (app w))"
    and "proto_buffer P OP_S_SPAWN (S_Spawn [FillPlayerInfo (SetName nm pl)]) = Some buf"
  shows "EnterGame os P p nm w = RoomBroadcast os buf (Some p) (put_player p (SetName nm pl) w)"
proof -
  let ?w0 = "put_player p (SetName nm pl) w"
  have "store (app ?w0) p = Some (SetName nm pl)" and "session (SetName nm pl) = None"
    using assms(2) by (simp_all add: put_player_def SetName_def)
  from RoomSend_no_session [OF this] have none: "send_message os P (p, opcode, body) ?w0 = Some ?w0" for opcode body
    by (simp add: send_message_def proto_buffer_sendable)
  have "(\<lambda>q. \<not> Some q = Some p) = (\<lambda>q. q \<noteq> p)"
    by auto
  with for_each_send_spawn [OF assms(7)] none show ?thesis
    unfolding EnterGame_messages [OF assms(1,3-6)] entry_messages_def RoomBroadcast_def for_each_skip
    by (simp add: assms(1) Let_def put_player_def)
qed

lemma room_frame_no_session:
  "room_frame r r' \<Longrightarrow> store r p = Some pl \<Longrightarrow> session pl = None \<Longrightarrow> store r' p = Some pl"
proof -
  assume f: "room_frame r r'" and p: "store r p = Some pl" "session pl = None"
  have "session_cleared (store r p) (store r' p)"
    using f by (simp add: room_frame_def)
  with p show ?thesis
    by (auto simp: session_cleared_def SetSession_def)
qed

text \<open>Taking one player out of the table.\<close>

lemma room_inv_erase:
  assumes "room_inv m L Q D lv r" and "(i, p) \<in> set (players r)"
  shows "p \<notin> snd ` set (AList.delete i (players r))"
    and "q \<in> snd ` set (players r) \<Longrightarrow> q \<noteq> p \<Longrightarrow> q \<in> snd ` set (AList.delete i (players r))"
proof -
  note inv = room_invD [OF assms(1)]
  have "j = i" if "(j, p) \<in> set (players r)" for j
    using inv(6) [OF that] inv(6) [OF assms(2)] by auto
  then show "p \<notin> snd ` set (AList.delete i (players r))"
    by (auto simp: AList.delete_eq)
  assume q: "q \<in> snd ` set (players r)" "q \<noteq> p"
  then obtain j where j: "(j, q) \<in> set (players r)"
    by auto
  then have "j \<noteq> i"
    using inv(7) assms(2) q(2) by (auto dest: eq_key_imp_eq_value)
  with j show "q \<in> snd ` set (AList.delete i (players r))"
    by (force simp: AList.delete_eq)
qed

text \<open>What a message broadcast in the room does to an open session of the table, \<open>except\<close> left out.\<close>

definition told :: "sref \<Rightarrow> u16 \<Rightarrow> byte list \<Rightarrow> server \<Rightarrow> server \<Rightarrow> bool" where
  "told t opcode bs w w' \<longleftrightarrow> keeps_open t w w'
     \<and> (live w' t \<noteq> None \<longrightarrow> accepted t w' = accepted t w @ [buffer_of (packet_bytes (packet_of opcode bs))])"

lemma RoomBroadcast_told:
  assumes "safe_at H m L Q P D w"
    and "RoomBroadcast os (Some (buffer_of (packet_bytes (packet_of opcode bs)))) except w = Some w'"
    and "live w t = Some (ClientSession.fields (Some q))" and "q \<in> snd ` set (players (app w))" and "Some q \<noteq> except"
  shows "told t opcode bs w w'"
proof -
  have "keeps_open t w w'"
    using assms(2) unfolding RoomBroadcast_def by (rule RoomSends_keep_open)
  then show ?thesis
    using RoomBroadcast_delivers [OF assms(1,2) _ assms(3)] assms(4,5) by (simp add: told_def packet_bytes_def)
qed

lemma Leave_told:
  assumes "safe_at H m L Q P D w" and "(i, p) \<in> set (players (app w))" and "sendable P (S_Despawn [i]) = Some bs"
  obtains w' where "Leave os P i w = Some w'" and "safe_at H m L Q P D w'" and "players (app w') = AList.delete i (players (app w))"
    and "\<And>r pl. store (app w) r = Some pl \<Longrightarrow> session pl = None \<Longrightarrow> store (app w') r = Some pl"
    and "\<And>t q. live w t = Some (ClientSession.fields (Some q)) \<Longrightarrow> q \<in> snd ` set (players (app w)) \<Longrightarrow> told t OP_S_DESPAWN bs w w'"
proof -
  have "map_of (players (app w)) i = Some p"
    using assms(2) room_invD(7) [OF safe_room [OF assms(1)]] by simp
  moreover obtain w' where w': "Leave os P i w = Some w'" "safe_at H m L Q P D w'"
    using Leave_ok [OF assms(1)] by blast
  ultimately obtain w1 where w1: "RoomBroadcast os (Some (buffer_of (packet_bytes (packet_of OP_S_DESPAWN bs)))) None w = Some w1"
    and w'1: "w' = w1\<lparr>app := (app w1)\<lparr>players := AList.delete i (players (app w1))\<rparr>\<rparr>"
    using assms(3) by (auto simp: Leave_def proto_buffer_sendable split: bind_splits)
  note f = RoomBroadcast_frame [OF w1]
  have "told t OP_S_DESPAWN bs w w'" if "live w t = Some (ClientSession.fields (Some q))" "q \<in> snd ` set (players (app w))" for t q
    using RoomBroadcast_told [OF assms(1) w1 that] by (simp add: told_def keeps_open_def accepted_def w'1)
  then show thesis
    using that w' room_frame_no_session [OF f] room_frameD(1) [OF f] by (simp add: w'1)
qed

lemma EnterGame_told:
  assumes "safe_at H m L Q P D w" and "store (app w) p = Some pl" and "session pl = None" and "\<not> entered pl"
    and "nm \<noteq> []" and "length nm \<le> 20" and "sendable P (S_Spawn [FillPlayerInfo (SetName nm pl)]) = Some bs"
  obtains w' where "EnterGame os P p nm w = Some w'" and "players (app w') = players (app w)"
    and "store (app w') p = Some (SetName nm pl)" and "\<And>t. keeps_open t w w'"
    and "\<And>t q. live w t = Some (ClientSession.fields (Some q)) \<Longrightarrow> q \<in> snd ` set (players (app w)) \<Longrightarrow> q \<noteq> p \<Longrightarrow>
      told t OP_S_SPAWN bs w w'"
proof -
  let ?w0 = "put_player p (SetName nm pl) w" and ?sb = "buffer_of (packet_bytes (packet_of OP_S_SPAWN bs))"
  have dom: "snd ` set (players (app w)) \<subseteq> dom (store (app w))"
    using room_invD(6) [OF safe_room [OF assms(1)]] by fastforce
  have "player_ok Q (SetName nm pl)"
    using room_invD(9) [OF safe_room [OF assms(1)] assms(2)] by (simp add: player_ok_def SetName_def)
  then have s0: "safe_at H m L Q P D ?w0"
    by (intro safe_put [OF assms(1,2)]) (simp_all add: SetName_def)
  then obtain w' where w': "RoomBroadcast os (Some ?sb) (Some p) ?w0 = Some w'"
    using RoomBroadcast_ok by blast
  note f = RoomBroadcast_frame [OF w']
  have "proto_buffer P OP_S_SPAWN (S_Spawn [FillPlayerInfo (SetName nm pl)]) = Some (Some ?sb)"
    by (simp add: proto_buffer_sendable assms(7))
  from EnterGame_no_session [OF assms(2-6) dom this] w' have "EnterGame os P p nm w = Some w'"
    by simp
  moreover have "store (app w') p = Some (SetName nm pl)"
    by (rule room_frame_no_session [OF f]) (simp_all add: SetName_def assms(3))
  moreover have "keeps_open t w w'" for t
    using RoomSends_keep_open [OF w' [unfolded RoomBroadcast_def]] by (simp add: keeps_open_def put_player_def live_def)
  moreover have "told t OP_S_SPAWN bs w w'"
    if "live w t = Some (ClientSession.fields (Some q))" "q \<in> snd ` set (players (app w))" "q \<noteq> p" for t q
    using RoomBroadcast_told [OF s0 w', of t q] that by (simp add: told_def keeps_open_def accepted_def live_def put_player_def)
  ultimately show thesis
    using that room_frameD(1) [OF f] by (simp add: put_player_def)
qed

text \<open>Draining a departure and the late entry behind it.\<close>

lemma late_entry:
  assumes "safe_at H m L Q P D w" and "taskQueue (app w) = [Task_Leave (playerId pl), Task_EnterGame p nm]"
    and "store (app w) p = Some pl" and "session pl = None" and "\<not> entered pl" and "nm \<noteq> []" and "length nm \<le> 20"
    and "(playerId pl, p) \<in> set (players (app w))"
    and "live w t = Some (ClientSession.fields (Some q))" and "q \<noteq> p" and "q \<in> snd ` set (players (app w))"
    and "sendable P (S_Despawn [playerId pl]) = Some db" and "sendable P (S_Spawn [FillPlayerInfo (SetName nm pl)]) = Some sb"
  shows "\<exists>w'. DrainTasks os P w = Some w' \<and> store (app w') p = Some (SetName nm pl) \<and> p \<notin> snd ` set (players (app w'))
    \<and> (live w' t \<noteq> None \<longrightarrow> accepted t w' = accepted t w
          @ [buffer_of (packet_bytes (packet_of OP_S_DESPAWN db)), buffer_of (packet_bytes (packet_of OP_S_SPAWN sb))])"
proof -
  let ?w0 = "w\<lparr>app := (app w)\<lparr>taskQueue := []\<rparr>\<rparr>"
  note erase = room_inv_erase [OF safe_room [OF assms(1)] assms(8)]
  have "room_inv m L Q D (live w) ((app w)\<lparr>taskQueue := []\<rparr>)"
    using safe_room [OF assms(1)] by (simp add: room_inv_def)
  then have s0: "safe_at H m L Q P D ?w0" and at: "(playerId pl, p) \<in> set (players (app ?w0))"
    using safe_app [OF assms(1)] assms(8) by simp_all
  obtain w1 where w1: "Leave os P (playerId pl) ?w0 = Some w1" "safe_at H m L Q P D w1"
      "players (app w1) = AList.delete (playerId pl) (players (app ?w0))"
    and kept: "\<And>r pl. store (app ?w0) r = Some pl \<Longrightarrow> session pl = None \<Longrightarrow> store (app w1) r = Some pl"
    and told1: "\<And>t q. live ?w0 t = Some (ClientSession.fields (Some q)) \<Longrightarrow> q \<in> snd ` set (players (app ?w0)) \<Longrightarrow>
      told t OP_S_DESPAWN db ?w0 w1"
    by (rule Leave_told [OF s0 at assms(12), of os]) blast
  have p1: "store (app w1) p = Some pl" and t1: "told t OP_S_DESPAWN db w w1"
    using kept [of p pl] told1 [of t q] assms(3,4,9,11) by (simp_all add: told_def keeps_open_def accepted_def)
  obtain w2 where w2: "EnterGame os P p nm w1 = Some w2" "players (app w2) = players (app w1)" "store (app w2) p = Some (SetName nm pl)"
      "\<And>t. keeps_open t w1 w2"
    and told2: "\<And>t q. live w1 t = Some (ClientSession.fields (Some q)) \<Longrightarrow> q \<in> snd ` set (players (app w1)) \<Longrightarrow> q \<noteq> p \<Longrightarrow>
      told t OP_S_SPAWN sb w1 w2"
    by (rule EnterGame_told [OF w1(2) p1 assms(4-7,13), of os]) blast
  have "DrainTasks os P w = Some w2"
    using w1(1) w2(1) by (simp add: DrainTasks_def assms(2) run_task_def)
  moreover have "accepted t w2 = accepted t w
      @ [buffer_of (packet_bytes (packet_of OP_S_DESPAWN db)), buffer_of (packet_bytes (packet_of OP_S_SPAWN sb))]" if "live w2 t \<noteq> None"
    using t1 told2 [of t q] that w2(4) [of t] assms(9,10) erase(2) [OF assms(11,10)] w1(3)
    by (cases "live w1 t") (auto simp: told_def keeps_open_def)
  ultimately show ?thesis
    using w2(2,3) erase(1) w1(3) by simp
qed

lemma Close_departs:
  assumes "heap w s = Some x" and "\<not> closing x" and "refCount x \<noteq> 1" and "csPlayer x = Some p" and "store (app w) p = Some pl"
    and "Close OnDisconnected s w = Some w'"
  shows "app w' = (app w)\<lparr>store := (store (app w))(p \<mapsto> SetSession None pl),
        taskQueue := taskQueue (app w) @ [Task_Leave (playerId pl)]\<rparr>
    \<and> map_option csPlayer (heap w' s) = Some (Some p)"
  using assms
  by (auto simp: Close_def on_session_def NotifyDisconnected_def emit_def RemoveSession_def OnDisconnected_def
    closed_session_def PostTask_def put_player_def Release_def)

lemma HandlePacket_enter:
  assumes "handlerRoom (app w)" and "hopcode (pheader pkt) = OP_C_ENTER_GAME" and "parse_C_EnterGame P (payload pkt) = Some nm"
    and "map_option csPlayer (heap w s) = Some (Some p)"
  shows "HandlePacket os P s pkt w = Some (True, PostTask (Task_EnterGame p nm) w)"
  using assms by (auto simp: HandlePacket_def HandleEnterGame_def GetPlayer_def)

text \<open>One worker closes a session while another holds a packet of it, which then asks to enter.\<close>

lemma close_before_entry:
  assumes "process_ok m L Q P (w, [], ws)" and "k < length ws" and "ws ! k = (s, SEND, On_Close)"
    and "l < length ws" and "ws ! l = (s, RECV, On_Packet pkt)" and "heap w s = Some x" and "\<not> closing x"
    and "csPlayer x = Some p" and "store (app w) p = Some pl" and "taskQueue (app w) = []"
    and "handlerRoom (app w)" and "hopcode (pheader pkt) = OP_C_ENTER_GAME" and "parse_C_EnterGame P (payload pkt) = Some nm"
  obtains w2 ws2 where "(pstep os P)\<^sup>*\<^sup>* (w, [], ws) (w2, [], ws2)" and "process_ok m L Q P (w2, [], ws2)"
    and "app w2 = (app w)\<lparr>store := (store (app w))(p \<mapsto> SetSession None pl),
           taskQueue := [Task_Leave (playerId pl), Task_EnterGame p nm]\<rparr>"
    and "\<And>t. t \<noteq> s \<Longrightarrow> elsewhere t w w2"
proof -
  let ?ws1 = "take k ws @ resume s SEND (Some On_Release) @ drop (Suc k) ws"
  obtain d1 w1 where w1: "worker_step os OnDisconnected (HandlePacket os P) s On_Close w = Some (d1, w1)"
      "process_ok m L Q P (w1, [], take k ws @ resume s SEND d1 @ drop (Suc k) ws)"
    using work_process [OF assms(1-3)] by blast
  then have c: "Close OnDisconnected s w = Some w1" and d1: "d1 = Some On_Release"
    by (auto simp: worker_step_def split: bind_splits)
  have step1: "pstep os P (w, [], ws) (w1, [], ?ws1)"
    using pstep.work [OF assms(2,3) w1(1)] by (simp add: d1)
  have ws1: "?ws1 = ws[k := (s, SEND, On_Release)]"
    using assms(2) by (simp add: resume_def upd_conv_take_nth_drop)
  have "l \<noteq> k"
    using assms(3,5) by auto
  then have l: "l < length ?ws1" "?ws1 ! l = (s, RECV, On_Packet pkt)"
    unfolding ws1 using assms(4,5) by simp_all
  obtain d2 w2 where w2: "worker_step os OnDisconnected (HandlePacket os P) s (On_Packet pkt) w1 = Some (d2, w2)"
      "process_ok m L Q P (w2, [], take l ?ws1 @ resume s RECV d2 @ drop (Suc l) ?ws1)"
    using work_process [OF w1(2) [unfolded d1] l] by blast
  have "ok_holding (held_by ws s) (view s w)"
    by (rule held_ok_view [OF workers_okD(1) [OF process_okD(1) [OF assms(1)]]])
  moreover have "(s, SEND, On_Close) \<in> set ws"
    using assms(2,3) by (metis nth_mem)
  then have "filter (\<lambda>x. fst x = s) ws \<noteq> []"
    by (force simp: filter_empty_conv)
  then have "0 < int (length (filter (\<lambda>x. fst x = s) ws))"
    by simp
  moreover have "refCount x = 1 + int (length (filter (\<lambda>p. fst p = s) (pending w))) + int (length (filter (\<lambda>x. fst x = s) ws))"
    using calculation(1) assms(6,7) by (simp add: held_by_def ok_def view_def)
  ultimately have "refCount x \<noteq> 1"
    by linarith
  from Close_departs [OF assms(6,7) this assms(8,9) c] assms(10)
  have a1: "app w1 = (app w)\<lparr>store := (store (app w))(p \<mapsto> SetSession None pl), taskQueue := [Task_Leave (playerId pl)]\<rparr>"
    and h1: "map_option csPlayer (heap w1 s) = Some (Some p)"
    by simp_all
  have "HandlePacket os P s pkt w1 = Some (True, PostTask (Task_EnterGame p nm) w1)"
    by (rule HandlePacket_enter [OF _ assms(12,13) h1]) (simp add: a1 assms(11))
  then have w2': "w2 = PostTask (Task_EnterGame p nm) w1"
    using w2(1) by (simp add: worker_step_def)
  have "(pstep os P)\<^sup>*\<^sup>* (w, [], ws) (w2, [], take l ?ws1 @ resume s RECV d2 @ drop (Suc l) ?ws1)"
    using step1 pstep.work [OF l w2(1)] by (meson converse_rtranclp_into_rtranclp rtranclp.rtrancl_refl)
  moreover have "elsewhere t w w2" if "t \<noteq> s" for t
    using server_quiet.Close_elsewhere [OF c that] by (simp add: w2' PostTask_def elsewhere_def)
  moreover have "app w2 = (app w)\<lparr>store := (store (app w))(p \<mapsto> SetSession None pl),
      taskQueue := [Task_Leave (playerId pl), Task_EnterGame p nm]\<rparr>"
    by (simp add: w2' PostTask_def a1)
  ultimately show thesis
    using that w2(2) by blast
qed

subsection \<open>A server with two players, one of whom is about to leave\<close>

text \<open>What differs between the states of the run below.\<close>

definition pair_world :: "unit ClientSession_ext Session_scheme \<Rightarrow> (sref \<times> IoContext) list \<Rightarrow> nat \<Rightarrow> event list
    \<Rightarrow> (u64 \<times> pref) list \<Rightarrow> task list \<Rightarrow> u32 \<Rightarrow> server" where
  "pair_world x io n evs tab ts tick = \<lparr>heap = [6 \<mapsto> Session_new (ClientSession.fields (Some 1))\<lparr>refCount := 2\<rparr>, 5 \<mapsto> x],
     sessions = [5, 6], pending = io, calls = n, events = evs, mode = Mode_Server, running = True, listening = True,
     iocp_open = True, workers = 4, app = \<lparr>store = [0 \<mapsto> demo_player, 1 \<mapsto> SetSession (Some 6) (Player_new 2 '''')],
       players = tab, tmap = Map_new, serverTick = tick, taskQueue = ts, loopRunning = True, nextPlayerId = 3, nextRef = 2,
       handlerRoom = True\<rparr>\<rparr>"

abbreviation receive_on :: "sref \<Rightarrow> sref \<times> IoContext" where
  "receive_on s \<equiv> (s, \<lparr>ioType = RECV, ioBuffer = None\<rparr>)"

definition two_world :: server where
  "two_world = pair_world demo_session [receive_on 5, receive_on 6] 4 [Connected 5, Connected 6] [] [Task_Enter 0, Task_Enter 1] 0"

abbreviation table_world :: "unit ClientSession_ext Session_scheme \<Rightarrow> (sref \<times> IoContext) list \<Rightarrow> nat \<Rightarrow> event list \<Rightarrow> server" where
  "table_world x io n evs \<equiv> pair_world x io n evs [(1, 0), (2, 1)] [] 1"

lemma pair_accept: "exec demo_os demo_proto (Accept (Some 6)) demo_world = Some two_world"
  by (simp add: two_world_def pair_world_def demo_world_def exec_def accept_round_def demo_app CreateAndRegisterSession_def
      demo_os_def Start_def OnConnected_def put_player_def on_session_def PostTask_def PostRecv_def AddRef_def emit_def
      AddSession_def Session_new_def Let_def demo_session_def demo_player_def ClientSession.fields_def room_new_def
      demo_server_def StartServer_def InitIocpAndWorkers_def server_new_def StartGameLoop_def numeral_eq_Suc)
    (rule fun_upd_twist, simp)

lemma pair_tick: "exec demo_os demo_proto Tick two_world
    = Some (table_world demo_session [receive_on 5, receive_on 6] 4 [Connected 5, Connected 6])"
  by (simp add: two_world_def pair_world_def exec_def game_loop_round_def DrainTasks_def TickAll_def run_task_def Enter_def
    tick_player_def demo_player_def Player_new_def SetSession_def)

abbreviation ping_bytes :: "byte list" where "ping_bytes \<equiv> packet_bytes (packet_of OP_C_PING [10, 0])"
abbreviation enter_bytes :: "byte list" where "enter_bytes \<equiv> packet_bytes (packet_of OP_C_ENTER_GAME [10, 0])"

definition pong :: SendBuffer where "pong = buffer_of (packet_bytes (packet_of OP_S_PONG [10, 0]))"

lemma pair_parse: "TryGetPacket ping_bytes Packet_new = (Success, [], packet_of OP_C_PING [10, 0])"
   "TryGetPacket enter_bytes Packet_new = (Success, [], packet_of OP_C_ENTER_GAME [10, 0])"
   "TryGetPacket [] Packet_new = (Incomplete, [], Packet_new)"
  using TryGetPacket_encode [OF wf_packet_of, of OP_C_PING "[10, 0]" "[]"]
    TryGetPacket_encode [OF wf_packet_of, of OP_C_ENTER_GAME "[10, 0]" "[]"]
  by (simp_all add: IsValidOpcode_def opcode_defs TryGetPacket_def)

lemma pair_pong: "parse_C_Ping demo_proto bs = Some 1"
   "MakePacketFromProto demo_proto OP_S_PONG (S_Pong a b) = Some (packet_bytes (packet_of OP_S_PONG [10, 0]))"
   "MakeSendBuffer (packet_bytes (packet_of OP_S_PONG [10, 0])) = Some (Some pong)"
  by (simp_all add: MakePacketFromProto_sendable sendable_def demo_proto_def MakeSendBuffer_small pong_def packet_bytes_def
      packet_of_def buffer_of_def)

lemma pair_ping:
  "exec demo_os demo_proto (Complete 0 True ping_bytes) (table_world demo_session [receive_on 5, receive_on 6] 4 [Connected 5, Connected 6])
    = Some (table_world (demo_session\<lparr>refCount := 3, sending := True, sendQ := [pong]\<rparr>)
       [receive_on 6, (5, \<lparr>ioType = SEND, ioBuffer = Some pong\<rparr>), receive_on 5] 6 [Connected 5, Connected 6, Sent 5 pong])"
proof -
  let ?hp = "HandlePacket demo_os demo_proto"
  let ?a = "table_world (demo_session\<lparr>recvStream := ping_bytes\<rparr>) [receive_on 6] 4 [Connected 5, Connected 6]"
  let ?b = "table_world (demo_session\<lparr>refCount := 3, sending := True, sendQ := [pong]\<rparr>)
      [receive_on 6, (5, \<lparr>ioType = SEND, ioBuffer = Some pong\<rparr>)] 5 [Connected 5, Connected 6, Sent 5 pong]"
  let ?c = "table_world (demo_session\<lparr>refCount := 4, sending := True, sendQ := [pong]\<rparr>)
      [receive_on 6, (5, \<lparr>ioType = SEND, ioBuffer = Some pong\<rparr>), receive_on 5] 6 [Connected 5, Connected 6, Sent 5 pong]"
  note s = pair_world_def demo_session_def Session_new_def on_session_def
  have ping: "hopcode (pheader (packet_of OP_C_PING [10, 0])) = OP_C_PING"
    by (simp add: packet_of_def)
  have hp: "?hp 5 (packet_of OP_C_PING [10, 0]) w = HandlePing demo_os demo_proto 5 (packet_of OP_C_PING [10, 0]) w" for w
    by (simp add: HandlePacket_def ping, simp add: opcode_defs)
  have h: "?hp 5 (packet_of OP_C_PING [10, 0]) (table_world demo_session [receive_on 6] 4 [Connected 5, Connected 6]) = Some (True, ?b)"
    unfolding hp
    by (simp add: s HandlePing_def pair_pong EnqueueSend_packet_def EnqueueSend_def PostSendFront_NoLock_def AddRef_def emit_def
      demo_os_def MAX_SEND_QUEUE_SIZE_def pong_def Let_def)
  have "recv_loop demo_os OnDisconnected ?hp 5 ?a = recv_loop demo_os OnDisconnected ?hp 5 ?b"
    by (subst recv_loop.simps) (use h in \<open>simp add: pair_parse s\<close>)
  moreover have "recv_loop demo_os OnDisconnected ?hp 5 ?b = Some ?c"
    by (subst recv_loop.simps) (simp add: pair_parse s PostRecv_def AddRef_def demo_os_def)
  ultimately show ?thesis
    by (simp add: exec_def worker_round_def OnRecvComplete_def Release_def s)
qed

abbreviation leaving_world :: server where
  "leaving_world \<equiv> table_world (demo_session\<lparr>refCount := 3, sending := True, sendQ := [pong]\<rparr>) [receive_on 6] 6
     [Connected 5, Connected 6, Sent 5 pong]"

abbreviation leaving_workers :: "worker list" where
  "leaving_workers \<equiv> [(5, SEND, On_Close), (5, RECV, On_Packet (packet_of OP_C_ENTER_GAME [10, 0]))]"

lemma demo_world_flags: "running demo_world" "mode demo_world = Mode_Server"
  by (simp_all add: demo_world_def exec_def accept_round_def demo_app CreateAndRegisterSession_def demo_os_def Start_def
      OnConnected_def put_player_def on_session_def PostTask_def PostRecv_def AddRef_def emit_def AddSession_def
      Session_new_def Let_def)

lemma pair_leaving: "(pstep demo_os demo_proto)\<^sup>*\<^sup>* (demo_server, [], []) (leaving_world, [], leaving_workers)"
proof -
  let ?x = "demo_session\<lparr>refCount := 3, sending := True, sendQ := [pong]\<rparr>"
  let ?evs = "[Connected 5, Connected 6, Sent 5 pong]" and ?send = "(5, \<lparr>ioType = SEND, ioBuffer = Some pong\<rparr>)"
  let ?w0 = "table_world ?x [receive_on 6, ?send, receive_on 5] 6 ?evs"
  let ?w1 = "table_world ?x [receive_on 6, receive_on 5] 6 ?evs"
  let ?w3 = "table_world (?x\<lparr>recvStream := enter_bytes\<rparr>) [receive_on 6] 6 ?evs"
  let ?job = "\<lambda>d. [(5, SEND, On_Close), (5, RECV, d)]" and ?step = "pstep demo_os demo_proto"
  have short: "length ping_bytes \<le> RECV_POST_SIZE" "length enter_bytes \<le> RECV_POST_SIZE"
    by (simp_all add: packet_bytes_def packet_of_def RECV_POST_SIZE_def)
  have "reachable demo_os demo_proto demo_server two_world"
    by (rule reachable.step [OF demo_reachable _ pair_accept])
      (simp add: enabled_def demo_world_simps demo_world_flags)
  then have "reachable demo_os demo_proto demo_server (table_world demo_session [receive_on 5, receive_on 6] 4 [Connected 5, Connected 6])"
    by (rule reachable.step [OF _ _ pair_tick]) (simp add: enabled_def)
  then have "reachable demo_os demo_proto demo_server ?w0"
    by (rule reachable.step [OF _ _ pair_ping]) (simp add: enabled_def pair_world_def short)
  then have "(pstep demo_os demo_proto)\<^sup>*\<^sup>* (demo_server, [], []) (?w0, [], [])"
    by (rule reachable_psteps)
  moreover have "?step (?w0, [], []) (?w1, [], [(5, SEND, On_Close)])"
    using pstep.complete [of "[]" ?w0 1 5 "snd ?send" "[]" demo_os demo_proto "[]" False]
    by (simp add: pair_world_def take_pending_def first_duty_def)
  moreover have "?step (?w1, [], [(5, SEND, On_Close)]) (leaving_world, [], ?job (On_Recv enter_bytes))"
    using pstep.complete [of "[(5, SEND, On_Close)]" ?w1 1 5 "snd (receive_on 5)" enter_bytes demo_os demo_proto "[]" True] short(2)
    by (simp add: pair_world_def take_pending_def first_duty_def)
  moreover have "?step (leaving_world, [], ?job (On_Recv enter_bytes)) (?w3, [], ?job On_Parse)"
    using pstep.work [of 1 "?job (On_Recv enter_bytes)" 5 RECV "On_Recv enter_bytes" demo_os demo_proto leaving_world "Some On_Parse" ?w3 "[]"]
    by (simp add: pair_world_def worker_step_def on_session_def resume_def demo_session_def Session_new_def)
  moreover have "?step (?w3, [], ?job On_Parse) (leaving_world, [], leaving_workers)"
    using pstep.work [of 1 "?job On_Parse" 5 RECV On_Parse demo_os demo_proto ?w3
        "Some (On_Packet (packet_of OP_C_ENTER_GAME [10, 0]))" leaving_world "[]"]
    by (simp add: pair_world_def worker_step_def on_session_def resume_def demo_session_def Session_new_def pair_parse)
  ultimately show ?thesis
    by (meson rtranclp.rtrancl_into_rtrancl)
qed

subsection \<open>Properties\<close>



end
