(* ===== verification/WorkBound.thy ===== *)
theory WorkBound
  imports Threads
begin

text \<open>
  How much the workers do: a potential that every step of a worker lowers, and that only a
  completion raises, by a constant and the bytes it brings. So no packet stream, however it is cut
  and whoever else runs, keeps a worker busy for longer than its bytes pay for.
\<close>

subsection \<open>What is buffered\<close>

definition buffered :: "sref \<Rightarrow> ('x, 'm) net \<Rightarrow> nat" where
  "buffered s w = (case heap w s of None \<Rightarrow> 0 | Some x \<Rightarrow> length (recvStream x))"

definition backlog :: "('x, 'm) net \<Rightarrow> nat" where
  "backlog w = (\<Sum>s\<in>set (sessions w). buffered s w)"

lemma sum_drop:
  fixes f g :: "'a \<Rightarrow> nat"
  assumes "finite B" and "\<And>t. t \<notin> B \<Longrightarrow> f t = 0" and "finite A" and "\<And>t. g t \<le> f t" and "g s + k \<le> f s"
  shows "sum g A + k \<le> sum f B"
proof -
  let ?h = "f(s := f s - k)"
  have le: "g t \<le> ?h t" for t
    using assms(4) [of t] assms(5) by auto
  have supp: "?h t = 0" if "t \<notin> B" for t
    using assms(2) [OF that] by auto
  have "sum g A \<le> sum ?h A"
    by (rule sum_mono) (rule le)
  also have "sum ?h A = sum ?h (A \<inter> B)"
    using assms(3) supp by (intro sum.mono_neutral_right) auto
  also have "\<dots> \<le> sum ?h B"
    using assms(1) by (intro sum_mono2) auto
  also have "sum ?h B + k = sum f B"
  proof (cases "s \<in> B")
    case True
    then have "sum ?h B = f s - k + sum f (B - {s})" "sum f B = f s + sum f (B - {s})"
      using assms(1) by (simp_all add: sum.remove)
    then show ?thesis
      using assms(5) by simp
  next
    case False
    then have "f s = 0" "k = 0"
      using assms(2) [OF False] assms(5) by simp_all
    then show ?thesis
      by (simp add: fun_upd_idem)
  qed
  finally show ?thesis
    by simp
qed

text \<open>Only open sessions buffer anything, so only registered ones.\<close>

lemma buffered_registered:
  assumes "process_ok m L Q P (w, js, ws)" and "s \<notin> set (sessions w)"
  shows "buffered s w = 0"
proof -
  have "ok_holding (held_by ws s) (view s w)"
    by (rule held_ok_view [OF workers_okD(1) [OF process_okD(1) [OF assms(1)]]])
  with assms(2) show ?thesis
    by (auto simp: held_by_def ok_def view_def buffered_def split: option.splits)
qed

lemma backlog_drops:
  assumes "process_ok m L Q P (w, js, ws)" and "\<And>t. buffered t w' \<le> buffered t w" and "buffered s w' + k \<le> buffered s w"
  shows "backlog w' + k \<le> backlog w"
  unfolding backlog_def
  by (rule sum_drop [where s = s]) (use assms(2,3) buffered_registered [OF assms(1)] in simp_all)

definition drains :: "server \<Rightarrow> server \<Rightarrow> bool" where
  "drains w w' \<longleftrightarrow> (\<forall>t. buffered t w' \<le> buffered t w)"

lemma backlog_drains: "process_ok m L Q P (w, js, ws) \<Longrightarrow> drains w w' \<Longrightarrow> backlog w' \<le> backlog w"
  using backlog_drops [of m L Q P w js ws w' s 0] by (simp add: drains_def)

lemma OnDisconnected_drains: "OnDisconnected s w = Some w' \<Longrightarrow> drains w w'"
  using OnDisconnected_heap_same [of s w w'] by (simp add: drains_def buffered_def)

interpretation draining: job_effect drains
proof unfold_locales
  show "drains w w'" if "untouched w w'" for w w'
  proof -
    have "buffered t w' \<le> buffered t w" for t
      using that by (cases "heap w' t") (fastforce simp: buffered_def untouched_def same_fields_def)+
    then show ?thesis
      by (simp add: drains_def)
  qed
  show "drains a c" if "drains a b" "drains b c" for a b c
    using that unfolding drains_def by (meson order_trans)
  show "drains w (w\<lparr>app := r\<rparr>)" for w r
    by (simp add: drains_def buffered_def)
qed (rule OnDisconnected_drains)

interpretation draining_connect: connect_effect OnDisconnected drains OnConnected "ClientSession.fields None"
  by unfold_locales (auto simp: drains_def buffered_def OnConnected_def PostTask_def put_player_def on_session_def Let_def
      Session_new_def split: option.splits if_splits)

lemma Stop_drains:
  assumes "Stop OnDisconnected w = Some w'"
  shows "drains w w'"
proof (cases "running w")
  case True
  let ?w1 = "w\<lparr>running := False, listening := False\<rparr>"
  obtain w2 where w2: "for_each (Close OnDisconnected) (sessions ?w1) ?w1 = Some w2" and w': "heap w' = heap w2"
    using assms True by (auto simp: Stop_def Let_def split: bind_splits)
  from w2 have "drains ?w1 w2"
    by (rule draining.for_each_R) (rule draining.Close_R)
  with w' show ?thesis
    by (simp add: drains_def buffered_def)
qed (use assms in \<open>simp add: Stop_def drains_def\<close>)

subsection \<open>The potential\<close>

fun effort :: "duty \<Rightarrow> nat" where
  "effort (On_Recv data) = 4 + length data"
| "effort On_Parse = 3"
| "effort (On_Packet pkt) = 5"
| "effort On_Check = 4"
| "effort On_Post = 2"
| "effort On_Sent = 2"
| "effort On_Close = 2"
| "effort On_Release = 1"

definition potential :: "server \<Rightarrow> worker list \<Rightarrow> nat" where
  "potential w ws = backlog w + (\<Sum>(s, ty, d)\<leftarrow>ws. effort d)"

lemma first_effort: "effort (first_duty ty success bytes) \<le> 4 + length bytes"
  by (simp add: first_duty_def)

lemma received_backlog:
  assumes "process_ok m L Q P (w, js, ws)" and "heap w s = Some x"
  shows "backlog (w\<lparr>heap := (heap w)(s \<mapsto> x\<lparr>recvStream := recvStream x @ data\<rparr>)\<rparr>) \<le> backlog w + length data"
proof -
  let ?w' = "w\<lparr>heap := (heap w)(s \<mapsto> x\<lparr>recvStream := recvStream x @ data\<rparr>)\<rparr>"
  have "buffered t ?w' \<le> buffered t w + (if t = s then length data else 0)" for t
    using assms(2) by (simp add: buffered_def)
  then have "backlog ?w' \<le> (\<Sum>t\<in>set (sessions w). buffered t w + (if t = s then length data else 0))"
    unfolding backlog_def by (simp add: sum_mono)
  also have "\<dots> \<le> backlog w + length data"
    by (simp add: sum.distrib backlog_def)
  finally show ?thesis .
qed

text \<open>Every step of a worker lowers it.\<close>

lemma worker_step_effort:
  assumes "process_ok m L Q P (w, js, ws)" and "worker_step os OnDisconnected (HandlePacket os P) s d w = Some (d', w')"
  shows "backlog w' + (case d' of None \<Rightarrow> 0 | Some e \<Rightarrow> effort e) < backlog w + effort d"
proof -
  have quiet: "backlog w' \<le> backlog w" if "\<And>data. d \<noteq> On_Recv data"
    by (rule backlog_drains [OF assms(1) draining.handles.worker_step_quiet_R [OF assms(2) that]])
  show ?thesis
  proof (cases d)
    case (On_Recv data)
    then show ?thesis
      using assms(2) received_backlog [OF assms(1), of s _ data]
      by (fastforce simp: worker_step_def on_session_def split: if_splits bind_splits)
  next
    case On_Parse
    obtain x result stream pkt where x: "heap w s = Some x" and t: "TryGetPacket (recvStream x) Packet_new = (result, stream, pkt)"
      and w': "w' = w\<lparr>heap := (heap w)(s \<mapsto> x\<lparr>recvStream := stream\<rparr>)\<rparr>"
      and d': "d' = Some (if result = Incomplete then On_Post else if result \<noteq> Success then On_Close else On_Packet pkt)"
      using assms(2) On_Parse by (auto simp: worker_step_def Let_def on_session_def split: prod.splits bind_splits)
    show ?thesis
    proof (cases "result = Success")
      case True
      then have "length stream + 4 \<le> length (recvStream x)"
        using TryGetPacket_progress t by fastforce
      then have "backlog w' + 4 \<le> backlog w"
        using x by (intro backlog_drops [OF assms(1), where s = s]) (auto simp: w' buffered_def)
      then show ?thesis
        using True On_Parse d' by simp
    qed (use quiet On_Parse d' in simp)
  qed (use quiet assms(2) in \<open>auto simp: worker_step_def split: if_splits bind_splits\<close>)
qed

lemma work_potential:
  assumes "process_ok m L Q P (w, js, ws)" and "k < length ws" and "ws ! k = (s, ty, d)"
    and "worker_step os OnDisconnected (HandlePacket os P) s d w = Some (d', w')"
  shows "potential w' (take k ws @ resume s ty d' @ drop (Suc k) ws) < potential w ws"
proof -
  have "(\<Sum>(s, ty, d)\<leftarrow>ws. effort d) = (\<Sum>(s, ty, d)\<leftarrow>take k ws @ (s, ty, d) # drop (Suc k) ws. effort d)"
    using id_take_nth_drop [OF assms(2)] assms(3) by simp
  then show ?thesis
    using worker_step_effort [OF assms(1,4)] by (auto simp: potential_def resume_def split: option.split)
qed

lemma take_pending_potential:
  "potential (take_pending i w) (ws @ [(s, ty, first_duty ty success bytes)]) \<le> potential w ws + 4 + length bytes"
  using first_effort [of ty success bytes] by (simp add: potential_def backlog_def buffered_def take_pending_def)

lemma pstep_potential:
  assumes "pstep os P (w, js, ws) (w', js', ws)" and "process_ok m L Q P (w, js, ws)"
  shows "potential w' ws \<le> potential w ws"
  using assms(1)
proof (cases rule: pstep.cases)
  case (accept client)
  then have "drains w w'"
    using draining_connect.accept_round_R by (simp add: exec_def)
  then show ?thesis
    using backlog_drains [OF assms(2)] by (simp add: potential_def)
next
  case (work k s ty d d')
  then show ?thesis
    using work_potential [OF assms(2) work(3-5)] by simp
next
  case (job j ks js'')
  then have "drains w w'"
    using draining.job_step_R by blast
  then show ?thesis
    using backlog_drains [OF assms(2)] by (simp add: potential_def)
next
  case shutdown
  then have "drains w w'"
    using Stop_drains by (fastforce simp: exec_def StopGameLoop_def drains_def buffered_def)
  then show ?thesis
    using backlog_drains [OF assms(2)] by (simp add: potential_def)
qed simp_all

subsection \<open>Counting along an execution\<close>

text \<open>An execution with the worker steps \<open>n\<close>, the completions \<open>c\<close> and the bytes \<open>b\<close> they brought.\<close>

inductive metered :: "os_api \<Rightarrow> proto_api \<Rightarrow> process \<Rightarrow> nat \<Rightarrow> nat \<Rightarrow> nat \<Rightarrow> process \<Rightarrow> bool" for os P st where
  started: "metered os P st 0 0 0 st"
| taken: "metered os P st n c b (w, js, ws) \<Longrightarrow> length ws < workers w \<Longrightarrow> i < length (pending w) \<Longrightarrow> pending w ! i = (s, io)
    \<Longrightarrow> ioType io = RECV \<longrightarrow> length bytes \<le> RECV_POST_SIZE
    \<Longrightarrow> metered os P st n (Suc c) (b + length bytes)
          (take_pending i w, js, ws @ [(s, ioType io, first_duty (ioType io) success bytes)])"
| worked: "metered os P st n c b (w, js, ws) \<Longrightarrow> k < length ws \<Longrightarrow> ws ! k = (s, ty, d)
    \<Longrightarrow> worker_step os OnDisconnected (HandlePacket os P) s d w = Some (d', w')
    \<Longrightarrow> metered os P st (Suc n) c b (w', js, take k ws @ resume s ty d' @ drop (Suc k) ws)"
| others: "metered os P st n c b (w, js, ws) \<Longrightarrow> pstep os P (w, js, ws) (w', js', ws)
    \<Longrightarrow> metered os P st n c b (w', js', ws)"

text \<open>It is an execution of the process, and every execution can be counted.\<close>

lemma metered_psteps: "metered os P st n c b st' \<Longrightarrow> (pstep os P)\<^sup>*\<^sup>* st st'"
proof (induction rule: metered.induct)
  case (taken n c b w js ws i s io bytes success)
  from pstep.complete [OF taken.hyps(2-5)] taken.IH show ?case
    by (rule rtranclp.rtrancl_into_rtrancl [rotated])
next
  case (worked n c b w js ws k s ty d d' w')
  from pstep.work [OF worked.hyps(2-4)] worked.IH show ?case
    by (rule rtranclp.rtrancl_into_rtrancl [rotated])
next
  case (others n c b w js ws w' js')
  from others.hyps(2) others.IH show ?case
    by (rule rtranclp.rtrancl_into_rtrancl [rotated])
qed simp

lemma psteps_metered: "(pstep os P)\<^sup>*\<^sup>* st st' \<Longrightarrow> \<exists>n c b. metered os P st n c b st'"
proof (induction rule: rtranclp_induct)
  case base
  then show ?case
    using metered.started by blast
next
  case (step u v)
  then obtain n c b where m: "metered os P st n c b u"
    by blast
  from step.hyps(2) show ?case
  proof (cases rule: pstep.cases)
    case complete
    then show ?thesis
      using m metered.taken by blast
  next
    case work
    then show ?thesis
      using m metered.worked by blast
  qed (use m step.hyps(2) metered.others in blast)+
qed

lemma metered_potential:
  assumes "metered os P (w0, [], []) n c b (w, js, ws)" and "process_ok m L Q P (w0, [], [])" and "backlog w0 = 0"
  shows "n + potential w ws \<le> 4 * c + b"
  using assms(1)
proof (induction n c b "(w, js, ws)" arbitrary: w js ws rule: metered.induct)
  case started
  then show ?case
    using assms(3) by (simp add: potential_def)
next
  case (taken n c b w js ws i s io bytes success)
  then show ?case
    using take_pending_potential [of i w ws s "ioType io" success bytes] by fastforce
next
  case (worked n c b w js ws k s ty d d' w')
  have "process_ok m L Q P (w, js, ws)"
    by (rule psteps_ok [OF metered_psteps [OF worked.hyps(1)] assms(2)])
  from work_potential [OF this worked.hyps(3-5)] worked.hyps(2) show ?case
    by simp
next
  case (others n c b w js ws w' js')
  have "process_ok m L Q P (w, js, ws)"
    by (rule psteps_ok [OF metered_psteps [OF others.hyps(1)] assms(2)])
  from pstep_potential [OF others.hyps(3) this] others.hyps(2) show ?case
    by simp
qed

subsection \<open>Properties\<close>



end
