(* ===== verification/EndToEnd.thy ===== *)
theory EndToEnd
  imports Threads Delivery RoomProtocol
begin

text \<open>
  From the wire to the simulation and back: what a client sends, through the network service, the
  packet handler, the room and its tick, to the message the client is sent.
\<close>

subsection \<open>A packet in one piece\<close>

text \<open>
  A completion that brings one packet to a session with an empty buffer: the handler runs once, and
  the next receive is posted in place of the completed one.
\<close>

lemma TryGetPacket_Nil: "TryGetPacket [] out = (Incomplete, [], out)"
  by (simp add: TryGetPacket_def)

lemma one_packet_round:
  assumes "pending w ! i = (s, c)" and "ioType c = RECV" and "heap w s = Some x" and "\<not> closing x" and "recvStream x = []"
    and "wf_packet pkt" and "hp s pkt (take_pending i w) = Some (True, w1)"
    and "heap w1 s = Some x1" and "\<not> closing x1" and "recvStream x1 = []" and "refCount x1 \<noteq> 0" and "recv_ok os (calls w1)"
  shows "worker_round os od hp i True (packet_bytes pkt) w
    = Some (w1\<lparr>calls := calls w1 + 1, pending := pending w1 @ [(s, \<lparr>ioType = RECV, ioBuffer = None\<rparr>)]\<rparr>)"
proof -
  let ?v = "take_pending i w"
  let ?w1 = "?v\<lparr>heap := (heap w)(s \<mapsto> x\<lparr>recvStream := packet_bytes pkt\<rparr>)\<rparr>"
  have same: "?v\<lparr>heap := (heap w)(s \<mapsto> x\<lparr>recvStream := []\<rparr>)\<rparr> = ?v"
  proof -
    have "x\<lparr>recvStream := []\<rparr> = x"
      using assms(5) by simp
    then have "(heap w)(s \<mapsto> x\<lparr>recvStream := []\<rparr>) = heap w"
      using assms(3) by (simp add: fun_upd_idem)
    then show ?thesis
      by (simp add: take_pending_def)
  qed
  have same1: "w1\<lparr>heap := (heap w1)(s \<mapsto> x1\<lparr>recvStream := []\<rparr>)\<rparr> = w1"
  proof -
    have "x1\<lparr>recvStream := []\<rparr> = x1"
      using assms(10) by simp
    then show ?thesis
      using assms(8) by (simp add: fun_upd_idem)
  qed
  have get: "TryGetPacket (packet_bytes pkt) Packet_new = (Success, [], pkt)"
    using TryGetPacket_encode [OF assms(6), of "[]"] by simp
  have "recv_loop os od hp s ?w1 = recv_loop os od hp s w1"
    using assms(7-9) by (subst recv_loop.simps) (simp add: get on_session_def same)
  also have "\<dots> = PostRecv os od s w1"
    using assms(8,10) by (subst recv_loop.simps) (simp add: TryGetPacket_Nil on_session_def same1)
  finally have "OnRecvComplete os od hp s (packet_bytes pkt) ?v = PostRecv os od s w1"
    using assms(3-5) by (simp add: OnRecvComplete_def on_session_def take_pending_def)
  then show ?thesis
    using assms(1,2,8,9,11,12)
    by (simp add: worker_round_def take_pending_def [symmetric] PostRecv_def AddRef_def Release_def on_session_def Let_def fun_upd_idem)
qed

subsection \<open>What a tick sends to one session\<close>

text \<open>What a session has accepted only grows, as long as it stays open.\<close>

definition grows :: "sref \<Rightarrow> server \<Rightarrow> server \<Rightarrow> bool" where
  "grows s w w' \<longleftrightarrow> keeps_open s w w' \<and> (live w' s \<noteq> None \<longrightarrow> (\<exists>bs. accepted s w' = accepted s w @ bs))"

lemma grows_refl [simp]: "grows s w w"
  by (simp add: grows_def)

lemma grows_trans:
  assumes "grows s a b" and "grows s b c"
  shows "grows s a c"
  unfolding grows_def
proof (intro conjI impI)
  show "keeps_open s a c"
    using assms keeps_open_trans unfolding grows_def by blast
  assume "live c s \<noteq> None"
  moreover from this have "live b s \<noteq> None"
    using assms(2) by (auto simp: grows_def keeps_open_def)
  ultimately show "\<exists>bs. accepted s c = accepted s a @ bs"
    using assms unfolding grows_def by (metis append.assoc)
qed

lemma elsewhere_grows: "elsewhere s w w' \<Longrightarrow> grows s w w'"
  by (simp add: grows_def elsewhere_keeps_open elsewhere_accepted)

lemma put_player_grows [simp]: "grows s w (put_player p pl w)"
  by (simp add: grows_def keeps_open_def put_player_def accepted_def live_def)

lemma safe_view: "safe_at H m L Q P D w \<Longrightarrow> \<exists>h f r. ok h f r (view s w)"
  using held_ok_view [of H w s] by (cases "H s") (auto simp: safe_at_def)

text \<open>A message to the session's own player is accepted.\<close>

lemma RoomSend_delivers:
  assumes "safe_at H m L Q P D w" and "RoomSend os p (Some sb) w = Some w'" and "0 < writeSize sb"
    and "live w s = Some (ClientSession.fields (Some p))" and "live w' s \<noteq> None"
  shows "accepted s w' = accepted s w @ [sb]"
proof -
  obtain pl where "store (app w) p = Some pl" "session pl = Some s"
    using room_invD(4) [OF safe_room [OF assms(1)] assms(4)] by blast
  then have send: "EnqueueSend os OnDisconnected s (Some sb) w = Some w'"
    using assms(2) by (simp add: RoomSend_def)
  obtain h f r where "ok h f r (view s w)"
    using safe_view [OF assms(1)] by blast
  then show ?thesis
    using EnqueueSend_accepted [OF send _ _ assms(3,5)] assms(4) OnDisconnected_heap by simp
qed

lemma RoomSend_grows:
  assumes "safe_at H m L Q P D w" and "RoomSend os q buf w = Some w'"
  shows "grows s w w'"
proof -
  obtain ql where ql: "store (app w) q = Some ql"
    using assms(2) by (auto simp: RoomSend_def split: bind_splits)
  show ?thesis
  proof (cases "session ql")
    case None
    then show ?thesis
      using assms(2) ql by (simp add: RoomSend_def)
  next
    case (Some t)
    then have send: "EnqueueSend os OnDisconnected t buf w = Some w'"
      using assms(2) ql by (simp add: RoomSend_def)
    have lv: "live w t = Some (ClientSession.fields (Some q))"
      by (rule room_invD(5) [OF safe_room [OF assms(1)] ql Some])
    show ?thesis
    proof (cases "t = s \<and> buf \<noteq> None \<and> 0 < writeSize (the buf)")
      case True
      then show ?thesis
        using RoomSend_delivers [OF assms(1), of os q "the buf" w' s] assms(2) lv RoomSend_keeps_open [OF assms(2), of s]
        by (auto simp: grows_def)
    next
      case False
      then have "w' = w \<or> t \<noteq> s"
        using send by (auto simp: EnqueueSend_def split: option.splits)
      then show ?thesis
        using server_quiet.EnqueueSend_elsewhere [OF send, of s] elsewhere_grows by auto
    qed
  qed
qed

lemma for_each_grows:
  assumes "for_each f qs w = Some w'" and "safe_at H m L Q P D w" and "set qs \<subseteq> D"
    and "\<And>q v v'. q \<in> D \<Longrightarrow> safe_at H m L Q P D v \<Longrightarrow> f q v = Some v' \<Longrightarrow> safe_at H m L Q P D v' \<and> grows s v v'"
  shows "safe_at H m L Q P D w' \<and> grows s w w'"
  using assms(1-3)
proof (induction qs arbitrary: w)
  case (Cons q qs)
  then obtain w1 where w1: "f q w = Some w1" "for_each f qs w1 = Some w'"
    by (auto split: bind_splits)
  have "safe_at H m L Q P D w1 \<and> grows s w w1"
    using assms(4) [of q w w1] Cons.prems(2,3) w1(1) by auto
  then show ?case
    using Cons.IH [OF w1(2)] Cons.prems(3) grows_trans by auto
qed simp

lemma RoomSend_step:
  assumes "q \<in> D" and "safe_at H m L Q P D w" and "RoomSend os q buf w = Some w'"
  shows "safe_at H m L Q P D w' \<and> grows s w w'"
proof -
  have "q \<in> dom (store (app w))"
    using room_invD(2) [OF safe_room [OF assms(2)]] assms(1) by auto
  from RoomSend_ok [OF assms(2) this, of os buf] show ?thesis
    using RoomSend_grows [OF assms(2,3)] assms(3) by auto
qed

lemma RoomBroadcast_grows:
  assumes "safe_at H m L Q P D w" and "RoomBroadcast os buf except w = Some w'"
  shows "grows s w w'"
proof -
  have D: "set (map snd (players (app w))) \<subseteq> dom (store (app w))"
    using room_invD(6) [OF safe_room [OF assms(1)]] by fastforce
  have "safe_at H m L Q P (dom (store (app w))) w' \<and> grows s w w'"
  proof (rule for_each_grows [OF assms(2) [unfolded RoomBroadcast_def] safe_dom [OF assms(1)] D])
    fix q v v'
    assume "q \<in> dom (store (app w))" and "safe_at H m L Q P (dom (store (app w))) v"
      and "(if Some q = except then Some v else RoomSend os q buf v) = Some v'"
    then show "safe_at H m L Q P (dom (store (app w))) v' \<and> grows s v v'"
      using RoomSend_step by (cases "Some q = except") auto
  qed
  then show ?thesis ..
qed

text \<open>One player's part of the tick, and the message about himself that he is sent.\<close>

lemma tick_player_grows:
  assumes "safe_at H m L Q P D w" and "q \<in> D" and "tick_player os P q w = Some w'"
  shows "safe_at H m L Q P D w' \<and> grows s w w'"
proof -
  have q: "q \<in> dom (store (app w))"
    using room_invD(2) [OF safe_room [OF assms(1)]] assms(2) by auto
  from tick_player_ok [OF assms(1) this, of os] assms(3) have safe: "safe_at H m L Q P D w'"
    by auto
  obtain pl where pl: "store (app w) q = Some pl"
    using q by auto
  show ?thesis
  proof (cases "entered pl")
    case False
    then show ?thesis
      using safe assms(3) pl by (simp add: tick_player_def)
  next
    case True
    obtain pl1 where pl1: "simulate_tick m pl = Some pl1" "player_ok Q pl1" "playerId pl1 = playerId pl" "session pl1 = session pl"
      using simulate_tick_ok safe_phys [OF assms(1)] room_invD(9) [OF safe_room [OF assms(1)] pl] by blast
    have s1: "safe_at H m L Q P D (put_player q pl1 w)"
      by (rule safe_put [OF assms(1) pl pl1(3,4,2)])
    obtain b1 b2 w2 where w2: "RoomSend os q b1 (put_player q pl1 w) = Some w2" and w': "RoomBroadcast os b2 (Some q) w2 = Some w'"
      using assms(3) pl True pl1(1) safe_phys [OF assms(1)] by (auto simp: tick_player_def Let_def)
    note r = RoomSend_step [OF assms(2) s1 w2, of s]
    then have "grows s w2 w'"
      using RoomBroadcast_grows [OF _ w'] by blast
    then show ?thesis
      using safe r grows_trans [OF put_player_grows grows_trans] by blast
  qed
qed


text \<open>
  The tick of the player of an open session: whatever the ticks of the others before and after him
  do, he is simulated on the state he had, and if the session survives it has accepted his state.
\<close>

lemma tick_player_sends_state:
  assumes "safe_at H m L Q P D w" and "live w s = Some (ClientSession.fields (Some p))"
    and "store (app w) p = Some pl" and "entered pl" and "tick_player os P p w = Some w'"
    and "simulate_tick m pl = Some pl'" and "sendable P (S_PlayerState_msg (player_state_msg pl')) = Some bs"
    and "live w' s \<noteq> None"
  shows "\<exists>later. accepted s w' = accepted s w @ buffer_of (packet_bytes (packet_of OP_S_PLAYER_STATE bs)) # later"
proof -
  let ?sb = "buffer_of (packet_bytes (packet_of OP_S_PLAYER_STATE bs))" and ?w1 = "put_player p pl' w"
  have "player_ok Q pl' \<and> playerId pl' = playerId pl \<and> session pl' = session pl"
    using simulate_tick_ok safe_phys [OF assms(1)] room_invD(9) [OF safe_room [OF assms(1)] assms(3)] assms(6) by fastforce
  then have s1: "safe_at H m L Q P D ?w1"
    using safe_put [OF assms(1,3)] by blast
  obtain b2 w2 where w2: "RoomSend os p (Some ?sb) ?w1 = Some w2" and w': "RoomBroadcast os b2 (Some p) w2 = Some w'"
    using assms(3-7) safe_phys [OF assms(1)] by (auto simp: tick_player_def Let_def proto_buffer_sendable)
  have "p \<in> dom (store (app ?w1))"
    using assms(3) by (auto simp: put_player_def)
  then have r: "safe_at H m L Q P D w2"
    using RoomSend_ok [OF s1, of p os "Some ?sb"] w2 by auto
  have g: "grows s w2 w'"
    by (rule RoomBroadcast_grows [OF r w'])
  then have "live w2 s \<noteq> None"
    using assms(8) by (auto simp: grows_def keeps_open_def)
  moreover have "live ?w1 s = Some (ClientSession.fields (Some p))"
    using assms(2) by (simp add: live_def put_player_def)
  moreover have "0 < writeSize ?sb"
    by simp
  ultimately have "accepted s w2 = accepted s ?w1 @ [?sb]"
    using RoomSend_delivers [OF s1 w2] by blast
  then show ?thesis
    using g assms(8) by (auto simp: grows_def accepted_def put_player_def)
qed


lemma tick_players_grow:
  assumes "for_each (tick_player os P) qs w = Some w'" and "safe_at H m L Q P D w" and "set qs \<subseteq> D"
  shows "safe_at H m L Q P D w' \<and> grows s w w'"
  by (rule for_each_grows [OF assms]) (rule tick_player_grows)

lemma TickAll_sends_state:
  assumes "safe_at H m L Q P D w" and "live w s = Some (ClientSession.fields (Some p))"
    and "store (app w) p = Some pl" and "entered pl" and "p \<in> snd ` set (players (app w))"
    and "TickAll os P w = Some w'" and "simulate_tick m pl = Some pl'"
    and "sendable P (S_PlayerState_msg (player_state_msg pl')) = Some bs" and "live w' s \<noteq> None"
  shows "\<exists>earlier later. accepted s w'
    = accepted s w @ earlier @ buffer_of (packet_bytes (packet_of OP_S_PLAYER_STATE bs)) # later"
proof -
  let ?D = "dom (store (app w))" and ?sb = "buffer_of (packet_bytes (packet_of OP_S_PLAYER_STATE bs))"
  note room = safe_room [OF assms(1)]
  obtain qs rs where split: "map snd (players (app w)) = qs @ p # rs"
    using assms(5) by (metis image_set split_list)
  have D: "set (map snd (players (app w))) \<subseteq> ?D"
    using room_invD(6) [OF room] by fastforce
  obtain w1 w2 w3 where w1: "for_each (tick_player os P) qs w = Some w1" and w2: "tick_player os P p w1 = Some w2"
    and w3: "for_each (tick_player os P) rs w2 = Some w3"
    and w': "w' = w3\<lparr>app := (app w3)\<lparr>serverTick := serverTick (app w3) + 1\<rparr>\<rparr>"
    using assms(6) split by (auto simp: TickAll_def for_each_append split: bind_splits)
  have g1: "safe_at H m L Q P ?D w1 \<and> grows s w w1"
    by (rule tick_players_grow [OF w1 safe_dom [OF assms(1)]]) (use D split in auto)
  have g2: "safe_at H m L Q P ?D w2 \<and> grows s w1 w2"
    by (rule tick_player_grows [OF conjunct1 [OF g1] _ w2]) (use assms(3) in auto)
  have g3: "safe_at H m L Q P ?D w3 \<and> grows s w2 w3"
    by (rule tick_players_grow [OF w3 conjunct1 [OF g2]]) (use D split in auto)
  have lv: "live w3 s \<noteq> None" "live w2 s \<noteq> None" "live w1 s = Some (ClientSession.fields (Some p))"
    using assms(2,9) w' g1 g2 g3 by (auto simp: grows_def keeps_open_def live_def)
  have dist: "distinct qs" "p \<notin> set qs"
    using room_inv_distinct [OF room] split by auto
  obtain pl1 where pl1: "store (app w1) p = Some pl1" and "ticked (tmap (app w)) (p \<in> set qs) pl pl1"
    using tick_players_effect [OF w1 dist(1)] assms(3) by blast
  then obtain ss where ss: "pl1 = pl\<lparr>session := ss\<rparr>"
    using dist(2) by (auto simp: ticked_def)
  have "session pl1 = Some s" and "session pl = Some s"
    using room_invD(4) [OF safe_room [OF conjunct1 [OF g1]] lv(3)] room_invD(4) [OF room assms(2)] pl1 assms(3) by auto
  then have "pl1 = pl"
    using ss by simp
  then obtain later where "accepted s w2 = accepted s w1 @ ?sb # later"
    using tick_player_sends_state [OF conjunct1 [OF g1] lv(3) _ assms(4) w2 assms(7,8) lv(2)] pl1 by blast
  moreover obtain earlier where "accepted s w1 = accepted s w @ earlier"
    using g1 lv(3) by (auto simp: grows_def)
  moreover obtain rest where "accepted s w3 = accepted s w2 @ rest"
    using g3 lv(1) by (auto simp: grows_def)
  ultimately have "accepted s w3 = accepted s w @ earlier @ ?sb # (later @ rest)"
    by simp
  moreover have "accepted s w' = accepted s w3"
    by (simp add: w' accepted_def)
  ultimately show ?thesis
    by metis
qed

text \<open>A tick's simulation of a few waiting commands.\<close>

lemma simulate_tick_few:
  assumes "inputBuffer pl \<noteq> []" and "length (inputBuffer pl) \<le> MAX_STEPS_PER_TICK"
  shows "simulate_tick m pl
    = map_option (\<lambda>st. pl\<lparr>physState := st, inputBuffer := []\<rparr>) (sim_cmds m (inputBuffer pl) (physState pl))"
  using assms
  by (cases "sim_cmds m (inputBuffer pl) (physState pl)") (simp_all add: simulate_tick_def run_inputs_spec)

subsection \<open>Properties\<close>

lemma quiet_tick:
  assumes "loopRunning (app w)" and "taskQueue (app w) = []" and "TickAll os P w = Some w'"
  shows "exec os P Tick w = Some w'"
proof -
  have same: "w\<lparr>app := (app w)\<lparr>taskQueue := []\<rparr>\<rparr> = w"
    using assms(2) by (metis net.surjective net.update_convs(11) room.surjective room.update_convs(5))
  show ?thesis
    using assms by (simp add: exec_def game_loop_round_def DrainTasks_def same)
qed

lemma tick_answers_commands:
  assumes "safe m L Q P D w" and "loopRunning (app w)" and "taskQueue (app w) = []"
    and "live w s = Some (ClientSession.fields (Some p))" and "store (app w) p = Some pl" and "entered pl"
    and "p \<in> snd ` set (players (app w))" and "inputBuffer pl \<noteq> []" and "length (inputBuffer pl) \<le> 8"
  shows "\<exists>w' st pl'. exec os P Tick w = Some w' \<and> sim_cmds m (inputBuffer pl) (physState pl) = Some st
    \<and> store (app w') p = Some pl' \<and> physState pl' = st \<and> inputBuffer pl' = []
    \<and> (\<forall>bs. live w' s \<noteq> None \<longrightarrow> sendable P (S_PlayerState_msg (player_state_msg pl')) = Some bs \<longrightarrow>
         (\<exists>earlier later. accepted s w'
            = accepted s w @ earlier @ buffer_of (packet_bytes (packet_of OP_S_PLAYER_STATE bs)) # later))"
proof -
  note room = safe_room [OF assms(1)]
  obtain w' where w': "TickAll os P w = Some w'"
    using TickAll_ok [OF assms(1)] by blast
  obtain pl1 where pl1: "simulate_tick m pl = Some pl1"
    using simulate_tick_ok safe_phys [OF assms(1)] room_invD(9) [OF room assms(5)] by blast
  then obtain st where st: "sim_cmds m (inputBuffer pl) (physState pl) = Some st"
    and q: "pl1 = pl\<lparr>physState := st, inputBuffer := []\<rparr>"
    using assms(8,9) by (auto simp: simulate_tick_few MAX_STEPS_PER_TICK_def)
  obtain pl' where pl': "store (app w') p = Some pl'"
    and "ticked (tmap (app w)) (p \<in> set (map snd (players (app w)))) pl pl'"
    using TickAll_effect [OF w' room_inv_distinct [OF room]] assms(5) by blast
  then obtain ss where ss: "pl' = pl1\<lparr>session := ss\<rparr>"
    using assms(6,7) pl1 room_invD(1) [OF room] by (auto simp: ticked_def)
  have "player_state_msg pl' = player_state_msg pl1"
    by (simp add: ss player_state_msg_def Let_def)
  then have "\<forall>bs. live w' s \<noteq> None \<longrightarrow> sendable P (S_PlayerState_msg (player_state_msg pl')) = Some bs \<longrightarrow>
      (\<exists>earlier later. accepted s w'
         = accepted s w @ earlier @ buffer_of (packet_bytes (packet_of OP_S_PLAYER_STATE bs)) # later)"
    using TickAll_sends_state [OF assms(1,4,5,6,7) w' pl1] by simp
  moreover have "physState pl' = st" and "inputBuffer pl' = []"
    by (simp_all add: ss q)
  ultimately show ?thesis
    using quiet_tick [OF assms(2,3) w'] pl' st by blast
qed

text \<open>A command, as a client sends it.\<close>

definition demo_command :: C_InputCmd where
  "demo_command = \<lparr>ic_input_seq = 8, ic_delta_time = fzero, ic_move_left = False, ic_move_right = True, ic_jump = False,
     ic_drop_through = False, ic_face_dir = 1, ic_move_up = False, ic_move_down = False\<rparr>"

text \<open>C6: From the wire to the simulation and back: when the bytes of one \<open>C_INPUT_CMD\<close> packet arrive on the open session of an entered player of the table, with fewer than eight commands waiting and no task queued, the completion is handled and the next round of the game loop simulates the waiting commands and then this one, in that order, leaves none waiting, and sends the state reached to that session, unless the session was closed by a refused send: the buffers accepted for it grow by one that holds exactly the \<open>S_PLAYER_STATE\<close> packet of that state.\<close>

theorem command_to_state_message:
  assumes "safe m L Q P D w" and "loopRunning (app w)" and "handlerRoom (app w)" and "taskQueue (app w) = []"
    and "pending w ! i = (s, c)" and "enabled (Complete i True (packet_bytes pkt)) w" and "ioType c = RECV" and "recv_ok os (calls w)"
    and "heap w s = Some x" and "\<not> closing x" and "recvStream x = []" and "csPlayer x = Some p"
    and "store (app w) p = Some pl" and "entered pl" and "length (inputBuffer pl) < 8" and "p \<in> snd ` set (players (app w))"
    and "wf_packet pkt" and "hopcode (pheader pkt) = OP_C_INPUT_CMD" and "parse_C_InputCmd P (payload pkt) = Some req"
  shows "\<exists>w1 w2 st pl'. exec os P (Complete i True (packet_bytes pkt)) w = Some w1 \<and> exec os P Tick w1 = Some w2
    \<and> sim_cmds (tmap (app w)) (inputBuffer pl @ [input_of req]) (physState pl) = Some st
    \<and> store (app w2) p = Some pl' \<and> physState pl' = st \<and> inputBuffer pl' = []
    \<and> (\<forall>bs. live w2 s \<noteq> None \<longrightarrow> sendable P (S_PlayerState_msg (player_state_msg pl')) = Some bs \<longrightarrow>
         (\<exists>earlier later. accepted s w2
            = accepted s w @ earlier @ buffer_of (packet_bytes (packet_of OP_S_PLAYER_STATE bs)) # later))"
proof -
  let ?pl = "EnqueueInput (input_of req) pl" and ?v = "take_pending i w"
  let ?v1 = "put_player p ?pl ?v"
  let ?w1 = "?v1\<lparr>calls := calls w + 1, pending := pending ?v @ [(s, \<lparr>ioType = RECV, ioBuffer = None\<rparr>)]\<rparr>"
  have buf: "?pl = pl\<lparr>inputBuffer := inputBuffer pl @ [input_of req]\<rparr>"
    using assms(15) by (simp add: EnqueueInput_def Let_def MAX_INPUT_BUFFER_def)
  have hp: "HandlePacket os P s pkt ?v = Some (True, ?v1)"
    using assms(3,9,12-14,18,19)
    by (simp add: HandlePacket_def HandleInputCmd_def GetPlayer_def take_pending_def opcode_defs)
  have "refCount x \<noteq> 0"
    using safe_view [OF assms(1), of s] assms(9) by (auto simp: ok_def view_def split: option.splits)
  then have w1: "exec os P (Complete i True (packet_bytes pkt)) w = Some ?w1"
    using one_packet_round [where hp = "HandlePacket os P" and ?w1.0 = ?v1 and ?x1.0 = x and od = OnDisconnected and os = os,
        OF assms(5,7,9-11,17) hp] assms(8-11)
    by (simp add: exec_def put_player_def take_pending_def)
  have safe1: "safe m L Q P D ?w1"
    using exec_ok [OF assms(1,6), of os] w1 by auto
  have lv: "live ?w1 s = Some (ClientSession.fields (Some p))"
    using assms(9,10,12) by (simp add: live_def put_player_def take_pending_def more_csPlayer)
  have acc: "accepted s ?w1 = accepted s w"
    by (simp add: accepted_def put_player_def take_pending_def)
  have st1: "store (app ?w1) p = Some ?pl" "taskQueue (app ?w1) = []" "loopRunning (app ?w1)"
      "players (app ?w1) = players (app w)" "tmap (app ?w1) = m"
    using assms(2,4) room_invD(1) [OF safe_room [OF assms(1)]] by (simp_all add: put_player_def take_pending_def)
  have "entered ?pl" and "p \<in> snd ` set (players (app ?w1))" and "inputBuffer ?pl \<noteq> []" and "length (inputBuffer ?pl) \<le> 8"
    using assms(14-16) st1(4) by (simp_all add: buf)
  from tick_answers_commands [OF safe1 st1(3,2) lv st1(1) this, of os] w1
  show ?thesis
    unfolding acc by (auto simp: buf st1(5) room_invD(1) [OF safe_room [OF assms(1)]])
qed

theorem command_to_state_message_witness:
  "\<exists>w1 w2 pl'. exec demo_os (demo_proto\<lparr>parse_C_InputCmd := \<lambda>_. Some demo_command\<rparr>)
        (Complete 0 True (packet_bytes (packet_of OP_C_INPUT_CMD [8, 9]))) demo_playing = Some w1
     \<and> exec demo_os (demo_proto\<lparr>parse_C_InputCmd := \<lambda>_. Some demo_command\<rparr>) Tick w1 = Some w2
     \<and> store (app w2) 0 = Some pl' \<and> inputBuffer pl' = []"
proof -
  let ?P = "demo_proto\<lparr>parse_C_InputCmd := \<lambda>_. Some demo_command\<rparr>" and ?pkt = "packet_of OP_C_INPUT_CMD [8, 9]"
  have "wf_f32 fzero"
    using bnd_fzero [of 0] by (simp add: bnd_def)
  then have safe: "safe Map_new (near_place Map_new) (motion_ok Map_new) ?P {} demo_playing"
    using demo_playing_safe by (simp add: safe_def server_inv_def proto_ok_def demo_proto_def demo_command_def)
  have bytes: "wf_packet ?pkt" "hopcode (pheader ?pkt) = OP_C_INPUT_CMD" "length (packet_bytes ?pkt) = 6"
    by (simp_all add: wf_packet_of IsValidOpcode_def opcode_defs)
      (simp_all add: packet_of_def packet_bytes_def header_bytes_def)
  have state: "loopRunning (app demo_playing)" "handlerRoom (app demo_playing)" "taskQueue (app demo_playing) = []"
      "pending demo_playing ! 0 = (5, \<lparr>ioType = RECV, ioBuffer = None\<rparr>)" "heap demo_playing 5 = Some demo_session"
      "enabled (Complete 0 True (packet_bytes ?pkt)) demo_playing"
    by (simp_all add: demo_playing_def demo_world_app room_new_def demo_world_simps enabled_def bytes(3) RECV_POST_SIZE_def
        demo_world_workers)
  have sess: "\<not> closing demo_session" "recvStream demo_session = []" "csPlayer demo_session = Some 0"
    by (simp_all add: demo_session_def Session_new_def ClientSession.defs)
  have "recv_ok demo_os (calls demo_playing)"
    by (simp add: demo_os_def)
  from command_to_state_message [OF safe state(1-4,6) _ this state(5) sess demo_playing_player(1) _ _ _ bytes(1,2), of demo_command]
  show ?thesis
    by (auto simp: demo_playing_player)
qed

end
