(* ===== verification/Lifecycle.thy ===== *)
theory Lifecycle
  imports Delivery RoomInvariants
begin

text \<open>
  The life of the service: what starts it, what keeps it running and what stops it.
\<close>

subsection \<open>Nothing but stopping stops it\<close>

lemma service_simps [simp]:
  "service (PostTask t w) = service w" "service (put_player p pl w) = service w" "service (w\<lparr>app := r\<rparr>) = service w"
  by (simp_all add: service_def PostTask_def put_player_def)

lemma OnConnected_service: "OnConnected s w = Some w' \<Longrightarrow> service w' = service w"
  by (auto simp: OnConnected_def Let_def on_session_def service_def PostTask_def put_player_def
      split: option.splits bind_splits)

interpretation serving_connect: connect_effect OnDisconnected "\<lambda>w w'. service w' = service w" OnConnected "ClientSession.fields None"
proof unfold_locales
  show "service w' = service w" if "OnConnected s w = Some w'" for s w w'
    using that by (rule OnConnected_service)
qed (simp add: service_def)

lemma HandlePacket_service: "HandlePacket os P s pkt w = Some (b, w') \<Longrightarrow> service w' = service w"
  by (erule HandlePacket_effect) (auto dest: serving.EnqueueSend_packet_R)

interpretation serving_handler: handler_effect OnDisconnected "\<lambda>w w'. service w' = service w" "HandlePacket os P" for os P
  by unfold_locales (auto simp: on_session_def service_def dest: HandlePacket_service split: option.splits)

lemma RoomSend_service: "RoomSend os p buf w = Some w' \<Longrightarrow> service w' = service w"
  by (auto simp: RoomSend_def dest: serving.EnqueueSend_R split: option.splits bind_splits)

lemma RoomBroadcast_service:
  assumes "RoomBroadcast os buf except w = Some w'"
  shows "service w' = service w"
  by (rule serving.for_each_R [OF assms [unfolded RoomBroadcast_def]]) (auto dest: RoomSend_service split: if_splits)

lemma RoomSends_service: "for_each (\<lambda>q w. RoomSend os q buf w) qs w = Some w' \<Longrightarrow> service w' = service w"
  by (erule serving.for_each_R) (rule RoomSend_service)

lemma EnterGame_service: "EnterGame os P p nm w = Some w' \<Longrightarrow> service w' = service w"
  by (auto simp: EnterGame_def Let_def dest!: RoomSend_service RoomSends_service split: if_splits bind_splits)

lemma run_task_service: "run_task os P t w = Some w' \<Longrightarrow> service w' = service w"
  by (cases t) (auto simp: run_task_def Enter_def Leave_def Chat_def BroadcastAttack_def
      dest: EnterGame_service RoomBroadcast_service split: option.splits bind_splits)

lemma tick_player_service: "tick_player os P p w = Some w' \<Longrightarrow> service w' = service w"
  by (auto simp: tick_player_def Let_def dest!: RoomSend_service RoomBroadcast_service split: if_splits bind_splits)

lemma DrainTasks_service:
  assumes "DrainTasks os P w = Some w'"
  shows "service w' = service w"
proof -
  have "service w' = service (w\<lparr>app := (app w)\<lparr>taskQueue := []\<rparr>\<rparr>)"
    by (rule serving.for_each_R [OF assms [unfolded DrainTasks_def]]) (rule run_task_service)
  then show ?thesis by simp
qed

lemma TickAll_service:
  assumes "TickAll os P w = Some w'"
  shows "service w' = service w"
proof -
  obtain w1 where w1: "for_each (tick_player os P) (map snd (players (app w))) w = Some w1"
    and w': "w' = w1\<lparr>app := (app w1)\<lparr>serverTick := serverTick (app w1) + 1\<rparr>\<rparr>"
    using assms by (auto simp: TickAll_def split: bind_splits)
  have "service w1 = service w"
    by (rule serving.for_each_R [OF w1]) (rule tick_player_service)
  then show ?thesis
    by (simp add: w')
qed

lemma exec_service:
  assumes "exec os P l w = Some w'" and "l \<noteq> Shutdown"
  shows "service w' = service w"
proof (cases l)
  case (Accept client)
  then show ?thesis
    using assms(1) serving_connect.accept_round_R by (simp add: exec_def)
next
  case (Complete i success bytes)
  then show ?thesis
    using assms(1) serving_handler.worker_round_R by (simp add: exec_def)
next
  case Tick
  then show ?thesis
    using assms(1)
    by (auto simp: exec_def game_loop_round_def dest!: DrainTasks_service TickAll_service split: if_splits bind_splits)
qed (use assms(2) in simp)

subsection \<open>Properties\<close>



text \<open>A failed start is final: once \<open>StartServer\<close> or \<open>StartClient\<close> has returned false, the service counts as running, so every later attempt to start it fails whatever the operating system would grant, until \<open>Stop\<close> is called.\<close>

theorem failed_start_is_final:
  assumes "StartServer os n w = (False, w1) \<or> StartClient os n w = (False, w1)"
  shows "running w1 \<and> StartServer os' n' w1 = (False, w1) \<and> StartClient os' n' w1 = (False, w1)"
proof -
  have "running w1"
    using assms
    by (auto simp: StartServer_def StartClient_def InitIocpAndWorkers_def Let_def split: if_splits prod.splits)
  then show ?thesis
    by (simp add: StartServer_def StartClient_def)
qed

theorem failed_start_is_final_witness:
  "\<exists>w1. StartServer (demo_os\<lparr>bind_ok := False\<rparr>) 4 server_new = (False, w1) \<and> StartServer demo_os 4 w1 = (False, w1)"
proof -
  let ?w1 = "server_new\<lparr>running := True, mode := Mode_Server, listening := True\<rparr>"
  have start: "StartServer (demo_os\<lparr>bind_ok := False\<rparr>) 4 server_new = (False, ?w1)"
    by (simp add: StartServer_def demo_os_def server_new_def)
  from failed_start_is_final [OF disjI1 [OF this], of demo_os 4] start show ?thesis
    by blast
qed

end
