(* ===== verification/DummyClient.thy ===== *)
theory DummyClient
  imports NetService Messages
begin

text \<open>
  The load-test client: \<open>DummyClient/ClientPacketHandler.cpp\<close> and the bot of
  \<open>DummyClientMain.cpp\<close>. A bot has one connection and no state of its own besides the number of
  its next chat message. Log output is left out, so the handlers only parse.
\<close>

subsection \<open>The packet handler\<close>

definition Client_HandleEnterGame :: "proto_api \<Rightarrow> Packet \<Rightarrow> bool" where
  "Client_HandleEnterGame P pkt = (if \<not> parse_S_EnterGame P (payload pkt) then False else True)"

definition Client_HandleSpawn :: "proto_api \<Rightarrow> Packet \<Rightarrow> bool" where
  "Client_HandleSpawn P pkt = (if \<not> parse_S_Spawn P (payload pkt) then False else True)"

definition Client_HandleDespawn :: "proto_api \<Rightarrow> Packet \<Rightarrow> bool" where
  "Client_HandleDespawn P pkt = (if \<not> parse_S_Despawn P (payload pkt) then False else True)"

definition Client_HandleChat :: "proto_api \<Rightarrow> Packet \<Rightarrow> bool" where
  "Client_HandleChat P pkt = (if \<not> parse_S_Chat P (payload pkt) then False else True)"

definition Client_HandlePlayerList :: "proto_api \<Rightarrow> Packet \<Rightarrow> bool" where
  "Client_HandlePlayerList P pkt = (if \<not> parse_S_PlayerList P (payload pkt) then False else True)"

definition Client_HandlePong :: "Packet \<Rightarrow> bool" where
  "Client_HandlePong pkt = True"

type_synonym bot = "(unit, nat) net"

definition Client_HandlePacket :: "proto_api \<Rightarrow> sref \<Rightarrow> Packet \<Rightarrow> bot \<Rightarrow> (bool \<times> bot) option" where
  "Client_HandlePacket P s pkt w =
     (let opcode = hopcode (pheader pkt) in
      Some ((if opcode = OP_S_ENTER_GAME then Client_HandleEnterGame P pkt
             else if opcode = OP_S_SPAWN then Client_HandleSpawn P pkt
             else if opcode = OP_S_DESPAWN then Client_HandleDespawn P pkt
             else if opcode = OP_S_CHAT then Client_HandleChat P pkt
             else if opcode = OP_S_PLAYER_LIST then Client_HandlePlayerList P pkt
             else if opcode = OP_S_PONG then Client_HandlePong pkt
             else False), w))"

subsection \<open>The bot\<close>

definition Bot_OnDisconnected :: "sref \<Rightarrow> bot \<Rightarrow> bot option" where
  "Bot_OnDisconnected s w = Some w"

text \<open>The connect callback requests to enter under the name \<open>nm\<close>.\<close>

definition Bot_OnConnected :: "os_api \<Rightarrow> proto_api \<Rightarrow> string \<Rightarrow> sref \<Rightarrow> bot \<Rightarrow> bot option" where
  "Bot_OnConnected os P nm s w = do {
     packet \<leftarrow> MakePacketFromProto P OP_C_ENTER_GAME (C_EnterGame nm);
     EnqueueSend_packet os Bot_OnDisconnected s packet w
   }"

text \<open>The start of \<open>RunDummyBot\<close>: whether the bot is running, with the session at address \<open>a\<close>.\<close>

definition Bot_start :: "os_api \<Rightarrow> proto_api \<Rightarrow> string \<Rightarrow> sref \<Rightarrow> bot \<Rightarrow> (bool \<times> bot) option" where
  "Bot_start os P nm a w =
     (case StartClient os 1 w of
        (False, w) \<Rightarrow> Some (False, w)
      | (True, w) \<Rightarrow> do {
          (connected, w) \<leftarrow> Connect os (Bot_OnConnected os P nm) Bot_OnDisconnected () a w;
          if \<not> connected then do { w \<leftarrow> Stop Bot_OnDisconnected w; Some (False, w) }
          else Some (True, w)
        })"

text \<open>One round of its loop, with the text for the message number.\<close>

definition Bot_round :: "os_api \<Rightarrow> proto_api \<Rightarrow> (nat \<Rightarrow> string) \<Rightarrow> bot \<Rightarrow> bot option" where
  "Bot_round os P msg_text w = do {
     let tick = app w;
     let w = w\<lparr>app := tick + 1\<rparr>;
     packet \<leftarrow> MakePacketFromProto P OP_C_CHAT (C_Chat_msg \<lparr>cc_type = 0, cc_message = msg_text tick\<rparr>);
     Broadcast_packet os Bot_OnDisconnected packet w
   }"

definition bot_new :: bot where
  "bot_new = \<lparr>heap = (\<lambda>_. None), sessions = [], pending = [], calls = 0, events = [], mode = Mode_None,
     running = False, listening = False, iocp_open = False, workers = 0, app = 0\<rparr>"

subsection \<open>The bot's callbacks meet the contracts\<close>

interpretation bot_disc: disconnect_callback Bot_OnDisconnected "\<lambda>_ _. True"
proof unfold_locales
  fix w :: bot and s
  have "app_update (\<lambda>_. app (disconnecting s w)) (disconnecting s w) = disconnecting s w"
    by simp
  then show "\<exists>m. Bot_OnDisconnected s (disconnecting s w) = Some (app_update (\<lambda>_. m) (disconnecting s w)) \<and> True"
    unfolding Bot_OnDisconnected_def by metis
qed

interpretation bot_handler: packet_handler Bot_OnDisconnected "\<lambda>_ _. True" "Client_HandlePacket P" for P
  by unfold_locales (auto simp: Client_HandlePacket_def Let_def)

text \<open>A round of the bot's loop is defined and keeps the service's invariant.\<close>

lemma Bot_round_ok:
  assumes "net_ok w"
  shows "\<exists>w'. Bot_round os P msg_text w = Some w' \<and> net_ok w'"
proof -
  let ?w1 = "w\<lparr>app := app w + 1\<rparr>" and ?msg = "C_Chat_msg \<lparr>cc_type = 0, cc_message = msg_text (app w)\<rparr>"
  obtain buf where "proto_buffer P OP_C_CHAT ?msg = Some buf"
    by (simp add: proto_buffer_sendable)
  moreover have "net_ok ?w1"
    using assms by (simp add: net_ok_def view_def)
  from bot_disc.Broadcast_ok [OF this TrueI] obtain w' where "Broadcast os Bot_OnDisconnected buf ?w1 = Some w'" "net_ok w'"
    by blast
  ultimately show ?thesis
    by (auto simp: Bot_round_def Broadcast_packet_def proto_buffer_def split: bind_splits)
qed

text \<open>An operating system that refuses every send.\<close>

definition refusing_os :: os_api where
  "refusing_os = \<lparr>send_ok = \<lambda>_. False, recv_ok = \<lambda>_. True, assoc_ok = \<lambda>_. True, socket_ok = True,
     bind_ok = True, listen_ok = True, connect_ok = True, iocp_ok = True, thread_ok = \<lambda>_. True,
     clock = \<lambda>_. 0\<rparr>"

text \<open>A bot with one connection, waiting for what the server sends.\<close>

definition bot_connected :: bot where
  "bot_connected = bot_new\<lparr>heap := [5 \<mapsto> Session_new ()\<lparr>refCount := 2\<rparr>], sessions := [5],
     pending := [(5, \<lparr>ioType = RECV, ioBuffer = None\<rparr>)], events := [Connected 5]\<rparr>"

lemma bot_connected_ok: "net_ok bot_connected"
  by (auto simp: net_ok_def bot_connected_def bot_new_def view_def ok_def Session_new_def)

subsection \<open>Properties\<close>

text \<open>A bot's worker never uses a freed session: whatever completes, with whatever bytes, in a state where the service's invariant holds, the round finishes and the invariant holds again.\<close>

lemma bot_worker_safe:
  assumes "net_ok w" and "i < length (pending w)"
  shows "\<exists>w'. worker_round os Bot_OnDisconnected (Client_HandlePacket P) i success bytes w = Some w' \<and> net_ok w'"
  using bot_handler.worker_round_ok [OF assms(1) TrueI assms(2)] by blast

lemma bot_worker_safe_witness:
  "\<exists>w'. worker_round refusing_os Bot_OnDisconnected (Client_HandlePacket demo_proto) 0 True [1, 2, 3]
     bot_connected = Some w' \<and> net_ok w'"
  by (rule bot_worker_safe [OF bot_connected_ok]) (simp add: bot_connected_def)

text \<open>C39: Connecting a bot can use a freed session: its connect callback sends, a refused send closes the session and, no operation being outstanding, frees it, and \<open>Start\<close> then posts the first receive on it.\<close>

lemma bot_connect_use_after_free:
  assumes "sendable P (C_EnterGame nm) = Some bytes" and "assoc_ok os (calls w)" and "\<not> send_ok os (calls w + 1)"
  shows "CreateAndRegisterSession os (Bot_OnConnected os P nm) Bot_OnDisconnected () a w = None"
proof -
  define buf where "buf = buffer_of (packet_bytes (packet_of OP_C_ENTER_GAME bytes))"
  have "proto_buffer P OP_C_ENTER_GAME (C_EnterGame nm) = Some (Some buf)"
    using assms(1) by (simp add: proto_buffer_sendable buf_def)
  then have con: "Bot_OnConnected os P nm a v = EnqueueSend os Bot_OnDisconnected a (Some buf) v" for v
    by (auto simp: Bot_OnConnected_def EnqueueSend_packet_def proto_buffer_def)
  have pos: "\<not> writeSize buf \<le> 0"
    by (simp add: buf_def)
  show ?thesis
    using assms(2,3) pos
    by (simp add: CreateAndRegisterSession_def Start_def con EnqueueSend_def PostSendFront_NoLock_def AddRef_def
        Release_def on_session_def Close_def NotifyDisconnected_def Bot_OnDisconnected_def RemoveSession_def
        AddSession_def Session_new_def closed_session_def emit_def PostRecv_def MAX_SEND_QUEUE_SIZE_def Let_def)
qed

lemma bot_connect_use_after_free_witness:
  "CreateAndRegisterSession refusing_os (Bot_OnConnected refusing_os demo_proto ''bot'') Bot_OnDisconnected () 5 bot_new = None"
  by (rule bot_connect_use_after_free [of _ _ "[10, 0]"])
    (simp_all add: sendable_def demo_proto_def refusing_os_def)

text \<open>A bot does not survive entering the game: it refuses the packets with which the server answers every tick of an entered player (\<open>S_PLAYER_STATE\<close>) or of another one (\<open>S_BROADCAST_MOVE\<close>), so the first of them closes its connection.\<close>

lemma bot_refuses_player_state:
  assumes "hopcode (pheader pkt) \<in> {OP_S_PLAYER_STATE, OP_S_BROADCAST_MOVE}" and "wf_packet pkt"
    and "heap w s = Some x" and "\<not> closing x" and "recvStream x = []"
  shows "OnRecvComplete os Bot_OnDisconnected (Client_HandlePacket P) s (packet_bytes pkt) w
    = Close Bot_OnDisconnected s w"
proof -
  have get: "TryGetPacket (packet_bytes pkt) Packet_new = (Success, [], pkt)"
    using TryGetPacket_encode [OF assms(2), of "[]"] by simp
  let ?w1 = "w\<lparr>heap := (heap w)(s \<mapsto> x\<lparr>recvStream := packet_bytes pkt\<rparr>)\<rparr>"
  have same: "w\<lparr>heap := (heap w)(s \<mapsto> x\<lparr>recvStream := []\<rparr>)\<rparr> = w"
  proof -
    have "x\<lparr>recvStream := []\<rparr> = x"
      using assms(5) by simp
    then have "(heap w)(s \<mapsto> x\<lparr>recvStream := []\<rparr>) = heap w"
      using assms(3) by (simp add: fun_upd_idem)
    then show ?thesis by simp
  qed
  have refuse: "Client_HandlePacket P s pkt v = Some (False, v)" for v
    using assms(1) by (auto simp: Client_HandlePacket_def Let_def opcode_defs)
  have "recv_loop os Bot_OnDisconnected (Client_HandlePacket P) s ?w1 = Close Bot_OnDisconnected s w"
    by (subst recv_loop.simps) (simp add: get refuse on_session_def same)
  then show ?thesis
    using assms(3-5) by (simp add: OnRecvComplete_def on_session_def)
qed

lemma bot_refuses_player_state_witness:
  "OnRecvComplete refusing_os Bot_OnDisconnected (Client_HandlePacket demo_proto) 5
      (packet_bytes (packet_of OP_S_PLAYER_STATE [10, 0])) (bot_new\<lparr>heap := [5 \<mapsto> Session_new ()]\<rparr>)
    = Close Bot_OnDisconnected 5 (bot_new\<lparr>heap := [5 \<mapsto> Session_new ()]\<rparr>)"
proof (rule bot_refuses_player_state [where x = "Session_new ()"])
  show "wf_packet (packet_of OP_S_PLAYER_STATE [10, 0])"
    by (rule wf_packet_of) (simp_all add: IsValidOpcode_def opcode_defs)
qed (simp_all add: packet_of_def Session_new_def)

end
