(* ===== verification/Logging.thy ===== *)
theory Logging
  imports Prelude
begin

text \<open>
  The log of the server (\<open>ServerMain.cpp\<close>): \<open>TeeBuf\<close>, which copies what is written to \<open>std::cout\<close> to
  the console and to a file, and the rotation of the log files at start-up. Of \<open>std::streambuf\<close> the
  model has what \<open>TeeBuf\<close> uses: writing a character can fail, and writing a string stops at the first
  character that does.
\<close>

subsection \<open>Stream buffers\<close>

text \<open>What was written, how many characters were tried, and which attempts fail.\<close>

record streambuf =
  written :: "byte list"
  attempts :: nat
  fails :: "nat \<Rightarrow> bool"

definition EOF :: int where "EOF = -1"

definition sputc :: "byte \<Rightarrow> streambuf \<Rightarrow> int \<times> streambuf" where
  "sputc c b =
     (let failed = fails b (attempts b);
          b = b\<lparr>attempts := attempts b + 1\<rparr>
      in if failed then (EOF, b) else (uint c, b\<lparr>written := written b @ [c]\<rparr>))"

fun sputn :: "byte list \<Rightarrow> streambuf \<Rightarrow> streambuf" where
  "sputn [] b = b"
| "sputn (c # cs) b = (case sputc c b of (r, b) \<Rightarrow> if r = EOF then b else sputn cs b)"

subsection \<open>The tee\<close>

record TeeBuf =
  console :: streambuf
  logfile :: streambuf

text \<open>\<open>TeeBuf::overflow\<close>: \<open>EOF\<close> as argument writes nothing and returns \<open>!EOF\<close>, which is 0.\<close>

definition tee_overflow :: "int \<Rightarrow> TeeBuf \<Rightarrow> int \<times> TeeBuf" where
  "tee_overflow c t =
     (if c = EOF then (0, t)
      else case sputc (word_of_int c) (console t) of (r, b) \<Rightarrow>
        let t = t\<lparr>console := b\<rparr> in
        if r = EOF then (EOF, t)
        else case sputc (word_of_int c) (logfile t) of (r, b) \<Rightarrow>
          let t = t\<lparr>logfile := b\<rparr> in
          if r = EOF then (EOF, t) else (c, t))"

definition tee_xsputn :: "byte list \<Rightarrow> TeeBuf \<Rightarrow> nat \<times> TeeBuf" where
  "tee_xsputn s t =
     (length s, t\<lparr>console := sputn s (console t), logfile := sputn s (logfile t)\<rparr>)"

text \<open>\<open>TeeBuf::sync\<close> flushes both; nothing of the model is buffered.\<close>

definition tee_sync :: "TeeBuf \<Rightarrow> int \<times> TeeBuf" where
  "tee_sync t = (0, t)"

subsection \<open>Log rotation\<close>

type_synonym directory = "string \<Rightarrow> byte list option"

text \<open>The files of the log directory after \<open>main\<close> has opened the log.\<close>

definition open_log :: "directory \<Rightarrow> directory" where
  "open_log fs =
     (let cur = ''server.log''; prev = ''server.prev.log'';
          fs = (if fs prev \<noteq> None then fs(prev := None) else fs);
          fs = (if fs cur \<noteq> None then fs(prev := fs cur, cur := None) else fs)
      in fs(cur \<mapsto> []))"

subsection \<open>What the log holds\<close>

lemma byte_not_EOF [simp]: "uint (c :: byte) \<noteq> EOF"
  unfolding EOF_def using uint_ge_0 [of c] by linarith

lemma sputn_fails [simp]: "fails (sputn s b) = fails b"
  by (induction s arbitrary: b) (auto simp: sputc_def Let_def)

text \<open>A buffer takes a prefix of the string, and all of it if no attempt fails.\<close>

lemma sputn_prefix: "\<exists>k \<le> length s. written (sputn s b) = written b @ take k s"
proof (induction s arbitrary: b)
  case (Cons c cs)
  let ?b = "b\<lparr>attempts := attempts b + 1, written := written b @ [c]\<rparr>"
  show ?case
  proof (cases "fails b (attempts b)")
    case True
    then show ?thesis
      by (intro exI [of _ 0]) (simp add: sputc_def)
  next
    case False
    obtain k where "k \<le> length cs" "written (sputn cs ?b) = written ?b @ take k cs"
      using Cons by blast
    with False show ?thesis
      by (intro exI [of _ "Suc k"]) (simp add: sputc_def)
  qed
qed simp

lemma sputn_all: "(\<And>n. \<not> fails b n) \<Longrightarrow> written (sputn s b) = written b @ s"
  by (induction s arbitrary: b) (simp_all add: sputc_def)

text \<open>While neither side fails, both get the same text, character by character or by strings.\<close>

datatype log_op = Put byte | Puts "byte list" | Flush

definition emit_output :: "log_op \<Rightarrow> TeeBuf \<Rightarrow> TeeBuf" where
  "emit_output e t = (case e of
     Put c \<Rightarrow> snd (tee_overflow (uint c) t) | Puts s \<Rightarrow> snd (tee_xsputn s t) | Flush \<Rightarrow> snd (tee_sync t))"

definition output_text :: "log_op list \<Rightarrow> byte list" where
  "output_text es = concat (map (\<lambda>e. case e of Put c \<Rightarrow> [c] | Puts s \<Rightarrow> s | Flush \<Rightarrow> []) es)"

lemma tee_transcript:
  assumes "\<And>n. \<not> fails (console t) n" and "\<And>n. \<not> fails (logfile t) n"
  shows "written (console (fold emit_output es t)) = written (console t) @ output_text es
    \<and> written (logfile (fold emit_output es t)) = written (logfile t) @ output_text es"
  using assms
proof (induction es arbitrary: t)
  case (Cons e es)
  let ?t = "emit_output e t"
  have "(\<forall>n. \<not> fails (console ?t) n) \<and> (\<forall>n. \<not> fails (logfile ?t) n)
      \<and> written (console ?t) = written (console t) @ output_text [e]
      \<and> written (logfile ?t) = written (logfile t) @ output_text [e]"
    using Cons.prems
    by (cases e) (simp_all add: emit_output_def output_text_def tee_overflow_def tee_xsputn_def tee_sync_def sputc_def sputn_all Let_def)
  with Cons.IH [of ?t] show ?case
    by (simp add: output_text_def)
qed (simp add: output_text_def)

text \<open>A console that refuses a character keeps it from the log; of a string the log loses nothing.\<close>

lemma tee_overflow_console_fails:
  "c \<noteq> EOF \<Longrightarrow> fails (console t) (attempts (console t)) \<Longrightarrow>
     fst (tee_overflow c t) = EOF \<and> logfile (snd (tee_overflow c t)) = logfile t"
  by (simp add: tee_overflow_def sputc_def)

lemma tee_xsputn_console_fails:
  "(\<And>n. \<not> fails (logfile t) n) \<Longrightarrow> written (logfile (snd (tee_xsputn s t))) = written (logfile t) @ s"
  by (simp add: tee_xsputn_def sputn_all)

text \<open>The new log is empty, the last one is kept, and nothing else is touched.\<close>

lemma open_log_files:
  "open_log fs f = (if f = ''server.log'' then Some [] else if f = ''server.prev.log'' then fs ''server.log'' else fs f)"
  by (simp add: open_log_def Let_def)

end
