(* ===== verification/Spec2Isabelle.thy ===== *)
theory Spec2Isabelle
  imports Races LateEntry WorkBound EndToEnd Lifecycle DummyClient Logging
begin

text \<open>
  A verification development for SimpleServer, a C++ game server on Windows I/O completion ports:
  \<open>ServerCore/\<close> is the network library, \<open>SimpleServer/\<close> the server with its game room,
  \<open>DummyClient/\<close> a load-test client. Theories, from the bottom up:

  \<^item> \<^bold>\<open>Prelude\<close>: options as partial results, 32-bit range checks, \<open>memcpy\<close>, the loop
    combinator \<open>for_each\<close>, little-endian halves of words.
  \<^item> \<^bold>\<open>Float32\<close>: IEEE binary32 with round to nearest even, as far as the sources compute with
    \<open>float\<close>, with exact bounds on the rounding of each operation.
  \<^item> \<^bold>\<open>Packet\<close> (\<open>Packet.cpp\<close>, \<open>SendBuffer.h\<close>, \<open>Opcodes.h\<close>): packets on the wire, with the
    16-bit sizes at their width. \<^bold>\<open>Framing\<close>: the receive path as a decoder of a byte stream.
    \<^bold>\<open>Messages\<close> (\<open>ProtoUtil.cpp\<close>): the protocol's messages.
  \<^item> \<^bold>\<open>TileMap\<close> (\<open>Map.cpp\<close>), \<^bold>\<open>Player\<close> (\<open>Player.cpp\<close>), \<^bold>\<open>Collision\<close>, \<^bold>\<open>Physics\<close> and
    \<^bold>\<open>Movement\<close> (the physics of \<open>GameRoom.cpp\<close>): the map, the player and its input buffer, the
    collision tests, the simulation of one command, and what it guarantees. \<^bold>\<open>WorldBounds\<close>: the
    invariant of a player's motion that makes every step of the physics defined, for ever.
  \<^item> \<^bold>\<open>Sessions\<close> (\<open>Session.cpp\<close>, \<open>IoContext.h\<close>) and \<^bold>\<open>SessionInv\<close>: sessions with reference
    counts, send queues and outstanding operations; their invariant, against contracts of the
    callbacks. \<^bold>\<open>NetService\<close> (\<open>NetService.cpp\<close>): starting, stopping, accepting, the worker loop.
    \<^bold>\<open>Effects\<close>: what sessions can do to the rest of the program only through the callbacks.
  \<^item> \<^bold>\<open>GameRoom\<close> (\<open>GameRoom.cpp\<close>, \<open>ClientSession.h\<close>, the callbacks of \<open>ServerMain.cpp\<close>) and
    \<^bold>\<open>ServerPacketHandler\<close>: the room, its task queue and tick, and the handlers of client packets.
    \<^bold>\<open>ServerInv\<close>: the invariant of the whole server. \<^bold>\<open>Server\<close> (\<open>ServerMain.cpp\<close>): the process
    as a transition system.
  \<^item> \<^bold>\<open>RoomTick\<close>, \<^bold>\<open>RoomInvariants\<close>, \<^bold>\<open>PlayerTable\<close>, \<^bold>\<open>RoomProtocol\<close>, \<^bold>\<open>WorldMotion\<close>, \<^bold>\<open>Delivery\<close>,
    \<^bold>\<open>Lifecycle\<close>: properties of the running server: the tick, the table of players against the
    queue, the messages of the room, where the players are and what an unchecked position does,
    who receives a broadcast, and when the service stops. \<^bold>\<open>FloatState\<close>: the physics keeps
    every float a binary32 number. \<^bold>\<open>EndToEnd\<close>: from the bytes of a command to the message that
    answers it, through all components.
  \<^item> \<^bold>\<open>Workers\<close> (\<open>NetService::WorkerLoop\<close>), \<^bold>\<open>Jobs\<close> (\<open>GameRoom::GameLoopThread\<close>) and \<^bold>\<open>Process\<close>: the
    threads at the grain of their accesses to shared data, and the process that interleaves them.
    \<^bold>\<open>Interleaving\<close>: its agreement with the process of \<^bold>\<open>Server\<close>, and that rounds end. \<^bold>\<open>Threads\<close>: its
    invariants. \<^bold>\<open>WorkBound\<close>: the workers' work is linear in what they receive. \<^bold>\<open>Races\<close> and
    \<^bold>\<open>LateEntry\<close>: what the threads can do to each other where the code does not lock.
  \<^item> \<^bold>\<open>DummyClient\<close>: the bot and its handlers. \<^bold>\<open>Logging\<close> (\<open>ServerMain.cpp\<close>): \<open>TeeBuf\<close> and the log
    files.

  \<^bold>\<open>Conventions.\<close> A function that can be undefined behaviour in the source (a freed session, a
  dangling pointer, an out-of-bounds copy, a float outside the range of \<open>int\<close>, a thrown exception)
  returns an option, and \<^term>\<open>None\<close> is that outcome; each early return is a branch. Records have
  the source's classes' fields. Objects shared by pointer live in maps from addresses: sessions in
  \<open>heap\<close>, players in \<open>store\<close>. Closures in the task queue are the constructors of \<open>task\<close>.

  \<^bold>\<open>Concurrency.\<close> The server runs an accept thread, worker threads and the game loop; the kernel
  completes outstanding operations in any order, with any outcome and any bytes. Two processes
  model this. In \<open>exec\<close> (\<^bold>\<open>Server\<close>) a step is one accepted client, one completion handled by a worker
  or one round of the game loop, run without interruption, in any order. In \<open>pstep\<close> (\<^bold>\<open>Process\<close>) a
  worker is interrupted between the tests of \<open>_closing\<close>, the packets it takes off the stream, the
  handler of each, and the posting of the next operation, and the game loop between its jobs: one
  task begun, one command simulated, one buffer sent to one player. \<^bold>\<open>Interleaving\<close> shows that every
  step of \<open>exec\<close> is a run of \<open>pstep\<close>; the invariants of \<^bold>\<open>Threads\<close> hold in every state of \<open>pstep\<close>. What
  is still one step: the handling of one packet, and one call of \<open>EnqueueSend\<close>, \<open>Close\<close>, \<open>PostRecv\<close> or
  \<open>OnSendComplete\<close>, whose critical parts the code protects with a lock or an atomic exchange; the
  connecting of an accepted client; and a job's send, which reads a session pointer and calls
  through it. The last two are not atomic in the code: \<^bold>\<open>Races\<close> cuts them in halves and shows what
  goes wrong when another thread gets in between. Concurrent writes to memory that the code leaves
  unprotected (\<open>_recvStream\<close> cleared by another thread, \<open>_sock\<close>, a player's session pointer) are
  ordered in the model, never torn.

  \<^bold>\<open>Parameters.\<close> The operating system (\<open>os_api\<close>), the protobuf runtime (\<open>proto_api\<close>) and the
  JSON library (\<open>json_api\<close>) are not in the repository; definitions take them as arguments, and
  theorems hold for all of them, or under hypotheses that name documented behaviour.

  \<^bold>\<open>Bounds.\<close> Of a loaded map it is assumed that cells measure between 1/8 and 4 units and lie
  within \<open>2\<^sup>2\<^sup>0\<close> cells of the origin, and of a ladder request on it that it names a place within
  \<open>2\<^sup>2\<^sup>3\<close> units: the code checks neither, and a request outside can stop the server. Nothing is
  assumed of a map that did not load. Positions then stay below \<open>2\<^sup>2\<^sup>4\<close> by themselves: binary32
  numbers of that size are two units apart and no step moves a player by more than one. Player ids
  wrap around after \<open>2\<^sup>6\<^sup>4\<close> connections; the theorem about the table says so. No fuel is used: the
  loops of the source are recursions with a measure, or (the receive loop) a partial function
  proved to return.

  \<^bold>\<open>Not modelled.\<close> The texts that are logged and their time stamps, console set-up, socket options
  and addresses, \<open>WSAStartup\<close>, thread creation itself and sleeping, the loop of the dummy client's
  \<open>main\<close> that starts ten bots, which share nothing: all of it calls of the operating system without
  state of the program. The generated protobuf classes are a parameter; the data and project files
  are read by none of the sources modelled.
\<close>

end
